(* ===== verification/Prelude.thy ===== *)
theory Prelude
  imports Main "HOL-Library.Word" "HOL-Library.Monad_Syntax" "HOL-Library.Multiset"
begin

text \<open>
  Shared types and lemmas of the development.

  \<^item> \<open>'a ref\<close> is a C pointer: \<open>NULL\<close> or a reference. Addresses of heap objects are
    natural numbers (\<open>ptr\<close>), and a \<open>const void*\<close> payload is \<open>'d ref\<close>, its referent
    being left abstract.
  \<^item> A heap of objects is a partial map from addresses; reading or writing through \<open>NULL\<close>
    or through an address that holds no object has no value: the operation is \<open>None\<close>.
    Loops that follow pointers are partial functions in the same type, so \<open>None\<close> also
    stands for a loop that does not return. A theorem that an operation is \<open>Some\<close> thus
    says that it is memory safe and terminates.
  \<^item> \<open>uint8_t\<close> to \<open>uint64_t\<close> and \<open>size_t\<close> are words of their width, so arithmetic wraps
    as it does in the code.
\<close>

unbundle bit_operations_syntax

subsection \<open>Types\<close>

type_synonym u8 = "8 word"
type_synonym u16 = "16 word"
type_synonym u32 = "32 word"
type_synonym u64 = "64 word"

datatype 'a ref = NULL | Ref (ref_of: 'a)

type_synonym ptr = "nat ref"

definition ref_opt :: "'a ref \<Rightarrow> 'a option" where
  "ref_opt p = (case p of NULL \<Rightarrow> None | Ref a \<Rightarrow> Some a)"

lemma ref_opt_simps [simp]: "ref_opt NULL = None" "ref_opt (Ref a) = Some a"
  by (simp_all add: ref_opt_def)

named_theorems model_defs \<open>definitions of the model, unfolded by its proofs\<close>

subsection \<open>Words\<close>

lemma map_upd_None_singleton [simp]: "dom m = {a} \<Longrightarrow> m(a := None) = (\<lambda>x. None)"
  by (rule ext) (auto simp: dom_def)

lemma unat_lt64 [simp]: "unat (w :: u64) < 18446744073709551616"
  using unsigned_less [of w] by simp

lemma unat_of_nat64 [simp]: "n < 18446744073709551616 \<Longrightarrow> unat (of_nat n :: u64) = n"
  by (simp add: unat_of_nat take_bit_nat_eq_self)

lemma of_nat64_less [simp]:
  "m < 18446744073709551616 \<Longrightarrow> n < 18446744073709551616 \<Longrightarrow>
   (of_nat m :: u64) < of_nat n \<longleftrightarrow> m < n"
  by (simp add: word_less_nat_alt)

lemma of_nat64_le [simp]:
  "m < 18446744073709551616 \<Longrightarrow> n < 18446744073709551616 \<Longrightarrow>
   (of_nat m :: u64) \<le> of_nat n \<longleftrightarrow> m \<le> n"
  by (simp add: word_le_nat_alt)

lemma of_nat64_eq:
  "m < 18446744073709551616 \<Longrightarrow> n < 18446744073709551616 \<Longrightarrow>
   (of_nat m :: u64) = of_nat n \<longleftrightarrow> m = n"
  by (metis unat_of_nat64)

lemma drop_bit_of_nat64:
  assumes "n < 18446744073709551616"
  shows "drop_bit m (of_nat n :: u64) = of_nat (n div 2 ^ m)"
proof -
  have "unat (drop_bit m (of_nat n :: u64)) = drop_bit m n"
    unfolding unat_drop_bit_eq using assms by simp
  moreover have "n div 2 ^ m < 18446744073709551616"
    using assms div_le_dividend order.strict_trans1 by blast
  ultimately have "unat (drop_bit m (of_nat n :: u64)) = unat (of_nat (n div 2 ^ m) :: u64)"
    by (simp only: unat_of_nat64 drop_bit_eq_div)
  then show ?thesis by (simp only: word_unat_eq_iff)
qed

lemma u64_cases [case_names of_nat]:
  obtains n where "(w :: u64) = of_nat n" "n < 2 ^ 64"
proof
  show "w = of_nat (unat w)" by simp
  show "unat w < 2 ^ 64" by simp
qed

lemma unat_add_one: "unat (w :: u64) < 2 ^ 64 - 1 \<Longrightarrow> unat (w + 1) = unat w + 1"
  by (simp add: unat_word_ariths)

lemma unat_add_one_less:
  assumes "unat (w :: u64) < unat (v :: u64)"
  shows "unat (w + 1) = unat w + 1"
proof -
  have "unat w < 18446744073709551615" using assms unat_lt64 [of v] by linarith
  then show ?thesis by (intro unat_add_one) simp
qed

lemma unat_byte [simp]: "unat (b :: u8) < 256"
  using unsigned_less [of b] by simp

lemma unat_ucast_u8 [simp]: "unat (ucast (b :: u8) :: u64) = unat b"
proof -
  have "unat b < 2 ^ 64" by (rule order.strict_trans [OF unat_byte]) simp
  then show ?thesis by (simp add: unsigned_ucast_eq take_bit_nat_eq_self)
qed

lemma sint_nonneg64:
  assumes "unat (w :: u64) < 9223372036854775808"
  shows "sint w = int (unat w)"
proof -
  have "int (unat w) < 9223372036854775808" using assms by linarith
  then have "uint w < 2 ^ 63" by simp
  moreover have "- (2 ^ 63) \<le> uint w" by (rule order.trans [OF _ uint_ge_0]) simp
  ultimately have "signed_take_bit 63 (uint w) = uint w"
    by (intro signed_take_bit_int_eq_self)
  then show ?thesis by (simp add: sint_uint)
qed

lemma unat_minus_one64: "0 < unat (w :: u64) \<Longrightarrow> unat (w - 1) = unat w - 1"
  by (metis less_irrefl unat_0 unat_minus_one)

end
