(* ===== verification/LinkedList.thy ===== *)
theory LinkedList
  imports Prelude
begin

text \<open>
  The doubly linked list of \<open>cc/lib/list_linked.64.c\<close>.

  A list keeps its items in a heap (\<open>l_items\<close>), with \<open>head\<close>, \<open>tail\<close> and \<open>middle\<close>
  pointers into it, the position of the middle item and a balance that says when the middle
  has to move. Operations return \<open>None\<close> where the code would read or write through a null
  or freed pointer, or would not return. What \<^verbatim>\<open>memory_malloc_ext\<close> returns is an argument
  of the operations that allocate: \<open>NULL\<close> when there is no memory. A fresh item is zero
  filled, as the heaps of the kernel hand out cleaned memory. The list's lock is the flag
  \<open>l_locked\<close>: acquiring sets it (the lock is reentrant for its owner), releasing clears it.
  The receiver is never null here: \<^verbatim>\<open>list_insert_at\<close> and its siblings, the only callers,
  test it before they dispatch (theory \<open>List_Dispatch\<close>).
\<close>

subsection \<open>Data\<close>

record 'd list_item =
  li_data :: "'d ref"
  li_next :: ptr
  li_previous :: ptr

type_synonym 'd items = "nat \<rightharpoonup> 'd list_item"

type_synonym 'd comparator = "'d ref \<Rightarrow> 'd ref \<Rightarrow> int"

datatype list_insert_delete_at_t =
    LIST_INSERT_AT_HEAD
  | LIST_INSERT_AT_TAIL
  | LIST_INSERT_AT_POSITION
  | LIST_INSERT_AT_SORTED
  | LIST_INSERT_AT_INDEXED
  | LIST_DELETE_AT_HEAD
  | LIST_DELETE_AT_TAIL
  | LIST_DELETE_AT_FINDBY
  | LIST_DELETE_AT_POSITION

datatype list_destroy_type_t = LIST_DESTROY_WITHOUT_DATA | LIST_DESTROY_WITH_DATA

definition LIST_TYPE_LIST :: u32 where "LIST_TYPE_LIST = push_bit 0 1"
definition LIST_TYPE_SORTEDLIST :: u32 where "LIST_TYPE_SORTEDLIST = push_bit 1 1"
definition LIST_TYPE_QUEUE :: u32 where "LIST_TYPE_QUEUE = push_bit 2 1"
definition LIST_TYPE_STACK :: u32 where "LIST_TYPE_STACK = push_bit 3 1"
definition LIST_TYPE_INDEXEDLIST :: u32 where "LIST_TYPE_INDEXEDLIST = push_bit 8 1"
definition LIST_TYPE_LINKED :: u32 where "LIST_TYPE_LINKED = push_bit 9 1"
definition LIST_TYPE_ARRAY :: u32 where "LIST_TYPE_ARRAY = push_bit 10 1"

text \<open>
  The list. The indexer of an indexed list is an object of its own; its state has the
  abstract type \<open>'i\<close> and its operations are those of \<open>indexer_ops\<close> below.
\<close>

record ('d, 'i) list_t =
  l_items :: "'d items"
  l_type :: u32
  l_locked :: bool
  l_comparator :: "'d comparator"
  l_equality_comparator :: "'d comparator option"
  l_item_count :: u64
  l_indexer :: 'i
  l_head :: ptr
  l_tail :: ptr
  l_middle :: ptr
  l_middle_position :: u64
  l_balance :: u8

text \<open>
  What the list calls of its indexer: \<^verbatim>\<open>indexer_index\<close>, the first hit of
  \<^verbatim>\<open>indexer_search\<close> on index 0 for equality, and \<^verbatim>\<open>indexer_delete\<close>, which the list
  calls with an item pointer in one place and with a payload in another.
\<close>

record ('d, 'i) indexer_ops =
  ix_index :: "'i \<Rightarrow> 'd ref \<Rightarrow> ptr \<Rightarrow> 'i"
  ix_search :: "'i \<Rightarrow> 'd ref \<Rightarrow> ptr"
  ix_delete_by_item :: "'i \<Rightarrow> ptr \<Rightarrow> 'i"
  ix_delete_by_data :: "'i \<Rightarrow> 'd ref \<Rightarrow> 'i"

record linkedlist_iterator_internal_t =
  it_current :: ptr
  it_current_deleted :: bool
  it_current_position :: u64

subsection \<open>Access to items\<close>

definition deref :: "'d items \<Rightarrow> ptr \<Rightarrow> 'd list_item option" where
  "deref h p = (case p of NULL \<Rightarrow> None | Ref a \<Rightarrow> h a)"

definition update_item :: "'d items \<Rightarrow> ptr \<Rightarrow> ('d list_item \<Rightarrow> 'd list_item) \<Rightarrow> 'd items option" where
  "update_item h p f =
     (case p of NULL \<Rightarrow> None
      | Ref a \<Rightarrow> (case h a of None \<Rightarrow> None | Some it \<Rightarrow> Some (h(a \<mapsto> f it))))"

definition set_next :: "'d items \<Rightarrow> ptr \<Rightarrow> ptr \<Rightarrow> 'd items option" where
  "set_next h p q = update_item h p (\<lambda>it. it\<lparr>li_next := q\<rparr>)"

definition set_previous :: "'d items \<Rightarrow> ptr \<Rightarrow> ptr \<Rightarrow> 'd items option" where
  "set_previous h p q = update_item h p (\<lambda>it. it\<lparr>li_previous := q\<rparr>)"

definition free_item :: "'d items \<Rightarrow> ptr \<Rightarrow> 'd items" where
  "free_item h p = (case p of NULL \<Rightarrow> h | Ref a \<Rightarrow> h(a := None))"

subsection \<open>Creation and destruction\<close>

definition linkedlist_create_with_type ::
  "'d comparator \<Rightarrow> u32 \<Rightarrow> 'd comparator option \<Rightarrow> 'i \<Rightarrow> ('d, 'i) list_t" where
  "linkedlist_create_with_type list_default_data_comparator ty comparator indexer =
     \<lparr>l_items = Map.empty, l_type = ty, l_locked = False,
      l_comparator = (case comparator of None \<Rightarrow> list_default_data_comparator | Some c \<Rightarrow> c),
      l_equality_comparator = None, l_item_count = 0, l_indexer = indexer,
      l_head = NULL, l_tail = NULL, l_middle = NULL, l_middle_position = 0, l_balance = 0\<rparr>"

text \<open>
  Destruction walks the items. The result is the items still on the heap and the payloads
  handed to the destroyer (or freed), in order.
\<close>

partial_function (option) linkedlist_destroy_loop ::
  "'d items \<Rightarrow> list_destroy_type_t \<Rightarrow> ptr \<Rightarrow> 'd ref list \<Rightarrow> ('d items \<times> 'd ref list) option" where
  "linkedlist_destroy_loop h ty item destroyed =
     (if item = NULL then Some (h, destroyed)
      else do {
        it \<leftarrow> deref h item;
        linkedlist_destroy_loop (free_item h item) ty (li_next it)
          (if ty = LIST_DESTROY_WITH_DATA then destroyed @ [li_data it] else destroyed)
      })"

definition linkedlist_destroy_with_type ::
  "('d, 'i) list_t \<Rightarrow> list_destroy_type_t \<Rightarrow> ('d items \<times> 'd ref list) option" where
  "linkedlist_destroy_with_type l ty = linkedlist_destroy_loop (l_items l) ty (l_head l) []"

subsection \<open>The middle pointer\<close>

text \<open>
  The block repeated after every insertion and deletion: a balance of -2 moves the middle
  one item towards the head, a balance of 2 one towards the tail.
\<close>

definition rebalance :: "('d, 'i) list_t \<Rightarrow> ('d, 'i) list_t option" where
  "rebalance l =
     (if l_balance l = - 2 then do {
        m \<leftarrow> deref (l_items l) (l_middle l);
        Some (l\<lparr>l_middle := li_previous m, l_balance := 0,
                l_middle_position := l_middle_position l - 1\<rparr>)
      } else if l_balance l = 2 then do {
        m \<leftarrow> deref (l_items l) (l_middle l);
        Some (l\<lparr>l_middle := li_next m, l_balance := 0,
                l_middle_position := l_middle_position l + 1\<rparr>)
      } else Some l)"

subsection \<open>Binary narrowing in a sorted list\<close>

fun walk_both :: "'d items \<Rightarrow> nat \<Rightarrow> ptr \<Rightarrow> ptr \<Rightarrow> (ptr \<times> ptr) option" where
  "walk_both items 0 h t = Some (h, t)"
| "walk_both items (Suc n) h t = do {
     hi \<leftarrow> deref items h;
     ti \<leftarrow> deref items t;
     walk_both items n (li_next hi) (li_previous ti)
   }"

text \<open>
  The narrowing loop on the segment from \<open>h\<close> to \<open>t\<close> of \<open>s\<close> items. The result is the item
  it stopped at, the tail of the segment, the position reached and the comparison result.
\<close>

partial_function (option) narrow_loop ::
  "'d items \<Rightarrow> 'd comparator \<Rightarrow> 'd ref \<Rightarrow> ptr \<Rightarrow> ptr \<Rightarrow> u64 \<Rightarrow> u64 \<Rightarrow> (ptr \<times> ptr \<times> u64 \<times> int) option"
  where
  "narrow_loop items cmp data h t s t_pos =
     (if h \<noteq> t \<and> s \<noteq> 0 then do {
        hi \<leftarrow> deref items h;
        (if cmp data (li_data hi) = 0 then Some (h, t, t_pos, 0)
         else do {
           ti \<leftarrow> deref items t;
           (if cmp data (li_data ti) = 0 then Some (t, t, t_pos + (s - 1), 0)
            else if s = 2 then Some (h, t, t_pos, - 1)
            else if s = 3 then
              (if cmp data (li_data hi) = 1 then Some (li_next hi, t, t_pos + 1, - 1)
               else Some (h, t, t_pos, - 1))
            else do {
              ht \<leftarrow> walk_both items (unat (drop_bit 2 s)) h t;
              hi' \<leftarrow> deref items (fst ht);
              (if cmp data (li_data hi') \<le> 0 then
                 narrow_loop items cmp data h (fst ht) (drop_bit 2 s + 1) t_pos
               else do {
                 ti' \<leftarrow> deref items (snd ht);
                 (if cmp data (li_data ti') \<ge> 0 then
                    narrow_loop items cmp data (snd ht) t (drop_bit 2 s + 1)
                      (t_pos + (s - (drop_bit 2 s + 1)))
                  else
                    narrow_loop items cmp data (fst ht) (snd ht) (s - 2 * drop_bit 2 s)
                      (t_pos + drop_bit 2 s))
               })
            })
         })
      } else Some (h, t, t_pos, - 1))"

text \<open>The walk towards equal items on the left; the flag says whether the code returned there.\<close>

partial_function (option) narrow_left ::
  "'d items \<Rightarrow> 'd comparator \<Rightarrow> 'd ref \<Rightarrow> ptr \<Rightarrow> u64 \<Rightarrow> (ptr \<times> u64 \<times> bool) option" where
  "narrow_left items cmp data h t_pos = do {
     hi \<leftarrow> deref items h;
     (if li_previous hi = NULL then Some (h, t_pos, False)
      else do {
        pi \<leftarrow> deref items (li_previous hi);
        (if cmp data (li_data pi) = 0 then narrow_left items cmp data (li_previous hi) (t_pos - 1)
         else Some (h, t_pos, True))
      })
   }"

text \<open>The walk to the right past smaller items; the flag says whether it ran off the tail.\<close>

partial_function (option) narrow_right ::
  "'d items \<Rightarrow> 'd comparator \<Rightarrow> 'd ref \<Rightarrow> ptr \<Rightarrow> u64 \<Rightarrow> int \<Rightarrow> (ptr \<times> u64 \<times> int \<times> bool) option" where
  "narrow_right items cmp data h t_pos c_res =
     (if c_res = 1 then do {
        hi \<leftarrow> deref items h;
        (if li_next hi = NULL then Some (h, t_pos, 1, True)
         else do {
           ni \<leftarrow> deref items (li_next hi);
           narrow_right items cmp data (li_next hi) (t_pos + 1) (cmp data (li_data ni))
         })
      } else Some (h, t_pos, c_res, False))"

text \<open>
  \<open>position\<close> is the out parameter \<^verbatim>\<open>size_t* position\<close>, which may be null. The result is
  the return value, the new \<^verbatim>\<open>*head\<close> and \<^verbatim>\<open>*tail\<close>, and the new \<open>position\<close>.
\<close>

definition set_position :: "u64 ref \<Rightarrow> u64 \<Rightarrow> u64 ref" where
  "set_position position v = (if position = NULL then NULL else Ref v)"

definition linkedlist_narrow ::
  "('d, 'i) list_t \<Rightarrow> u64 \<Rightarrow> 'd ref \<Rightarrow> ptr \<Rightarrow> ptr \<Rightarrow> u64 ref \<Rightarrow> (int \<times> ptr \<times> ptr \<times> u64 ref) option" where
  "linkedlist_narrow l s data h t position =
     (let items = l_items l; cmp = l_comparator l in
      if h = NULL \<or> t = NULL then Some (- 1, h, t, position)
      else if h = t then do {
        hi \<leftarrow> deref items h;
        Some (cmp data (li_data hi), h, t, position)
      } else do {
        r \<leftarrow> narrow_loop items cmp data h t s (case position of NULL \<Rightarrow> 0 | Ref p \<Rightarrow> p);
        (let (h1, t1, pos1, c1) = r in do {
          lft \<leftarrow> (if c1 = 0 then narrow_left items cmp data h1 pos1 else Some (h1, pos1, False));
          (let (h2, pos2, ret2) = lft in
           if ret2 then Some (0, h2, t1, set_position position pos2)
           else do {
             h2i \<leftarrow> deref items h2;
             (let c2 = cmp data (li_data h2i) in
              if c2 = - 1 then Some (- 1, h2, t1, set_position position pos2)
              else do {
                lft3 \<leftarrow> (if c2 = 0 then narrow_left items cmp data h2 pos2
                        else Some (h2, pos2, False));
                (let (h3, pos3, ret3) = lft3 in
                 if ret3 then Some (0, h3, t1, set_position position pos3)
                 else do {
                   rgt \<leftarrow> narrow_right items cmp data h3 pos3 c2;
                   (let (h4, pos4, c4, off) = rgt in
                    if off then Some (1, h4, t1, position)
                    else Some (c4, h4, t1, set_position position pos4))
                 })
              })
           })
        })
      })"

subsection \<open>Insertion\<close>

text \<open>Each branch of \<^verbatim>\<open>linkedlist_insert_at\<close>; \<open>item\<close> is the new item, already on the heap.\<close>

definition insert_at_head :: "('d, 'i) list_t \<Rightarrow> ptr \<Rightarrow> (('d, 'i) list_t \<times> u64) option" where
  "insert_at_head l item = do {
     h1 \<leftarrow> set_next (l_items l) item (l_head l);
     h2 \<leftarrow> set_previous h1 (l_head l) item;
     l' \<leftarrow> rebalance (l\<lparr>l_items := h2, l_head := item, l_balance := l_balance l - 1,
                         l_middle_position := l_middle_position l + 1\<rparr>);
     Some (l', 0)
   }"

definition insert_at_tail :: "('d, 'i) list_t \<Rightarrow> ptr \<Rightarrow> (('d, 'i) list_t \<times> u64) option" where
  "insert_at_tail l item = do {
     h1 \<leftarrow> set_previous (l_items l) item (l_tail l);
     h2 \<leftarrow> set_next h1 (l_tail l) item;
     l' \<leftarrow> rebalance (l\<lparr>l_items := h2, l_tail := item, l_balance := l_balance l + 1\<rparr>);
     Some (l', l_item_count l)
   }"

text \<open>Links \<open>item\<close> before \<open>cur\<close> in the order in which the sorted branch writes.\<close>

definition link_before_sorted :: "('d, 'i) list_t \<Rightarrow> ptr \<Rightarrow> ptr \<Rightarrow> ('d, 'i) list_t option" where
  "link_before_sorted l item cur = do {
     ci \<leftarrow> deref (l_items l) cur;
     l1 \<leftarrow> (if li_previous ci \<noteq> NULL then do {
              h1 \<leftarrow> set_next (l_items l) (li_previous ci) item;
              Some (l\<lparr>l_items := h1\<rparr>)
            } else Some (l\<lparr>l_head := item\<rparr>));
     h2 \<leftarrow> set_next (l_items l1) item cur;
     h3 \<leftarrow> set_previous h2 item (li_previous ci);
     h4 \<leftarrow> set_previous h3 cur item;
     Some (l1\<lparr>l_items := h4\<rparr>)
   }"

text \<open>Links \<open>item\<close> before the item \<open>cur\<close> narrowing found, or at the end of the list.\<close>

definition place_sorted ::
  "('d, 'i) list_t \<Rightarrow> ptr \<Rightarrow> ptr \<Rightarrow> int \<Rightarrow> u64 ref \<Rightarrow> (('d, 'i) list_t \<times> u64) option" where
  "place_sorted l item cur c_res result = do {
     ci \<leftarrow> deref (l_items l) cur;
     (if c_res = 1 \<and> li_next ci = NULL then do {
        h1 \<leftarrow> set_next (l_items l) (l_tail l) item;
        h2 \<leftarrow> set_previous h1 item (l_tail l);
        Some (l\<lparr>l_items := h2, l_tail := item\<rparr>, l_item_count l)
      } else do {
        l1 \<leftarrow> link_before_sorted l item cur;
        Some (l1, ref_of result)
      })
   }"

definition insert_at_sorted ::
  "('d, 'i) list_t \<Rightarrow> ptr \<Rightarrow> 'd ref \<Rightarrow> (('d, 'i) list_t \<times> u64) option" where
  "insert_at_sorted l item data = do {
     m \<leftarrow> deref (l_items l) (l_middle l);
     (let before_middle = (l_comparator l data (li_data m) \<le> 0) in do {
       r \<leftarrow> (if before_middle
            then linkedlist_narrow l (l_middle_position l + 1) data (l_head l) (l_middle l) (Ref 0)
            else linkedlist_narrow l (l_item_count l - l_middle_position l) data (l_middle l)
                   (l_tail l) (Ref (l_middle_position l)));
       (let (c_res, cur, _, result) = r in do {
         lr \<leftarrow> place_sorted l item cur c_res result;
         (let (l1, result) = lr in do {
           l' \<leftarrow> rebalance (if before_middle
                           then l1\<lparr>l_middle_position := l_middle_position l1 + 1,
                                   l_balance := l_balance l1 - 1\<rparr>
                           else l1\<lparr>l_balance := l_balance l1 + 1\<rparr>);
           Some (l', result)
         })
       })
     })
   }"

definition insert_at_indexed ::
  "('d, 'i) indexer_ops \<Rightarrow> ('d, 'i) list_t \<Rightarrow> ptr \<Rightarrow> 'd ref \<Rightarrow> (('d, 'i) list_t \<times> u64) option" where
  "insert_at_indexed ix l item data = do {
     h1 \<leftarrow> set_next (l_items l) item (l_head l);
     h2 \<leftarrow> set_previous h1 (l_head l) item;
     Some (l\<lparr>l_items := h2, l_head := item, l_indexer := ix_index ix (l_indexer l) data item\<rparr>, 0)
   }"

text \<open>The search loop of the positional branches.\<close>

function find_position :: "'d items \<Rightarrow> ptr \<Rightarrow> u64 \<Rightarrow> u64 \<Rightarrow> (ptr \<times> u64) option" where
  "find_position items cur index position =
     (if index < position then do {
        ci \<leftarrow> deref items cur;
        (if li_next ci = NULL then Some (NULL, index)
         else find_position items (li_next ci) (index + 1) position)
      } else Some (cur, index))"
  by pat_completeness auto
termination
proof (relation "measure (\<lambda>(items, cur, index, position). unat position - unat index)", goal_cases)
  case (2 items cur index position ci)
  then have less: "unat index < unat position"
    by (simp add: word_less_nat_alt)
  moreover have "unat position < 2 ^ 64"
    by simp
  ultimately have "unat (index + 1) = unat index + 1"
    by (intro unat_add_one) linarith
  with less show ?case by simp
qed simp

declare find_position.simps [simp del]

text \<open>Links \<open>item\<close> before \<open>cur\<close> in the order in which the positional branch writes.\<close>

definition link_before :: "('d, 'i) list_t \<Rightarrow> ptr \<Rightarrow> ptr \<Rightarrow> ('d, 'i) list_t option" where
  "link_before l item cur = do {
     ci \<leftarrow> deref (l_items l) cur;
     h1 \<leftarrow> set_previous (l_items l) cur item;
     h2 \<leftarrow> set_next h1 item cur;
     h3 \<leftarrow> set_previous h2 item (li_previous ci);
     (if li_previous ci \<noteq> NULL then do {
        h4 \<leftarrow> set_next h3 (li_previous ci) item;
        Some (l\<lparr>l_items := h4\<rparr>)
      } else Some (l\<lparr>l_items := h3, l_head := item\<rparr>))
   }"

definition insert_at_position ::
  "('d, 'i) list_t \<Rightarrow> ptr \<Rightarrow> u64 \<Rightarrow> (('d, 'i) list_t \<times> u64) option" where
  "insert_at_position l item position = do {
     ci \<leftarrow> find_position (l_items l) (l_head l) 0 position;
     (let (cur, index) = ci in do {
       l1 \<leftarrow> (if cur = NULL then do {
                h1 \<leftarrow> set_previous (l_items l) item (l_tail l);
                h2 \<leftarrow> set_next h1 (l_tail l) item;
                Some (l\<lparr>l_items := h2, l_tail := item\<rparr>, l_item_count l)
              } else do {
                l1 \<leftarrow> link_before l item cur;
                Some (l1, index)
              });
       (let (l2, result) = l1 in do {
         l' \<leftarrow> rebalance (if result > l_middle_position l2 then l2\<lparr>l_balance := l_balance l2 + 1\<rparr>
                         else l2\<lparr>l_middle_position := l_middle_position l2 + 1,
                                 l_balance := l_balance l2 - 1\<rparr>);
         Some (l', result)
       })
     })
   }"

text \<open>
  \<open>item\<close> is what \<^verbatim>\<open>memory_malloc_ext\<close> returned. The result pairs the list with the
  returned position; -1 stands for \<^verbatim>\<open>-1ULL\<close>.
\<close>

definition linkedlist_insert_at ::
  "('d, 'i) indexer_ops \<Rightarrow> ptr \<Rightarrow> ('d, 'i) list_t \<Rightarrow> 'd ref \<Rightarrow> list_insert_delete_at_t \<Rightarrow> u64 \<Rightarrow>
   (('d, 'i) list_t \<times> u64) option" where
  "linkedlist_insert_at ix item l data where position =
     (case item of
        NULL \<Rightarrow> Some (l\<lparr>l_locked := False\<rparr>, - 1)
      | Ref a \<Rightarrow>
          (let l0 = l\<lparr>l_locked := True,
                      l_items := (l_items l)(a \<mapsto> \<lparr>li_data = data, li_next = NULL, li_previous = NULL\<rparr>)\<rparr>
           in
           if l_head l = NULL then
             Some (l0\<lparr>l_head := item, l_tail := item, l_middle := item, l_balance := 0,
                      l_item_count := l_item_count l + 1, l_locked := False\<rparr>, 0)
           else
             (let finish = (\<lambda>r. do {
                lr \<leftarrow> r;
                Some ((fst lr)\<lparr>l_item_count := l_item_count (fst lr) + 1, l_locked := False\<rparr>, snd lr)
              }) in
              case where of
                LIST_INSERT_AT_HEAD \<Rightarrow> finish (insert_at_head l0 item)
              | LIST_INSERT_AT_TAIL \<Rightarrow> finish (insert_at_tail l0 item)
              | LIST_INSERT_AT_SORTED \<Rightarrow> finish (insert_at_sorted l0 item data)
              | LIST_INSERT_AT_INDEXED \<Rightarrow> finish (insert_at_indexed ix l0 item data)
              | LIST_INSERT_AT_POSITION \<Rightarrow> finish (insert_at_position l0 item position)
              | _ \<Rightarrow> Some (l0\<lparr>l_items := free_item (l_items l0) item, l_locked := False\<rparr>, - 1))))"

subsection \<open>Iterators\<close>

text \<open>
  An iterator is a value beside its list; \<open>ok\<close> says whether its two allocations succeed.
  The iterator holds the list's lock from its creation to its destruction.
\<close>

definition linkedlist_iterator_create ::
  "bool \<Rightarrow> ('d, 'i) list_t \<Rightarrow> ('d, 'i) list_t \<times> linkedlist_iterator_internal_t ref" where
  "linkedlist_iterator_create ok l =
     (if ok then
        (l\<lparr>l_locked := True\<rparr>,
         Ref \<lparr>it_current = l_head l, it_current_deleted = False, it_current_position = 0\<rparr>)
      else (l\<lparr>l_locked := False\<rparr>, NULL))"

definition linkedlist_iterator_destroy :: "('d, 'i) list_t \<Rightarrow> ('d, 'i) list_t" where
  "linkedlist_iterator_destroy l = l\<lparr>l_locked := False\<rparr>"

definition linkedlist_iterator_next ::
  "('d, 'i) list_t \<Rightarrow> linkedlist_iterator_internal_t \<Rightarrow> linkedlist_iterator_internal_t option" where
  "linkedlist_iterator_next l it =
     (if it_current it \<noteq> NULL then
        (if it_current_deleted it then Some (it\<lparr>it_current_deleted := False\<rparr>)
         else do {
           c \<leftarrow> deref (l_items l) (it_current it);
           Some (it\<lparr>it_current := li_next c, it_current_position := it_current_position it + 1\<rparr>)
         })
      else Some it)"

definition linkedlist_iterator_end_of_list :: "linkedlist_iterator_internal_t \<Rightarrow> int" where
  "linkedlist_iterator_end_of_list it = (if it_current it = NULL then 0 else 1)"

definition linkedlist_iterator_get_item ::
  "('d, 'i) list_t \<Rightarrow> linkedlist_iterator_internal_t \<Rightarrow> 'd ref option" where
  "linkedlist_iterator_get_item l it = do {
     c \<leftarrow> deref (l_items l) (it_current it);
     Some (li_data c)
   }"

text \<open>Taking an item out of the chain, as the iterator and the positional deletion write it.\<close>

definition unlink_item :: "('d, 'i) list_t \<Rightarrow> ptr \<Rightarrow> ptr \<Rightarrow> ('d, 'i) list_t option" where
  "unlink_item l prv nxt = do {
     l1 \<leftarrow> (if prv = NULL then do {
              h1 \<leftarrow> (if nxt \<noteq> NULL then set_previous (l_items l) nxt NULL else Some (l_items l));
              Some (l\<lparr>l_head := nxt, l_items := h1\<rparr>)
            } else do {
              h1 \<leftarrow> set_next (l_items l) prv nxt;
              Some (l\<lparr>l_items := h1\<rparr>)
            });
     (if nxt = NULL then do {
        h2 \<leftarrow> (if prv \<noteq> NULL then set_next (l_items l1) prv NULL else Some (l_items l1));
        Some (l1\<lparr>l_tail := prv, l_items := h2\<rparr>)
      } else do {
        h2 \<leftarrow> set_previous (l_items l1) nxt prv;
        Some (l1\<lparr>l_items := h2\<rparr>)
      })
   }"

text \<open>How the middle moves when the iterator's item, between \<open>prv\<close> and \<open>nxt\<close>, is unlinked.\<close>

definition iterator_move_middle ::
  "('d, 'i) list_t \<Rightarrow> u64 \<Rightarrow> ptr \<Rightarrow> ptr \<Rightarrow> ('d, 'i) list_t" where
  "iterator_move_middle l current_position prv nxt =
     (if l_middle_position l = current_position then
        (if prv \<noteq> NULL then
           l\<lparr>l_middle := prv, l_middle_position := l_middle_position l - 1,
             l_balance := l_balance l + 1\<rparr>
         else l\<lparr>l_middle := nxt, l_balance := l_balance l - 1\<rparr>)
      else if current_position > l_middle_position l then
        l\<lparr>l_balance := l_balance l - 1\<rparr>
      else
        l\<lparr>l_balance := l_balance l + 1, l_middle_position := l_middle_position l - 1\<rparr>)"

definition linkedlist_iterator_delete_item ::
  "('d, 'i) indexer_ops \<Rightarrow> ('d, 'i) list_t \<Rightarrow> linkedlist_iterator_internal_t \<Rightarrow>
   (('d, 'i) list_t \<times> linkedlist_iterator_internal_t \<times> 'd ref) option" where
  "linkedlist_iterator_delete_item ix l it =
     (if it_current it = NULL then Some (l, it, NULL)
      else do {
        c \<leftarrow> deref (l_items l) (it_current it);
        l1 \<leftarrow> unlink_item l (li_previous c) (li_next c);
        l2 \<leftarrow> rebalance
               (iterator_move_middle l1 (it_current_position it) (li_previous c) (li_next c));
        (let l3 = l2\<lparr>l_item_count := l_item_count l2 - 1,
                     l_items := free_item (l_items l2) (it_current it)\<rparr> in
         Some (if l_type l3 = LIST_TYPE_INDEXEDLIST
               then l3\<lparr>l_indexer := ix_delete_by_data ix (l_indexer l3) (li_data c)\<rparr> else l3,
               it\<lparr>it_current := li_next c, it_current_deleted := True\<rparr>,
               li_data c))
      })"

subsection \<open>Deletion\<close>

text \<open>The comparator of searches: the equality comparator when there is one.\<close>

definition list_cmp :: "('d, 'i) list_t \<Rightarrow> 'd comparator" where
  "list_cmp l = (case l_equality_comparator l of None \<Rightarrow> l_comparator l | Some c \<Rightarrow> c)"

definition delete_at_head :: "('d, 'i) list_t \<Rightarrow> (('d, 'i) list_t \<times> 'd ref) option" where
  "delete_at_head l = do {
     item \<leftarrow> deref (l_items l) (l_head l);
     l1 \<leftarrow> (if li_next item = NULL then
              Some (l\<lparr>l_head := li_next item, l_tail := NULL, l_middle := NULL\<rparr>)
            else do {
              h1 \<leftarrow> set_previous (l_items l) (li_next item) NULL;
              (if l_middle l = l_head l then do {
                 m \<leftarrow> deref h1 (l_middle l);
                 Some (l\<lparr>l_items := h1, l_head := li_next item, l_middle := li_next m,
                         l_balance := l_balance l - 1\<rparr>)
               } else Some (l\<lparr>l_items := h1, l_head := li_next item\<rparr>))
            });
     (let l2 = l1\<lparr>l_items := free_item (l_items l1) (l_head l),
                  l_item_count := l_item_count l1 - 1,
                  l_balance := l_balance l1 + 1,
                  l_middle_position := l_middle_position l1 - 1\<rparr> in do {
       l3 \<leftarrow> (if l_middle l2 \<noteq> NULL then rebalance l2
             else Some (l2\<lparr>l_balance := 0, l_middle_position := 0\<rparr>));
       Some (l3, li_data item)
     })
   }"

definition delete_at_tail :: "('d, 'i) list_t \<Rightarrow> (('d, 'i) list_t \<times> 'd ref) option" where
  "delete_at_tail l = do {
     item \<leftarrow> deref (l_items l) (l_tail l);
     l1 \<leftarrow> (if li_previous item = NULL then
              Some (l\<lparr>l_tail := li_previous item, l_head := NULL, l_middle := NULL\<rparr>)
            else do {
              h1 \<leftarrow> set_next (l_items l) (li_previous item) NULL;
              (if l_middle l = l_tail l then do {
                 m \<leftarrow> deref h1 (l_middle l);
                 Some (l\<lparr>l_items := h1, l_tail := li_previous item, l_middle := li_previous m,
                         l_balance := l_balance l + 1\<rparr>)
               } else Some (l\<lparr>l_items := h1, l_tail := li_previous item\<rparr>))
            });
     (let l2 = l1\<lparr>l_items := free_item (l_items l1) (l_tail l),
                  l_item_count := l_item_count l1 - 1,
                  l_balance := l_balance l1 - 1\<rparr> in do {
       l3 \<leftarrow> (if l_middle l2 \<noteq> NULL then rebalance l2
             else Some (l2\<lparr>l_balance := 0, l_middle_position := 0\<rparr>));
       Some (l3, li_data item)
     })
   }"

text \<open>
  Deletion by value. In an indexed list the item comes from the indexer; when the search
  finds nothing the code returns with the lock still held.
\<close>

definition delete_at_findby_indexed ::
  "('d, 'i) indexer_ops \<Rightarrow> ('d, 'i) list_t \<Rightarrow> 'd ref \<Rightarrow> (('d, 'i) list_t \<times> 'd ref) option" where
  "delete_at_findby_indexed ix l data =
     (let item = ix_search ix (l_indexer l) data in
      if item = NULL then Some (l, NULL)
      else do {
        c \<leftarrow> deref (l_items l) item;
        l1 \<leftarrow> unlink_item l (li_previous c) (li_next c);
        Some (l1\<lparr>l_indexer := ix_delete_by_item ix (l_indexer l1) item,
                 l_items := free_item (l_items l1) item,
                 l_item_count := l_item_count l1 - 1, l_locked := False\<rparr>, li_data c)
      })"

partial_function (option) findby_loop ::
  "('d, 'i) indexer_ops \<Rightarrow> 'd comparator \<Rightarrow> 'd ref \<Rightarrow> ('d, 'i) list_t \<Rightarrow> linkedlist_iterator_internal_t \<Rightarrow>
   (('d, 'i) list_t \<times> 'd ref) option" where
  "findby_loop ix cmp data l it =
     (if linkedlist_iterator_end_of_list it = 0 then Some (l, NULL)
      else do {
        item \<leftarrow> linkedlist_iterator_get_item l it;
        (if cmp item data = 0 then do {
           r \<leftarrow> linkedlist_iterator_delete_item ix l it;
           Some (fst r, snd (snd r))
         } else do {
           it' \<leftarrow> linkedlist_iterator_next l it;
           findby_loop ix cmp data l it'
         })
      })"

definition delete_at_findby ::
  "('d, 'i) indexer_ops \<Rightarrow> bool \<Rightarrow> ('d, 'i) list_t \<Rightarrow> 'd ref \<Rightarrow> (('d, 'i) list_t \<times> 'd ref) option" where
  "delete_at_findby ix ok l data =
     (case linkedlist_iterator_create ok l of
        (l1, NULL) \<Rightarrow> Some (l1\<lparr>l_locked := False\<rparr>, NULL)
      | (l1, Ref it) \<Rightarrow> do {
          r \<leftarrow> findby_loop ix (list_cmp l) data l1 it;
          Some ((linkedlist_iterator_destroy (fst r))\<lparr>l_locked := False\<rparr>, snd r)
        })"

text \<open>How the middle moves when the item at \<open>index\<close> is unlinked; \<open>prv\<close> is the item before it.\<close>

definition position_move_middle ::
  "('d, 'i) list_t \<Rightarrow> u64 \<Rightarrow> ptr \<Rightarrow> ('d, 'i) list_t option" where
  "position_move_middle l index prv =
     (if l_middle_position l = index then do {
        m \<leftarrow> deref (l_items l) (l_middle l);
        Some (if prv \<noteq> NULL
              then l\<lparr>l_middle := li_previous m, l_middle_position := l_middle_position l - 1,
                     l_balance := l_balance l + 1\<rparr>
              else l\<lparr>l_middle := li_next m, l_balance := l_balance l - 1\<rparr>)
      } else if index < l_middle_position l then
        Some (l\<lparr>l_balance := l_balance l + 1, l_middle_position := l_middle_position l - 1\<rparr>)
      else Some (l\<lparr>l_balance := l_balance l - 1\<rparr>))"

definition delete_at_position ::
  "('d, 'i) list_t \<Rightarrow> u64 \<Rightarrow> (('d, 'i) list_t \<times> 'd ref) option" where
  "delete_at_position l position = do {
     ci \<leftarrow> (if position \<ge> l_middle_position l
           then find_position (l_items l) (l_middle l) (l_middle_position l) position
           else find_position (l_items l) (l_head l) 0 position);
     (let (cur, index) = ci in
      if cur = NULL then Some (l, NULL)
      else do {
        c \<leftarrow> deref (l_items l) cur;
        l1 \<leftarrow> unlink_item l (li_previous c) (li_next c);
        l2 \<leftarrow> position_move_middle l1 index (li_previous c);
        l3 \<leftarrow> rebalance l2;
        Some (l3\<lparr>l_item_count := l_item_count l3 - 1,
                 l_items := free_item (l_items l3) cur\<rparr>, li_data c)
      })
   }"

text \<open>\<open>ok\<close> says whether the iterator of a deletion by value could be allocated.\<close>

definition linkedlist_delete_at ::
  "('d, 'i) indexer_ops \<Rightarrow> bool \<Rightarrow> ('d, 'i) list_t \<Rightarrow> 'd ref \<Rightarrow> list_insert_delete_at_t \<Rightarrow> u64 \<Rightarrow>
   (('d, 'i) list_t \<times> 'd ref) option" where
  "linkedlist_delete_at ix ok l data where position =
     (if data = NULL \<and> where = LIST_DELETE_AT_FINDBY then Some (l, NULL)
      else if position \<ge> l_item_count l then Some (l, NULL)
      else
        (let where' = (if position = 0 \<and> l_item_count l = 1 then LIST_DELETE_AT_HEAD else where) in
         if l_item_count l = 0 then Some (l, NULL)
         else if l_head l = NULL then Some (l, NULL)
         else
           (let l0 = l\<lparr>l_locked := True\<rparr>;
                release = (\<lambda>r. do {
                  lr \<leftarrow> r;
                  Some ((fst lr)\<lparr>l_locked := False\<rparr>, snd lr)
                }) in
            case where' of
              LIST_DELETE_AT_HEAD \<Rightarrow> release (delete_at_head l0)
            | LIST_DELETE_AT_TAIL \<Rightarrow> release (delete_at_tail l0)
            | LIST_DELETE_AT_FINDBY \<Rightarrow>
                (if l_type l = LIST_TYPE_INDEXEDLIST then delete_at_findby_indexed ix l0 data
                 else delete_at_findby ix ok l0 data)
            | LIST_DELETE_AT_POSITION \<Rightarrow> release (delete_at_position l0 position)
            | _ \<Rightarrow> release (Some (l0, NULL)))))"

subsection \<open>Lookup\<close>

partial_function (option) position_loop ::
  "'d items \<Rightarrow> 'd comparator \<Rightarrow> 'd ref \<Rightarrow> ptr \<Rightarrow> u64 ref \<Rightarrow> (int \<times> u64 ref) option" where
  "position_loop items cmp data item position =
     (if item = NULL then Some (- 1, position)
      else do {
        it \<leftarrow> deref items item;
        (if cmp data (li_data it) = 0 then Some (0, position)
         else position_loop items cmp data (li_next it)
                (case position of NULL \<Rightarrow> NULL | Ref p \<Rightarrow> Ref (p + 1)))
      })"

definition linkedlist_get_position ::
  "('d, 'i) list_t \<Rightarrow> 'd ref \<Rightarrow> u64 ref \<Rightarrow> (int \<times> u64 ref) option" where
  "linkedlist_get_position l data position0 =
     (let position = set_position position0 0 in
      if l_item_count l = 0 then Some (- 1, position)
      else if l_type l = LIST_TYPE_SORTEDLIST \<and> l_equality_comparator l = None then do {
        m \<leftarrow> deref (l_items l) (l_middle l);
        r \<leftarrow> (if l_comparator l data (li_data m) < 0
             then linkedlist_narrow l (l_middle_position l + 1) data (l_head l) (l_middle l) position
             else linkedlist_narrow l (l_item_count l - l_middle_position l) data (l_middle l)
                    (l_tail l) (set_position position (l_middle_position l)));
        (let (c_res, _, _, position') = r in Some (c_res, position'))
      } else
        (let cmp = list_cmp l in do {
          start \<leftarrow> (if l_middle l = NULL then Some (l_head l, position)
                   else if l_type l = LIST_TYPE_SORTEDLIST then do {
                     m \<leftarrow> deref (l_items l) (l_middle l);
                     Some (if cmp data (li_data m) = - 1 then (l_head l, position)
                           else (l_middle l, set_position position (l_middle_position l)))
                   } else Some (l_head l, position));
          position_loop (l_items l) cmp data (fst start) (snd start)
        }))"

text \<open>The two walks of \<^verbatim>\<open>linkedlist_get_data_at_position\<close>, which end at the list's end.\<close>

fun walk_left :: "'d items \<Rightarrow> ptr \<Rightarrow> nat \<Rightarrow> 'd ref option" where
  "walk_left items item rem =
     (if item = NULL then Some NULL
      else do {
        it \<leftarrow> deref items item;
        (case rem of 0 \<Rightarrow> Some (li_data it) | Suc r \<Rightarrow> walk_left items (li_previous it) r)
      })"

fun walk_right :: "'d items \<Rightarrow> ptr \<Rightarrow> nat \<Rightarrow> 'd ref option" where
  "walk_right items item rem =
     (if item = NULL then Some NULL
      else do {
        it \<leftarrow> deref items item;
        (case rem of 0 \<Rightarrow> Some (li_data it) | Suc r \<Rightarrow> walk_right items (li_next it) r)
      })"

declare walk_left.simps [simp del] walk_right.simps [simp del]

definition linkedlist_get_data_at_position :: "('d, 'i) list_t \<Rightarrow> u64 \<Rightarrow> 'd ref option" where
  "linkedlist_get_data_at_position l position =
     (if position \<ge> l_item_count l then Some NULL
      else
        (let (item, rem, to_left) =
           (if l_middle l \<noteq> NULL then
              (if position \<ge> l_middle_position l then
                 (let rem = position - l_middle_position l;
                      rev_position = l_item_count l - l_middle_position l - rem - 1 in
                  if rem > rev_position then (l_tail l, rev_position, True)
                  else (l_middle l, rem, False))
               else
                 (let rev_position = l_middle_position l - position in
                  if position > rev_position then (l_middle l, rev_position, True)
                  else (l_head l, position, False)))
            else if l_item_count l > position + 1 then
              (let rev_position = l_item_count l - position - 1 in
               if position > rev_position then (l_tail l, rev_position, True)
               else (l_head l, position, False))
            else (l_head l, position, False)) in
         if to_left then walk_left (l_items l) item (unat rem)
         else walk_right (l_items l) item (unat rem)))"

subsection \<open>Duplication\<close>

text \<open>
  \<open>news\<close> is what the successive allocations of items return; the new list starts zero
  filled, so that its lock is the null lock. An insertion whose allocation fails is skipped, as the code ignores the
  result of \<^verbatim>\<open>linkedlist_insert_at\<close>.
\<close>

partial_function (option) duplicate_loop ::
  "('d, 'i) indexer_ops \<Rightarrow> ('d, 'i) list_t \<Rightarrow> linkedlist_iterator_internal_t \<Rightarrow> ptr list \<Rightarrow> ('d, 'i) list_t \<Rightarrow>
   ('d, 'i) list_t option" where
  "duplicate_loop ix l it news new_list =
     (if linkedlist_iterator_end_of_list it = 0 then Some new_list
      else do {
        item \<leftarrow> linkedlist_iterator_get_item l it;
        r \<leftarrow> linkedlist_insert_at ix (case news of [] \<Rightarrow> NULL | p # _ \<Rightarrow> p) new_list item
               LIST_INSERT_AT_TAIL 0;
        it' \<leftarrow> linkedlist_iterator_next l it;
        duplicate_loop ix l it' (tl news) (fst r)
      })"

definition linkedlist_duplicate_list_with_heap ::
  "('d, 'i) indexer_ops \<Rightarrow> bool \<Rightarrow> bool \<Rightarrow> ptr list \<Rightarrow> ('d, 'i) list_t \<Rightarrow>
   (('d, 'i) list_t \<times> ('d, 'i) list_t ref) option" where
  "linkedlist_duplicate_list_with_heap ix list_ok iter_ok news l =
     (if \<not> list_ok then Some (l, NULL)
      else
        (case linkedlist_iterator_create iter_ok l of
           (l1, NULL) \<Rightarrow> Some (l1, NULL)
         | (l1, Ref it) \<Rightarrow> do {
             new_list \<leftarrow> duplicate_loop ix l1 it news
               \<lparr>l_items = Map.empty, l_type = l_type l, l_locked = False,
                l_comparator = l_comparator l, l_equality_comparator = None, l_item_count = 0,
                l_indexer = l_indexer l, l_head = NULL, l_tail = NULL, l_middle = NULL,
                l_middle_position = 0, l_balance = 0\<rparr>;
             Some (linkedlist_iterator_destroy l1, Ref new_list)
           }))"

declare linkedlist_destroy_loop.simps [code] narrow_loop.simps [code] narrow_left.simps [code]
  narrow_right.simps [code] findby_loop.simps [code] position_loop.simps [code]
  duplicate_loop.simps [code]

end
