(* ===== verification/LinkedList_Inv.thy ===== *)
theory LinkedList_Inv
  imports LinkedList
begin

text \<open>
  The representation of a linked list: a heap segment \<open>dseg\<close>, the invariant
  \<open>list_inv l xs e\<close> (the list \<open>l\<close> holds the items \<open>xs\<close>, address and payload of each, and
  its middle pointer is off by \<open>e\<close>), and the heap lemmas the operations share.
\<close>

subsection \<open>Segments of the heap\<close>

type_synonym 'd nodes = "(nat \<times> 'd ref) list"

primrec first :: "'d nodes \<Rightarrow> ptr \<Rightarrow> ptr" where
  "first [] n = n"
| "first (x # xs) n = Ref (fst x)"

primrec final :: "ptr \<Rightarrow> 'd nodes \<Rightarrow> ptr" where
  "final p [] = p"
| "final p (x # xs) = final (Ref (fst x)) xs"

primrec dseg :: "'d items \<Rightarrow> ptr \<Rightarrow> 'd nodes \<Rightarrow> ptr \<Rightarrow> bool" where
  "dseg h p [] n = True"
| "dseg h p (x # xs) n =
     (h (fst x) = Some \<lparr>li_data = snd x, li_next = first xs n, li_previous = p\<rparr> \<and>
      dseg h (Ref (fst x)) xs n)"

lemma first_append [simp]: "first (xs @ ys) n = first xs (first ys n)"
  by (cases xs) auto

lemma final_append [simp]: "final p (xs @ ys) = final (final p xs) ys"
  by (induction xs arbitrary: p) auto

lemma dseg_append [simp]:
  "dseg h p (xs @ ys) n \<longleftrightarrow> dseg h p xs (first ys n) \<and> dseg h (final p xs) ys n"
  by (induction xs arbitrary: p) auto

lemma dseg_frame [simp]:
  "a \<notin> fst ` set xs \<Longrightarrow> dseg (h(a := v)) p xs n \<longleftrightarrow> dseg h p xs n"
  by (induction xs arbitrary: p) auto

lemma first_neq_NULL: "xs \<noteq> [] \<Longrightarrow> first xs n = Ref (fst (hd xs))"
  by (cases xs) auto

lemma final_neq_NULL: "xs \<noteq> [] \<Longrightarrow> final p xs = Ref (fst (last xs))"
  by (cases xs rule: rev_cases) auto

lemma first_eq_NULL [simp]: "first xs NULL = NULL \<longleftrightarrow> xs = []"
  by (cases xs) auto

lemma final_eq_NULL [simp]: "final NULL xs = NULL \<longleftrightarrow> xs = []"
  by (cases xs rule: rev_cases) auto

lemma split_at: "i < length xs \<Longrightarrow> xs = take i xs @ xs ! i # drop (Suc i) xs"
  by (rule id_take_nth_drop)

lemma dseg_nth:
  assumes "dseg h p xs n" "i < length xs"
  shows "h (fst (xs ! i)) =
    Some \<lparr>li_data = snd (xs ! i), li_next = first (drop (Suc i) xs) n,
          li_previous = final p (take i xs)\<rparr>"
  using assms(1) by (subst (asm) split_at [OF assms(2)]) simp

lemma first_drop: "first (drop i xs) n = (if i < length xs then Ref (fst (xs ! i)) else n)"
  by (cases "drop i xs") (auto simp: hd_drop_conv_nth [symmetric])

lemma final_take:
  "i \<le> length xs \<Longrightarrow> final p (take i xs) = (if i = 0 then p else Ref (fst (xs ! (i - 1))))"
  by (cases i) (auto simp: take_Suc_conv_app_nth)

lemma dseg_next:
  "dseg h p xs n \<Longrightarrow> i < length xs \<Longrightarrow>
   deref h (Ref (fst (xs ! i))) =
     Some \<lparr>li_data = snd (xs ! i),
           li_next = (if Suc i < length xs then Ref (fst (xs ! Suc i)) else n),
           li_previous = (if i = 0 then p else Ref (fst (xs ! (i - 1))))\<rparr>"
  by (simp add: deref_def dseg_nth first_drop final_take)

subsection \<open>The invariant\<close>

definition chain_ok :: "'d items \<Rightarrow> ptr \<Rightarrow> ptr \<Rightarrow> 'd nodes \<Rightarrow> bool" where
  "chain_ok h hd_p tl_p xs \<longleftrightarrow>
     distinct (map fst xs) \<and> dseg h NULL xs NULL \<and> dom h = fst ` set xs \<and>
     hd_p = first xs NULL \<and> tl_p = final NULL xs"

text \<open>
  The middle pointer is at index \<open>k\<close>; the balance counts the items after it less the items
  before it, up to the offset \<open>e\<close> by which the recorded position is wrong.
\<close>

definition middle_at :: "ptr \<Rightarrow> u64 \<Rightarrow> u8 \<Rightarrow> 'd nodes \<Rightarrow> int \<Rightarrow> nat \<Rightarrow> bool" where
  "middle_at m mp bal xs e k \<longleftrightarrow>
     k < length xs \<and> m = Ref (fst (xs ! k)) \<and> mp = of_int (int k - e) \<and>
     bal = of_int (int (length xs) - 1 - 2 * int k + e)"

definition middle_ok :: "ptr \<Rightarrow> u64 \<Rightarrow> u8 \<Rightarrow> 'd nodes \<Rightarrow> int \<Rightarrow> bool" where
  "middle_ok m mp bal xs e \<longleftrightarrow>
     (if xs = [] then m = NULL \<and> mp = 0
      else \<bar>e\<bar> \<le> 1 \<and>
        (\<exists>k. middle_at m mp bal xs e k \<and> \<bar>int (length xs) - 1 - 2 * int k + e\<bar> \<le> 1))"

definition list_inv :: "('d, 'i) list_t \<Rightarrow> 'd nodes \<Rightarrow> int \<Rightarrow> bool" where
  "list_inv l xs e \<longleftrightarrow>
     chain_ok (l_items l) (l_head l) (l_tail l) xs \<and>
     middle_ok (l_middle l) (l_middle_position l) (l_balance l) xs e \<and>
     l_item_count l = of_nat (length xs) \<and> length xs < 2 ^ 64"

lemma middle_atI:
  assumes "k < length xs" "m = Ref (fst (xs ! k))"
    and "mp = of_int p" "p = int k - e"
    and "bal = of_int b" "b = int (length xs) - 1 - 2 * int k + e"
  shows "middle_at m mp bal xs e k"
  using assms by (simp add: middle_at_def)

lemma small_balance:
  assumes "\<bar>b\<bar> \<le> 2"
  shows "(of_int b :: u8) = - 2 \<longleftrightarrow> b = - 2" "(of_int b :: u8) = 2 \<longleftrightarrow> b = 2"
proof -
  from assms have "b \<in> {-2, -1, 0, 1, 2}" by auto
  then show "(of_int b :: u8) = - 2 \<longleftrightarrow> b = - 2" "(of_int b :: u8) = 2 \<longleftrightarrow> b = 2"
    by auto
qed

lemma rebalance_ok:
  assumes seg: "dseg (l_items l) NULL xs NULL"
    and mid: "middle_at (l_middle l) (l_middle_position l) (l_balance l) xs e k"
    and e: "\<bar>e\<bar> \<le> 1" and b: "\<bar>int (length xs) - 1 - 2 * int k + e\<bar> \<le> 2"
  shows "\<exists>m mp bal. rebalance l =
      Some (l\<lparr>l_middle := m, l_middle_position := mp, l_balance := bal\<rparr>) \<and>
    middle_ok m mp bal xs e"
proof -
  let ?b = "int (length xs) - 1 - 2 * int k + e"
  from mid have k: "k < length xs" and m: "l_middle l = Ref (fst (xs ! k))"
    and mp: "l_middle_position l = of_int (int k - e)" and bal: "l_balance l = of_int ?b"
    by (auto simp: middle_at_def)
  note item = dseg_next [OF seg k]
  consider (left) "?b = - 2" | (right) "?b = 2" | (stay) "\<bar>?b\<bar> \<le> 1"
    using b by linarith
  then show ?thesis
  proof cases
    case left
    with e k have pos: "0 < k" by linarith
    let ?m = "Ref (fst (xs ! (k - 1)))"
    have "middle_at ?m (l_middle_position l - 1) 0 xs e (k - 1)"
      using left k pos by (intro middle_atI [where p = "int k - e - 1" and b = 0]) (auto simp: mp)
    moreover have "l_balance l = - 2"
      unfolding bal left by simp
    ultimately show ?thesis
      using left e k pos
      by (intro exI [of _ ?m] exI [of _ "l_middle_position l - 1"] exI [of _ 0])
        (auto simp: rebalance_def m item middle_ok_def intro!: exI [of _ "k - 1"])
  next
    case right
    with e k have less: "Suc k < length xs" by linarith
    let ?m = "Ref (fst (xs ! Suc k))"
    have "middle_at ?m (l_middle_position l + 1) 0 xs e (Suc k)"
      using right less by (intro middle_atI [where p = "int k - e + 1" and b = 0]) (auto simp: mp)
    moreover have "l_balance l = 2"
      unfolding bal right by simp
    ultimately show ?thesis
      using right e k less
      by (intro exI [of _ ?m] exI [of _ "l_middle_position l + 1"] exI [of _ 0])
        (auto simp: rebalance_def m item middle_ok_def intro!: exI [of _ "Suc k"])
  next
    case stay
    with small_balance [of ?b] have "l_balance l \<noteq> - 2 \<and> l_balance l \<noteq> 2"
      unfolding bal by linarith
    then have "rebalance l = Some l"
      by (simp add: rebalance_def)
    with mid e stay k show ?thesis
      by (intro exI [of _ "l_middle l"] exI [of _ "l_middle_position l"] exI [of _ "l_balance l"])
        (auto simp: middle_ok_def)
  qed
qed

subsection \<open>How insertion and deletion move the middle\<close>

lemma middle_insert_before:
  assumes "middle_at m mp bal (us @ vs) e k" "length us \<le> k"
  shows "middle_at m (mp + 1) (bal - 1) (us @ x # vs) e (Suc k)"
  using assms by (auto simp: middle_at_def nth_append Suc_diff_le)

lemma middle_insert_after:
  assumes "middle_at m mp bal (us @ vs) e k" "k < length us"
  shows "middle_at m mp (bal + 1) (us @ x # vs) e k"
  using assms by (auto simp: middle_at_def nth_append)

lemma middle_delete_before:
  assumes "middle_at m mp bal (us @ x # vs) e k" "length us < k"
  shows "middle_at m (mp - 1) (bal + 1) (us @ vs) e (k - 1)"
  using assms by (auto simp: middle_at_def nth_append nth_Cons' of_nat_diff)

lemma middle_delete_after:
  assumes "middle_at m mp bal (us @ x # vs) e k" "k < length us"
  shows "middle_at m mp (bal - 1) (us @ vs) e k"
  using assms by (auto simp: middle_at_def nth_append)

lemma middle_delete_prev:
  assumes "middle_at m mp bal (us @ x # vs) e (length us)" "us \<noteq> []"
  shows "middle_at (final NULL us) (mp - 1) (bal + 1) (us @ vs) e (length us - 1)"
  using assms by (cases us rule: rev_cases) (auto simp: middle_at_def nth_append)

lemma middle_delete_next:
  assumes "middle_at m mp bal (x # vs) e 0" "vs \<noteq> []"
  shows "middle_at (first vs NULL) mp (bal - 1) vs e 0"
  using assms by (cases vs) (auto simp: middle_at_def)

text \<open>
  The two deletions that leave the recorded position wrong: the head when the middle is the
  head, the tail when the middle is the tail.
\<close>

lemma middle_drop_head:
  assumes "middle_at m mp bal (x # vs) e 0" "vs \<noteq> []"
  shows "middle_at (first vs NULL) (mp - 1) bal vs (e + 1) 0"
  using assms by (cases vs) (auto simp: middle_at_def)

lemma middle_drop_tail:
  assumes "middle_at m mp bal (us @ [x]) e (length us)" "us \<noteq> []"
  shows "middle_at (final NULL us) mp bal us (e - 1) (length us - 1)"
  using assms by (cases us rule: rev_cases) (auto simp: middle_at_def nth_append)

subsection \<open>Linking and unlinking\<close>

lemma set_next_simp [simp]:
  "h a = Some it \<Longrightarrow> set_next h (Ref a) q = Some (h(a \<mapsto> it\<lparr>li_next := q\<rparr>))"
  by (simp add: set_next_def update_item_def)

lemma set_previous_simp [simp]:
  "h a = Some it \<Longrightarrow> set_previous h (Ref a) q = Some (h(a \<mapsto> it\<lparr>li_previous := q\<rparr>))"
  by (simp add: set_previous_def update_item_def)

lemma deref_Ref [simp]: "deref h (Ref a) = h a"
  by (simp add: deref_def)

lemma free_item_Ref [simp]: "free_item h (Ref a) = h(a := None)"
  by (simp add: free_item_def)

text \<open>The fields no insertion or deletion changes, and those linking does not change.\<close>

definition same_config :: "('d, 'i) list_t \<Rightarrow> ('d, 'i) list_t \<Rightarrow> bool" where
  "same_config l l' \<longleftrightarrow>
     l_type l' = l_type l \<and> l_comparator l' = l_comparator l \<and>
     l_equality_comparator l' = l_equality_comparator l \<and> l_indexer l' = l_indexer l"

definition same_middle :: "('d, 'i) list_t \<Rightarrow> ('d, 'i) list_t \<Rightarrow> bool" where
  "same_middle l l' \<longleftrightarrow>
     same_config l l' \<and> l_locked l' = l_locked l \<and> l_item_count l' = l_item_count l \<and>
     l_middle l' = l_middle l \<and> l_middle_position l' = l_middle_position l \<and>
     l_balance l' = l_balance l"

lemma chain_fresh:
  assumes "chain_ok h p q xs" "h a = None"
  shows "a \<notin> fst ` set xs"
proof -
  have "a \<notin> dom h" using assms(2) by (simp add: domIff)
  with assms(1) show ?thesis by (simp add: chain_ok_def)
qed

lemma link_before_ok:
  assumes ch: "chain_ok h0 (l_head l) (l_tail l) (us @ (b, c) # vs)" and fresh: "h0 a = None"
    and h: "l_items l = h0(a \<mapsto> \<lparr>li_data = d, li_next = NULL, li_previous = NULL\<rparr>)"
  shows "\<exists>l'. link_before l (Ref a) (Ref b) = Some l' \<and> same_middle l l' \<and>
    chain_ok (l_items l') (l_head l') (l_tail l') (us @ (a, d) # (b, c) # vs)"
    (is "\<exists>l'. ?A l'")
    and "link_before_sorted l (Ref a) (Ref b) = link_before l (Ref a) (Ref b)"
proof -
  note a = chain_fresh [OF ch fresh]
  note [simp] = h fresh link_before_def link_before_sorted_def same_middle_def same_config_def
  show "\<exists>l'. ?A l'"
    using ch a by (cases us rule: rev_cases) (auto simp: chain_ok_def image_Un)
  show "link_before_sorted l (Ref a) (Ref b) = link_before l (Ref a) (Ref b)"
    using ch a by (cases us rule: rev_cases) (auto simp: chain_ok_def image_Un fun_upd_twist)
qed

lemma link_after_tail:
  assumes ch: "chain_ok h0 (l_head l) (l_tail l) xs" and ne: "xs \<noteq> []" and fresh: "h0 a = None"
    and h: "h = h0(a \<mapsto> \<lparr>li_data = d, li_next = NULL, li_previous = NULL\<rparr>)"
  shows "\<exists>h1 h2 h3. set_previous h (Ref a) (l_tail l) = Some h1 \<and>
    set_next h1 (l_tail l) (Ref a) = Some h2 \<and>
    set_next h (l_tail l) (Ref a) = Some h3 \<and> set_previous h3 (Ref a) (l_tail l) = Some h2 \<and>
    chain_ok h2 (l_head l) (Ref a) (xs @ [(a, d)])"
  using assms chain_fresh [OF ch fresh]
  by (cases xs rule: rev_cases) (auto simp: chain_ok_def fun_upd_twist)

lemma link_before_head:
  assumes ch: "chain_ok h0 (l_head l) (l_tail l) xs" and ne: "xs \<noteq> []" and fresh: "h0 a = None"
    and h: "h = h0(a \<mapsto> \<lparr>li_data = d, li_next = NULL, li_previous = NULL\<rparr>)"
  shows "\<exists>h1 h2. set_next h (Ref a) (l_head l) = Some h1 \<and>
    set_previous h1 (l_head l) (Ref a) = Some h2 \<and>
    chain_ok h2 (Ref a) (l_tail l) ((a, d) # xs)"
  using assms chain_fresh [OF ch fresh]
  by (cases xs) (auto simp: chain_ok_def)

text \<open>Unlinking leaves the removed item on the heap, with its own pointers intact.\<close>

lemma unlink_item_ok:
  assumes "chain_ok (l_items l) (l_head l) (l_tail l) (us @ (a, d) # vs)"
  shows "\<exists>l'. unlink_item l (final NULL us) (first vs NULL) = Some l' \<and> same_middle l l' \<and>
    l_items l' a = l_items l a \<and>
    chain_ok ((l_items l')(a := None)) (l_head l') (l_tail l') (us @ vs)"
  using assms
  by (cases us rule: rev_cases; cases vs)
    (auto simp: unlink_item_def same_middle_def same_config_def chain_ok_def image_Un)

end
