(* ===== verification/LinkedList_Ops.thy ===== *)
theory LinkedList_Ops
  imports LinkedList_Inv
begin

text \<open>
  Functional correctness of the linked list's insertions, deletions, iterators, lookups,
  duplication and destruction against the list of payloads they represent.
\<close>

subsection \<open>Insertion at the two ends\<close>

definition fresh_in :: "('d, 'i) list_t \<Rightarrow> nat \<Rightarrow> bool" where
  "fresh_in l a \<longleftrightarrow> l_items l a = None"

definition op_ok :: "('d, 'i) list_t \<Rightarrow> ('d, 'i) list_t \<Rightarrow> 'd nodes \<Rightarrow> int \<Rightarrow> bool" where
  "op_ok l l' xs e \<longleftrightarrow> list_inv l' xs e \<and> same_config l l' \<and> \<not> l_locked l'"

definition offset_after_insert :: "'d nodes \<Rightarrow> int \<Rightarrow> int" where
  "offset_after_insert xs e = (if xs = [] then 0 else e)"

lemma list_invE:
  assumes "list_inv l xs e" "xs \<noteq> []"
  obtains k where "middle_at (l_middle l) (l_middle_position l) (l_balance l) xs e k"
    "\<bar>int (length xs) - 1 - 2 * int k + e\<bar> \<le> 1" "\<bar>e\<bar> \<le> 1"
    "chain_ok (l_items l) (l_head l) (l_tail l) xs"
    "l_item_count l = of_nat (length xs)" "length xs < 2 ^ 64"
  using assms by (auto simp: list_inv_def middle_ok_def)

lemma insert_into_empty:
  assumes "list_inv l [] e"
  shows "\<exists>l'. linkedlist_insert_at ix (Ref a) l d at pos = Some (l', 0) \<and> op_ok l l' [(a, d)] 0"
  using assms
  by (auto simp: linkedlist_insert_at_def list_inv_def chain_ok_def middle_ok_def middle_at_def
      op_ok_def same_config_def)

text \<open>
  Once the new item is linked at index \<open>length us\<close>, the counters move and the middle is
  rebalanced; \<open>l1\<close> is the list after linking.
\<close>

lemma rebalance_insert:
  assumes mid: "middle_at (l_middle l) (l_middle_position l) (l_balance l) (us @ vs) e k"
      "\<bar>int (length (us @ vs)) - 1 - 2 * int k + e\<bar> \<le> 1" "\<bar>e\<bar> \<le> 1"
    and count: "l_item_count l = of_nat (length (us @ vs))" "Suc (length (us @ vs)) < 2 ^ 64"
    and ch: "chain_ok (l_items l1) (l_head l1) (l_tail l1) (us @ x # vs)"
    and l1: "l_middle l1 = l_middle l" "same_config l l1" "l_item_count l1 = l_item_count l"
    and mv: "if length us \<le> k
      then l_middle_position l1 = l_middle_position l + 1 \<and> l_balance l1 = l_balance l - 1
      else l_middle_position l1 = l_middle_position l \<and> l_balance l1 = l_balance l + 1"
  shows "\<exists>l2. rebalance l1 = Some l2 \<and>
    op_ok l (l2\<lparr>l_item_count := l_item_count l2 + 1, l_locked := False\<rparr>) (us @ x # vs) e"
proof -
  let ?k = "if length us \<le> k then Suc k else k"
  have mid1: "middle_at (l_middle l1) (l_middle_position l1) (l_balance l1) (us @ x # vs) e ?k"
    using mid(1) l1(1) mv
    by (cases "length us \<le> k") (simp_all add: middle_insert_before middle_insert_after)
  have "\<bar>int (length (us @ x # vs)) - 1 - 2 * int ?k + e\<bar> \<le> 2"
    using mid(2) by auto
  with rebalance_ok [OF _ mid1 mid(3)] ch obtain m mp bal where
    "rebalance l1 = Some (l1\<lparr>l_middle := m, l_middle_position := mp, l_balance := bal\<rparr>)"
    "middle_ok m mp bal (us @ x # vs) e"
    unfolding chain_ok_def by blast
  with ch l1 count show ?thesis
    by (auto simp: op_ok_def list_inv_def same_config_def)
qed

lemma insert_at_head_ok:
  assumes inv: "list_inv l xs e" and fresh: "fresh_in l a" and len: "Suc (length xs) < 2 ^ 64"
  shows "\<exists>l'. linkedlist_insert_at ix (Ref a) l d LIST_INSERT_AT_HEAD pos = Some (l', 0) \<and>
    op_ok l l' ((a, d) # xs) (offset_after_insert xs e)"
proof (cases "xs = []")
  case True
  with inv show ?thesis by (simp add: insert_into_empty offset_after_insert_def)
next
  case False
  with inv obtain k where
    mid: "middle_at (l_middle l) (l_middle_position l) (l_balance l) ([] @ xs) e k"
      "\<bar>int (length ([] @ xs)) - 1 - 2 * int k + e\<bar> \<le> 1" "\<bar>e\<bar> \<le> 1"
    and ch: "chain_ok (l_items l) (l_head l) (l_tail l) xs"
    and count: "l_item_count l = of_nat (length ([] @ xs))"
    unfolding append_Nil by (rule list_invE)
  from link_before_head [OF ch False _ refl, of a d] fresh obtain h1 h2 where
    h: "set_next ((l_items l)(a \<mapsto> \<lparr>li_data = d, li_next = NULL, li_previous = NULL\<rparr>)) (Ref a)
          (l_head l) = Some h1"
      "set_previous h1 (l_head l) (Ref a) = Some h2"
      "chain_ok h2 (Ref a) (l_tail l) ((a, d) # xs)"
    by (auto simp: fresh_in_def)
  have "l_head l \<noteq> NULL"
    using ch False by (simp add: chain_ok_def)
  then show ?thesis
    using rebalance_insert [OF mid count, where x = "(a, d)" and
        ?l1.0 = "l\<lparr>l_locked := True, l_items := h2, l_head := Ref a,
          l_balance := l_balance l - 1, l_middle_position := l_middle_position l + 1\<rparr>"]
      False h len
    by (auto simp: linkedlist_insert_at_def insert_at_head_def same_config_def
        offset_after_insert_def)
qed

lemma insert_at_tail_ok:
  assumes inv: "list_inv l xs e" and fresh: "fresh_in l a" and len: "Suc (length xs) < 2 ^ 64"
  shows "\<exists>l'. linkedlist_insert_at ix (Ref a) l d LIST_INSERT_AT_TAIL pos =
      Some (l', of_nat (length xs)) \<and>
    op_ok l l' (xs @ [(a, d)]) (offset_after_insert xs e)"
proof (cases "xs = []")
  case True
  with inv show ?thesis by (simp add: insert_into_empty offset_after_insert_def)
next
  case False
  with inv obtain k where
    mid: "middle_at (l_middle l) (l_middle_position l) (l_balance l) (xs @ []) e k"
      "\<bar>int (length (xs @ [])) - 1 - 2 * int k + e\<bar> \<le> 1" "\<bar>e\<bar> \<le> 1"
    and ch: "chain_ok (l_items l) (l_head l) (l_tail l) xs"
    and count: "l_item_count l = of_nat (length (xs @ []))"
    unfolding append_Nil2 by (rule list_invE)
  from link_after_tail [OF ch False _ refl, of a d] fresh obtain h1 h2 where
    h: "set_previous ((l_items l)(a \<mapsto> \<lparr>li_data = d, li_next = NULL, li_previous = NULL\<rparr>)) (Ref a)
          (l_tail l) = Some h1"
      "set_next h1 (l_tail l) (Ref a) = Some h2"
      "chain_ok h2 (l_head l) (Ref a) (xs @ [(a, d)])"
    by (auto simp: fresh_in_def)
  have "l_head l \<noteq> NULL" "\<not> length xs \<le> k"
    using ch False mid by (simp_all add: chain_ok_def middle_at_def)
  then show ?thesis
    using rebalance_insert [OF mid count, where x = "(a, d)" and
        ?l1.0 = "l\<lparr>l_locked := True, l_items := h2, l_tail := Ref a,
          l_balance := l_balance l + 1\<rparr>"]
      False h len count
    by (auto simp: linkedlist_insert_at_def insert_at_tail_def same_config_def
        offset_after_insert_def)
qed

subsection \<open>Insertion at a position\<close>

lemma find_position_ok:
  assumes "dseg h NULL xs NULL" "i < length xs" "length xs < 2 ^ 64" "p < 2 ^ 64"
  shows "find_position h (Ref (fst (xs ! i))) (of_nat i) (of_nat p) =
    (if p \<le> i then Some (Ref (fst (xs ! i)), of_nat i)
     else if p < length xs then Some (Ref (fst (xs ! p)), of_nat p)
     else Some (NULL, of_nat (length xs - 1)))"
  using assms(2)
proof (induction "length xs - i" arbitrary: i)
  case 0
  then show ?case by simp
next
  case (Suc m)
  note item = dseg_next [OF assms(1) Suc.prems]
  have "m = length xs - Suc i" using Suc.hyps(2) by simp
  note IH = Suc.hyps(1) [OF this]
  have last: "length xs = Suc i" if "\<not> Suc i < length xs"
    using that Suc.prems by simp
  show ?case
    using IH Suc.prems assms(3,4) item
    by (subst find_position.simps) (auto simp: le_Suc_eq add.commute dest!: last)
qed

lemma insert_at_position_ok:
  assumes inv: "list_inv l xs 0" and fresh: "fresh_in l a" and len: "Suc (length xs) < 2 ^ 64"
  shows "\<exists>l'. linkedlist_insert_at ix (Ref a) l d LIST_INSERT_AT_POSITION pos =
      Some (l', of_nat (min (unat pos) (length xs))) \<and>
    op_ok l l' (take (unat pos) xs @ (a, d) # drop (unat pos) xs) 0"
proof (cases "xs = []")
  case True
  with inv show ?thesis by (simp add: insert_into_empty)
next
  case False
  define us vs where "us = take (unat pos) xs" and "vs = drop (unat pos) xs"
  have xs: "xs = us @ vs" by (simp add: us_def vs_def)
  from inv False obtain k where
    mid: "middle_at (l_middle l) (l_middle_position l) (l_balance l) (us @ vs) 0 k"
      "\<bar>int (length (us @ vs)) - 1 - 2 * int k + 0\<bar> \<le> 1" "\<bar>0\<bar> \<le> (1 :: int)"
    and ch: "chain_ok (l_items l) (l_head l) (l_tail l) (us @ vs)"
    and count: "l_item_count l = of_nat (length (us @ vs))"
    unfolding xs [symmetric] by (rule list_invE)
  note rb = rebalance_insert [OF mid count, where x = "(a, d)"]
  let ?h = "(l_items l)(a \<mapsto> \<lparr>li_data = d, li_next = NULL, li_previous = NULL\<rparr>)"
  have head: "l_head l = Ref (fst (xs ! 0))" "0 < length xs"
    using ch False unfolding xs [symmetric] by (simp_all add: chain_ok_def first_neq_NULL hd_conv_nth)
  have "dseg ?h NULL xs NULL"
    using ch chain_fresh [OF ch] fresh by (simp add: chain_ok_def fresh_in_def xs image_Un)
  then have find: "find_position ?h (l_head l) 0 pos =
      (if unat pos < length xs then Some (Ref (fst (xs ! unat pos)), pos)
       else Some (NULL, of_nat (length xs - 1)))"
    using find_position_ok [of ?h xs 0 "unat pos"] len head by (auto simp: word_le_nat_alt unsigned_eq_0_iff)
  have less: "of_nat n > l_middle_position l \<longleftrightarrow> k < n" if "n \<le> length xs" for n
    using mid(1) that len by (simp add: middle_at_def xs)
  show ?thesis
  proof (cases vs)
    case Nil
    then have us: "us = xs" and pos: "length xs \<le> unat pos" by (auto simp: us_def vs_def)
    from link_after_tail [OF ch [folded xs] False _ refl, of a d] fresh obtain h1 h2 where
      h: "set_previous ?h (Ref a) (l_tail l) = Some h1" "set_next h1 (l_tail l) (Ref a) = Some h2"
        "chain_ok h2 (l_head l) (Ref a) (xs @ [(a, d)])"
      by (auto simp: fresh_in_def)
    show ?thesis
      using rb [of "l\<lparr>l_locked := True, l_items := h2, l_tail := Ref a,
          l_balance := l_balance l + 1\<rparr>"] find pos h Nil us head less [of "length xs"] mid(1)
        len count
      by (auto simp: linkedlist_insert_at_def insert_at_position_def same_config_def middle_at_def)
  next
    case (Cons x vs')
    obtain b c where x: "x = (b, c)" by fastforce
    let ?l = "l\<lparr>l_locked := True, l_items := ?h\<rparr>"
    from Cons have pos: "unat pos < length xs"
      by (cases "unat pos < length xs") (auto simp: vs_def)
    then have us: "length us = unat pos" by (simp add: us_def)
    from Cons x have nth: "fst (xs ! unat pos) = b"
      by (simp add: vs_def nth_via_drop)
    from link_before_ok(1) [of "l_items l" ?l us b c vs' a d] ch fresh Cons x obtain l1 where
      l1: "link_before ?l (Ref a) (Ref b) = Some l1" "same_middle ?l l1"
        "chain_ok (l_items l1) (l_head l1) (l_tail l1) (us @ (a, d) # vs)"
      by (auto simp: fresh_in_def)
    define l2 where "l2 = (if pos > l_middle_position l1 then l1\<lparr>l_balance := l_balance l1 + 1\<rparr>
      else l1\<lparr>l_middle_position := l_middle_position l1 + 1, l_balance := l_balance l1 - 1\<rparr>)"
    have "\<exists>l3. rebalance l2 = Some l3 \<and>
        op_ok l (l3\<lparr>l_item_count := l_item_count l3 + 1, l_locked := False\<rparr>) (us @ (a, d) # vs) 0"
      using l1 us less [of "unat pos"] pos len
      by (intro rb) (auto simp: l2_def xs same_middle_def same_config_def)
    then show ?thesis
      using find pos nth l1(1) head
      by (auto simp: linkedlist_insert_at_def insert_at_position_def l2_def us_def vs_def)
  qed
qed

subsection \<open>Deletion at the two ends\<close>

lemma rebalance_delete:
  assumes mid: "middle_at (l_middle l1) (l_middle_position l1) (l_balance l1) xs' e k"
      "\<bar>int (length xs') - 1 - 2 * int k + e\<bar> \<le> 2" "\<bar>e\<bar> \<le> 1"
    and ch: "chain_ok (l_items l1) (l_head l1) (l_tail l1) xs'"
    and l1: "same_config l l1" "l_item_count l1 = of_nat (length xs')" "length xs' < 2 ^ 64"
  shows "\<exists>l2. rebalance l1 = Some l2 \<and> same_config l l2 \<and> list_inv l2 xs' e"
  using rebalance_ok [OF _ mid(1,3,2)] ch l1
  by (auto simp: same_config_def list_inv_def chain_ok_def)

lemma middle_index:
  assumes "chain_ok h p q xs" "middle_at m mp bal xs e k" "i < length xs"
  shows "m = Ref (fst (xs ! i)) \<longleftrightarrow> i = k"
proof -
  have "distinct (map fst xs)" "k < length xs" and m: "m = Ref (fst (xs ! k))"
    using assms by (auto simp: chain_ok_def middle_at_def)
  with assms(3) have "fst (xs ! k) = fst (xs ! i) \<longleftrightarrow> k = i"
    using nth_eq_iff_index_eq [of "map fst xs" k i] by simp
  with m show ?thesis by auto
qed

lemma delete_guards:
  assumes "list_inv l xs e" "p < length xs"
  shows "\<not> of_nat p \<ge> l_item_count l" "l_item_count l \<noteq> 0" "l_head l \<noteq> NULL"
    "of_nat p = (0 :: u64) \<and> l_item_count l = 1 \<longleftrightarrow> p = 0 \<and> length xs = 1"
proof -
  have n: "l_item_count l = of_nat (length xs)" "length xs < 2 ^ 64" "p < 2 ^ 64"
    using assms by (auto simp: list_inv_def)
  then show "\<not> of_nat p \<ge> l_item_count l" "l_item_count l \<noteq> 0"
    using assms(2) of_nat64_eq [of "length xs" 0] by (auto simp: not_le)
  show "l_head l \<noteq> NULL"
    using assms by (auto simp: list_inv_def chain_ok_def)
  show "of_nat p = (0 :: u64) \<and> l_item_count l = 1 \<longleftrightarrow> p = 0 \<and> length xs = 1"
    using n of_nat64_eq [of p 0] of_nat64_eq [of "length xs" 1] by auto
qed

lemma delete_at_head_ok:
  assumes inv: "list_inv l (x # vs) e"
  shows "\<exists>l'. delete_at_head l = Some (l', snd x) \<and> same_config l l' \<and>
    list_inv l' vs (if l_middle l = l_head l then e + 1 else e)"
proof -
  from inv obtain k where
    mid: "middle_at (l_middle l) (l_middle_position l) (l_balance l) (x # vs) e k"
      "\<bar>int (length (x # vs)) - 1 - 2 * int k + e\<bar> \<le> 1" "\<bar>e\<bar> \<le> 1"
    and ch: "chain_ok (l_items l) (l_head l) (l_tail l) (x # vs)"
    and count: "l_item_count l = of_nat (length (x # vs))" "length (x # vs) < 2 ^ 64"
    by (rule list_invE) simp
  note km = middle_index [OF ch mid(1), of 0]
  show ?thesis
  proof (cases vs)
    case Nil
    with ch count show ?thesis
      by (auto simp: delete_at_head_def chain_ok_def list_inv_def middle_ok_def same_config_def)
  next
    case (Cons y ws)
    let ?h = "((l_items l)(fst y \<mapsto> \<lparr>li_data = snd y, li_next = first ws NULL,
      li_previous = NULL\<rparr>))(fst x := None)"
    have h: "chain_ok ?h (Ref (fst y)) (l_tail l) vs"
      using ch Cons by (simp add: chain_ok_def insert_Diff_if)
    let ?e = "if k = 0 then e + 1 else e"
    let ?l1 = "l\<lparr>l_items := (l_items l)(fst y \<mapsto> \<lparr>li_data = snd y, li_next = first ws NULL,
        li_previous = NULL\<rparr>), l_head := Ref (fst y)\<rparr>"
    let ?l2 = "if k = 0 then ?l1\<lparr>l_middle := Ref (fst y), l_balance := l_balance l - 1\<rparr> else ?l1"
    let ?l3 = "?l2\<lparr>l_items := ?h, l_item_count := l_item_count l - 1,
      l_balance := l_balance ?l2 + 1, l_middle_position := l_middle_position l - 1\<rparr>"
    have "middle_at (l_middle ?l3) (l_middle_position ?l3) (l_balance ?l3) vs ?e (k - 1)"
      using mid(1) middle_drop_head [of _ _ _ x vs e] middle_delete_before [of _ _ _ "[]" x vs e k]
        Cons by auto
    moreover have "\<bar>int (length vs) - 1 - 2 * int (k - 1) + ?e\<bar> \<le> 2" "\<bar>?e\<bar> \<le> 1"
      using mid Cons by auto
    ultimately have "\<exists>l4. rebalance ?l3 = Some l4 \<and> same_config l l4 \<and> list_inv l4 vs ?e"
      using h count by (intro rebalance_delete) (simp_all add: same_config_def)
    moreover have "l_middle l \<noteq> NULL" using mid(1) by (simp add: middle_at_def)
    then have "delete_at_head l = rebalance ?l3 \<bind> (\<lambda>l3. Some (l3, snd x))"
      using ch Cons km
      by (cases "k = 0") (simp_all add: delete_at_head_def chain_ok_def)
    ultimately show ?thesis
      using km ch by (auto simp: chain_ok_def)
  qed
qed

lemma delete_at_tail_ok:
  assumes inv: "list_inv l (us @ [x]) e"
  shows "\<exists>l'. delete_at_tail l = Some (l', snd x) \<and> same_config l l' \<and>
    list_inv l' us (if l_middle l = l_tail l then e - 1 else e)"
proof -
  from inv obtain k where
    mid: "middle_at (l_middle l) (l_middle_position l) (l_balance l) (us @ [x]) e k"
      "\<bar>int (length (us @ [x])) - 1 - 2 * int k + e\<bar> \<le> 1" "\<bar>e\<bar> \<le> 1"
    and ch: "chain_ok (l_items l) (l_head l) (l_tail l) (us @ [x])"
    and count: "l_item_count l = of_nat (length (us @ [x]))" "length (us @ [x]) < 2 ^ 64"
    by (rule list_invE) simp
  note km = middle_index [OF ch mid(1), of "length us"]
  show ?thesis
  proof (cases us rule: rev_cases)
    case Nil
    with ch count show ?thesis
      by (auto simp: delete_at_tail_def chain_ok_def list_inv_def middle_ok_def same_config_def)
  next
    case (snoc ws y)
    let ?h1 = "(l_items l)(fst y \<mapsto> \<lparr>li_data = snd y, li_next = NULL,
      li_previous = final NULL ws\<rparr>)"
    have h: "chain_ok (?h1(fst x := None)) (l_head l) (Ref (fst y)) us"
      using ch snoc by (auto simp: chain_ok_def insert_Diff_if image_Un)
    let ?e = "if k = length us then e - 1 else e" and ?k = "if k = length us then k - 1 else k"
    let ?l1 = "l\<lparr>l_items := ?h1, l_tail := Ref (fst y)\<rparr>"
    let ?l2 = "if k = length us then ?l1\<lparr>l_middle := Ref (fst y), l_balance := l_balance l + 1\<rparr>
      else ?l1"
    let ?l3 = "?l2\<lparr>l_items := ?h1(fst x := None), l_item_count := l_item_count l - 1,
      l_balance := l_balance ?l2 - 1\<rparr>"
    have "middle_at (l_middle ?l3) (l_middle_position ?l3) (l_balance ?l3) us ?e ?k"
      using mid(1) middle_drop_tail [of _ _ _ us x e] middle_delete_after [of _ _ _ us x "[]" e k]
        snoc by (auto simp: middle_at_def)
    moreover have "\<bar>int (length us) - 1 - 2 * int ?k + ?e\<bar> \<le> 2" "\<bar>?e\<bar> \<le> 1"
      using mid snoc by (auto simp: middle_at_def)
    ultimately have "\<exists>l4. rebalance ?l3 = Some l4 \<and> same_config l l4 \<and> list_inv l4 us ?e"
      using h count by (intro rebalance_delete) (simp_all add: same_config_def)
    moreover have "l_middle l \<noteq> NULL" using mid(1) by (simp add: middle_at_def)
    then have "delete_at_tail l = rebalance ?l3 \<bind> (\<lambda>l3. Some (l3, snd x))"
      using ch snoc km
      by (cases "k = length us") (simp_all add: delete_at_tail_def chain_ok_def nth_append)
    ultimately show ?thesis
      using km ch by (auto simp: chain_ok_def nth_append)
  qed
qed

subsection \<open>Deletion inside the list\<close>

text \<open>
  The item \<open>(a, d)\<close> has been unlinked but is still on the heap; the middle is moved when it
  was that item, rebalanced, and the item is freed. Positions are exact here (offset 0).
\<close>

lemma rebalance_unlinked:
  assumes inv: "list_inv l (us @ (a, d) # vs) 0"
    and mid: "middle_at (l_middle l) (l_middle_position l) (l_balance l) (us @ (a, d) # vs) 0 k"
    and k: "\<bar>int (length (us @ (a, d) # vs)) - 1 - 2 * int k\<bar> \<le> 1"
    and ch: "chain_ok ((l_items l2)(a := None)) (l_head l2) (l_tail l2) (us @ vs)"
    and l2: "same_config l l2" "l_item_count l2 = l_item_count l"
      "l_middle l2 = (if k \<noteq> length us then l_middle l
         else if us \<noteq> [] then final NULL us else first vs NULL)"
      "if length us \<le> k \<and> (k = length us \<longrightarrow> us \<noteq> [])
         then l_middle_position l2 = l_middle_position l - 1 \<and> l_balance l2 = l_balance l + 1
         else l_middle_position l2 = l_middle_position l \<and> l_balance l2 = l_balance l - 1"
  shows "\<exists>l3. rebalance l2 = Some l3 \<and> l_items l3 = l_items l2 \<and> same_config l l3 \<and>
    list_inv (l3\<lparr>l_item_count := l_item_count l3 - 1, l_items := (l_items l2)(a := None)\<rparr>) (us @ vs) 0"
proof (cases "us @ vs = []")
  case True
  with mid have "k = 0" by (simp add: middle_at_def)
  moreover from this mid True have "l_balance l = 0" "l_middle_position l = 0"
    by (simp_all add: middle_at_def)
  ultimately have "rebalance l2 = Some l2"
    using l2 True by (simp add: rebalance_def)
  with True \<open>k = 0\<close> \<open>l_middle_position l = 0\<close> ch inv l2 show ?thesis
    by (simp add: list_inv_def middle_ok_def same_config_def)
next
  case False
  let ?k = "if length us \<le> k \<and> (k = length us \<longrightarrow> us \<noteq> []) then k - 1 else k"
  have "middle_at (l_middle l2) (l_middle_position l2) (l_balance l2) (us @ vs) 0 ?k"
  proof (cases k "length us" rule: linorder_cases)
    case less
    then show ?thesis
      using middle_delete_after [OF mid] l2 by simp
  next
    case equal
    then show ?thesis
      using middle_delete_prev [of _ _ _ us "(a, d)" vs 0] middle_delete_next [of _ _ _ "(a, d)" vs 0]
        mid l2 False by (cases "us = []") auto
  next
    case greater
    then show ?thesis
      using middle_delete_before [OF mid] l2 by auto
  qed
  moreover have "\<bar>int (length (us @ vs)) - 1 - 2 * int ?k + 0\<bar> \<le> 2"
    using k by auto
  moreover have "dseg (l_items l2) NULL (us @ vs) NULL"
    using ch dseg_frame [OF chain_fresh [OF ch]] unfolding chain_ok_def by force
  ultimately have "\<exists>m mp bal. rebalance l2 =
      Some (l2\<lparr>l_middle := m, l_middle_position := mp, l_balance := bal\<rparr>) \<and>
      middle_ok m mp bal (us @ vs) 0"
    using rebalance_ok [of l2 "us @ vs" 0 ?k] by simp
  with ch l2 inv show ?thesis
    by (auto simp: list_inv_def same_config_def)
qed

definition iter_at :: "linkedlist_iterator_internal_t \<Rightarrow> 'd nodes \<Rightarrow> nat \<Rightarrow> bool" where
  "iter_at it xs i \<longleftrightarrow>
     it_current it = (if i < length xs then Ref (fst (xs ! i)) else NULL) \<and>
     it_current_position it = of_nat i"

definition remove_nth :: "nat \<Rightarrow> 'a list \<Rightarrow> 'a list" where
  "remove_nth i xs = take i xs @ drop (Suc i) xs"

lemma length_remove_nth [simp]: "i < length xs \<Longrightarrow> length (remove_nth i xs) = length xs - 1"
  by (simp add: remove_nth_def)

lemma remove_nth_nth:
  "i < length xs \<Longrightarrow> j < length xs - 1 \<Longrightarrow>
   remove_nth i xs ! j = (if j < i then xs ! j else xs ! Suc j)"
  by (auto simp: remove_nth_def nth_append)

text \<open>The facts about the item at index \<open>i\<close> that both deletions start from.\<close>

lemma delete_setup:
  assumes inv: "list_inv l xs 0" and i: "i < length xs"
  obtains k l1 where
    "middle_at (l_middle l) (l_middle_position l) (l_balance l) xs 0 k" "k < length xs"
    "l_middle_position l = of_nat k" "length xs < 2 ^ 64"
    "\<bar>int (length xs) - 1 - 2 * int k\<bar> \<le> 1"
    "l_items l (fst (xs ! i)) = Some \<lparr>li_data = snd (xs ! i),
       li_next = first (drop (Suc i) xs) NULL, li_previous = final NULL (take i xs)\<rparr>"
    "unlink_item l (final NULL (take i xs)) (first (drop (Suc i) xs) NULL) = Some l1"
    "same_middle l l1" "l_items l1 (fst (xs ! i)) = l_items l (fst (xs ! i))"
    "chain_ok ((l_items l1)(fst (xs ! i) := None)) (l_head l1) (l_tail l1) (remove_nth i xs)"
proof -
  from i have ne: "xs \<noteq> []" by auto
  with inv obtain k where
    mid: "middle_at (l_middle l) (l_middle_position l) (l_balance l) xs 0 k"
      "\<bar>int (length xs) - 1 - 2 * int k + 0\<bar> \<le> 1"
    and ch: "chain_ok (l_items l) (l_head l) (l_tail l) xs" and n: "length xs < 2 ^ 64"
    by (rule list_invE)
  obtain l1 where
    "unlink_item l (final NULL (take i xs)) (first (drop (Suc i) xs) NULL) = Some l1"
    "same_middle l l1" "l_items l1 (fst (xs ! i)) = l_items l (fst (xs ! i))"
    "chain_ok ((l_items l1)(fst (xs ! i) := None)) (l_head l1) (l_tail l1) (remove_nth i xs)"
    using unlink_item_ok [of l "take i xs" "fst (xs ! i)" "snd (xs ! i)" "drop (Suc i) xs"]
      ch split_at [OF i] by (auto simp: remove_nth_def)
  moreover have "l_items l (fst (xs ! i)) = Some \<lparr>li_data = snd (xs ! i),
       li_next = first (drop (Suc i) xs) NULL, li_previous = final NULL (take i xs)\<rparr>"
    using ch i by (simp add: chain_ok_def dseg_nth)
  ultimately show thesis
    using that mid n by (simp add: middle_at_def)
qed

lemma delete_middle:
  assumes inv: "list_inv l xs 0" and i: "i < length xs" and l1: "same_middle l l1"
    and ch: "chain_ok ((l_items l1)(fst (xs ! i) := None)) (l_head l1) (l_tail l1) (remove_nth i xs)"
    and mid: "middle_at (l_middle l) (l_middle_position l) (l_balance l) xs 0 k"
      "\<bar>int (length xs) - 1 - 2 * int k\<bar> \<le> 1" "length xs < 2 ^ 64"
    and l2: "l2 = iterator_move_middle l1 (of_nat i) (final NULL (take i xs))
      (first (drop (Suc i) xs) NULL)"
  shows "\<exists>l3. rebalance l2 = Some l3 \<and> l_items l3 = l_items l2 \<and> same_config l l3 \<and>
    list_inv (l3\<lparr>l_item_count := l_item_count l3 - 1,
      l_items := (l_items l2)(fst (xs ! i) := None)\<rparr>) (remove_nth i xs) 0"
  unfolding remove_nth_def
proof (rule rebalance_unlinked [where k = k and d = "snd (xs ! i)"])
  let ?us = "take i xs" and ?vs = "drop (Suc i) xs" and ?a = "fst (xs ! i)"
  show "list_inv l (?us @ (?a, snd (xs ! i)) # ?vs) 0"
    "middle_at (l_middle l) (l_middle_position l) (l_balance l) (?us @ (?a, snd (xs ! i)) # ?vs) 0 k"
    "\<bar>int (length (?us @ (?a, snd (xs ! i)) # ?vs)) - 1 - 2 * int k\<bar> \<le> 1"
    using inv mid split_at [OF i] by simp_all
  have "k < length xs" "l_middle_position l = of_nat k"
    using mid by (auto simp: middle_at_def)
qed (use i mid l1 ch in \<open>auto simp: l2 iterator_move_middle_def middle_at_def
    same_middle_def same_config_def of_nat64_eq remove_nth_def\<close>)

lemma iterator_delete_ok:
  assumes inv: "list_inv l xs 0" and it: "iter_at it xs i" and i: "i < length xs"
    and ty: "l_type l \<noteq> LIST_TYPE_INDEXEDLIST"
  shows "\<exists>l' it'. linkedlist_iterator_delete_item ix l it = Some (l', it', snd (xs ! i)) \<and>
    list_inv l' (remove_nth i xs) 0 \<and> same_config l l' \<and>
    iter_at it' (remove_nth i xs) i \<and> it_current_deleted it'"
proof -
  let ?us = "take i xs" and ?vs = "drop (Suc i) xs" and ?a = "fst (xs ! i)"
  let ?it = "it\<lparr>it_current := first ?vs NULL, it_current_deleted := True\<rparr>"
  from inv i obtain k l1 where
    mid: "middle_at (l_middle l) (l_middle_position l) (l_balance l) xs 0 k"
      "\<bar>int (length xs) - 1 - 2 * int k\<bar> \<le> 1" "length xs < 2 ^ 64"
    and item: "l_items l ?a = Some \<lparr>li_data = snd (xs ! i),
       li_next = first ?vs NULL, li_previous = final NULL ?us\<rparr>"
    and l1: "unlink_item l (final NULL ?us) (first ?vs NULL) = Some l1" "same_middle l l1"
      "chain_ok ((l_items l1)(?a := None)) (l_head l1) (l_tail l1) (remove_nth i xs)"
    by (rule delete_setup)
  define l2 where "l2 = iterator_move_middle l1 (of_nat i) (final NULL ?us) (first ?vs NULL)"
  from delete_middle [OF inv i l1(2,3) mid l2_def] obtain l3 where
    l3: "rebalance l2 = Some l3" "l_items l3 = l_items l2" "same_config l l3"
      "list_inv (l3\<lparr>l_item_count := l_item_count l3 - 1, l_items := (l_items l2)(?a := None)\<rparr>)
        (remove_nth i xs) 0"
    by blast
  have "it_current it = Ref ?a" "it_current_position it = of_nat i"
    "l_type l3 \<noteq> LIST_TYPE_INDEXEDLIST"
    using it i l3(3) ty by (simp_all add: iter_at_def same_config_def)
  then have "linkedlist_iterator_delete_item ix l it =
      Some (l3\<lparr>l_item_count := l_item_count l3 - 1, l_items := (l_items l2)(?a := None)\<rparr>,
            ?it, snd (xs ! i))"
    using item l1(1) l3(1,2)
    by (simp add: linkedlist_iterator_delete_item_def l2_def [symmetric] Let_def)
  moreover have "iter_at ?it (remove_nth i xs) i"
    using it i by (auto simp: iter_at_def first_drop remove_nth_nth)
  ultimately show ?thesis
    using l3(3,4) by (auto simp: same_config_def)
qed

lemma delete_at_position_ok:
  assumes inv: "list_inv l xs 0" and i: "i < length xs"
  shows "\<exists>l'. delete_at_position l (of_nat i) = Some (l', snd (xs ! i)) \<and>
    list_inv l' (remove_nth i xs) 0 \<and> same_config l l'"
proof -
  let ?us = "take i xs" and ?vs = "drop (Suc i) xs" and ?a = "fst (xs ! i)"
  from inv i obtain k l1 where
    mid: "middle_at (l_middle l) (l_middle_position l) (l_balance l) xs 0 k"
      "\<bar>int (length xs) - 1 - 2 * int k\<bar> \<le> 1" "length xs < 2 ^ 64"
    and k: "k < length xs" "l_middle_position l = of_nat k"
    and item: "l_items l ?a = Some \<lparr>li_data = snd (xs ! i),
       li_next = first ?vs NULL, li_previous = final NULL ?us\<rparr>"
    and l1: "unlink_item l (final NULL ?us) (first ?vs NULL) = Some l1" "same_middle l l1"
      "chain_ok ((l_items l1)(?a := None)) (l_head l1) (l_tail l1) (remove_nth i xs)"
      "l_items l1 ?a = l_items l ?a"
    by (rule delete_setup)
  have "l_head l = Ref (fst (xs ! 0))" "0 < length xs" "dseg (l_items l) NULL xs NULL"
    using inv i by (cases xs; simp add: list_inv_def chain_ok_def)+
  then have find: "(if of_nat i \<ge> l_middle_position l
      then find_position (l_items l) (l_middle l) (l_middle_position l) (of_nat i)
      else find_position (l_items l) (l_head l) 0 (of_nat i)) = Some (Ref ?a, of_nat i)"
    using find_position_ok [of "l_items l" xs k i] find_position_ok [of "l_items l" xs 0 i]
      i mid k by (auto simp: middle_at_def)
  define l2 where "l2 = iterator_move_middle l1 (of_nat i) (final NULL ?us) (first ?vs NULL)"
  have move: "position_move_middle l1 (of_nat i) (final NULL ?us) = Some l2"
    using mid k l1 item i
    by (auto simp: l2_def position_move_middle_def iterator_move_middle_def same_middle_def
        of_nat64_eq middle_at_def)
  from delete_middle [OF inv i l1(2,3) mid l2_def] obtain l3 where
    l3: "rebalance l2 = Some l3" "l_items l3 = l_items l2" "same_config l l3"
      "list_inv (l3\<lparr>l_item_count := l_item_count l3 - 1, l_items := (l_items l2)(?a := None)\<rparr>)
        (remove_nth i xs) 0"
    by blast
  have "delete_at_position l (of_nat i) =
      Some (l3\<lparr>l_item_count := l_item_count l3 - 1, l_items := (l_items l2)(?a := None)\<rparr>,
            snd (xs ! i))"
    using item l1(1) l3(1,2) move by (simp add: delete_at_position_def find)
  then show ?thesis
    using l3(3,4) by (auto simp: same_config_def)
qed

end
