(* ===== verification/LinkedList_Lookup.thy ===== *)
theory LinkedList_Lookup
  imports LinkedList_Ops
begin

text \<open>
  The loops of the linked list that walk items: lookup by position and by value, deletion by
  value, duplication and destruction.
\<close>

subsection \<open>Lookup by position\<close>

lemma walk_right_ok:
  assumes "dseg h NULL xs NULL"
  shows "i + r < length xs \<Longrightarrow> walk_right h (Ref (fst (xs ! i))) r = Some (snd (xs ! (i + r)))"
proof (induction r arbitrary: i)
  case 0
  then show ?case using dseg_next [OF assms, of i] by (simp add: walk_right.simps)
next
  case (Suc r)
  then show ?case using dseg_next [OF assms, of i] by (subst walk_right.simps) simp
qed

lemma walk_left_ok:
  assumes "dseg h NULL xs NULL" "i < length xs"
  shows "r \<le> i \<Longrightarrow> walk_left h (Ref (fst (xs ! i))) r = Some (snd (xs ! (i - r)))"
  using assms(2)
proof (induction r arbitrary: i)
  case 0
  then show ?case using dseg_next [OF assms(1), of i] by (simp add: walk_left.simps)
next
  case (Suc r)
  then show ?case
    using dseg_next [OF assms(1), of i] Suc.IH [of "i - 1"] by (subst walk_left.simps) simp
qed

lemma get_data_at_position_ok:
  assumes inv: "list_inv l xs 0" and p: "p < length xs"
  shows "linkedlist_get_data_at_position l (of_nat p) = Some (snd (xs ! p))"
proof -
  from p have ne: "xs \<noteq> []" by auto
  from inv ne obtain k where
    mid: "middle_at (l_middle l) (l_middle_position l) (l_balance l) xs 0 k"
    and ch: "chain_ok (l_items l) (l_head l) (l_tail l) xs"
    and n: "l_item_count l = of_nat (length xs)" "length xs < 2 ^ 64"
    by (rule list_invE)
  have seg: "dseg (l_items l) NULL xs NULL" and k: "k < length xs"
    and mp: "l_middle_position l = of_nat k" and m: "l_middle l = Ref (fst (xs ! k))"
    using mid ch by (auto simp: middle_at_def chain_ok_def)
  have hd: "l_head l = Ref (fst (xs ! 0))" and tl: "l_tail l = Ref (fst (xs ! (length xs - 1)))"
    using ch ne by (simp_all add: chain_ok_def first_neq_NULL final_neq_NULL hd_conv_nth last_conv_nth)
  have unat_sub: "unat ((of_nat a :: u64) - of_nat b) = a - b" if "b \<le> a" "a < 2 ^ 64" for a b
    using that unat_of_nat64 [of "a - b"] by (simp add: of_nat_diff)
  have guard: "\<not> of_nat p \<ge> l_item_count l" "l_middle l \<noteq> NULL"
    using p n m by simp_all
  show ?thesis
  proof (cases "k \<le> p")
    case True
    have u1: "unat (of_nat p - l_middle_position l) = p - k"
      using True p n by (simp add: mp unat_sub)
    have "l_item_count l - of_nat p - 1 = of_nat (length xs) - of_nat (Suc p)"
      using n by simp
    then have u2: "unat (l_item_count l - of_nat p - 1) = length xs - Suc p"
      using p n unat_sub [of "Suc p" "length xs"] by (simp only: Suc_le_eq)
    have "of_nat p \<ge> l_middle_position l"
      using True p n by (simp add: mp)
    then show ?thesis
      using True p k ne guard walk_right_ok [OF seg, of k "p - k"]
        walk_left_ok [OF seg, of "length xs - 1" "length xs - Suc p"]
      unfolding linkedlist_get_data_at_position_def Let_def word_less_nat_alt
      by (simp add: m tl u1 u2)
  next
    case False
    then have u: "unat (l_middle_position l - of_nat p) = k - p" and "\<not> of_nat p \<ge> l_middle_position l"
      using n k by (simp_all add: mp unat_sub)
    then show ?thesis
      using False p k n guard walk_right_ok [OF seg, of 0 p] walk_left_ok [OF seg, of k "k - p"]
      unfolding linkedlist_get_data_at_position_def Let_def word_less_nat_alt
      by (simp add: m hd u)
  qed
qed

subsection \<open>Lookup by value\<close>

lemma position_loop_ok:
  assumes "dseg h NULL xs NULL" "i \<le> length xs"
  shows "position_loop h cmp data (if i < length xs then Ref (fst (xs ! i)) else NULL) (Ref (of_nat i)) =
    (case find (\<lambda>j. cmp data (snd (xs ! j)) = 0) [i..<length xs] of
       None \<Rightarrow> Some (- 1, Ref (of_nat (length xs)))
     | Some j \<Rightarrow> Some (0, Ref (of_nat j)))"
  using assms(2)
proof (induction "length xs - i" arbitrary: i)
  case 0
  then show ?case by (simp add: position_loop.simps)
next
  case (Suc m)
  then have i: "i < length xs" and m: "m = length xs - Suc i" by auto
  from Suc.hyps(1) [OF m] i dseg_next [OF assms(1) i] show ?case
    by (subst position_loop.simps) (auto simp: upt_conv_Cons add.commute)
qed

lemma get_position_ok:
  assumes inv: "list_inv l xs e" and ty: "l_type l \<noteq> LIST_TYPE_SORTEDLIST"
  shows "linkedlist_get_position l data (Ref p) =
    (case find (\<lambda>j. list_cmp l data (snd (xs ! j)) = 0) [0..<length xs] of
       None \<Rightarrow> Some (- 1, Ref (of_nat (length xs)))
     | Some j \<Rightarrow> Some (0, Ref (of_nat j)))"
proof -
  have n: "l_item_count l = of_nat (length xs)" "length xs < 2 ^ 64"
    and seg: "dseg (l_items l) NULL xs NULL" and hd: "l_head l = first xs NULL"
    using inv by (auto simp: list_inv_def chain_ok_def)
  then have "l_item_count l = 0 \<longleftrightarrow> xs = []"
    using of_nat64_eq [of "length xs" 0] by simp
  moreover have "l_head l = (if 0 < length xs then Ref (fst (xs ! 0)) else NULL)"
    using hd by (cases xs) auto
  ultimately show ?thesis
    using position_loop_ok [OF seg, of 0 "list_cmp l" data] ty
    by (cases "xs = []")
      (simp_all add: linkedlist_get_position_def set_position_def Let_def)
qed

subsection \<open>Iteration\<close>

lemma iterator_create_ok:
  assumes "list_inv l xs e"
  shows "\<exists>it. linkedlist_iterator_create True l = (l\<lparr>l_locked := True\<rparr>, Ref it) \<and>
    iter_at it xs 0 \<and> \<not> it_current_deleted it"
  using assms
  by (cases xs) (auto simp: linkedlist_iterator_create_def iter_at_def list_inv_def chain_ok_def)

lemma iterator_step:
  assumes seg: "dseg (l_items l) NULL xs NULL" and it: "iter_at it xs i" "i < length xs"
  shows "linkedlist_iterator_end_of_list it \<noteq> 0"
    "linkedlist_iterator_get_item l it = Some (snd (xs ! i))"
    "\<not> it_current_deleted it \<Longrightarrow>
       \<exists>it'. linkedlist_iterator_next l it = Some it' \<and> iter_at it' xs (Suc i) \<and>
         \<not> it_current_deleted it'"
    "it_current_deleted it \<Longrightarrow>
       \<exists>it'. linkedlist_iterator_next l it = Some it' \<and> iter_at it' xs i \<and>
         \<not> it_current_deleted it'"
  using dseg_next [OF seg it(2)] it
  by (auto simp: linkedlist_iterator_end_of_list_def linkedlist_iterator_get_item_def
      linkedlist_iterator_next_def iter_at_def)

lemma iterator_end:
  "iter_at it xs (length xs) \<Longrightarrow> linkedlist_iterator_end_of_list it = 0"
  by (simp add: linkedlist_iterator_end_of_list_def iter_at_def)

subsection \<open>Deletion by value\<close>

lemma findby_loop_skip:
  assumes inv: "list_inv l xs 0" and it: "iter_at it xs i" "\<not> it_current_deleted it"
    and j: "i \<le> j" "j \<le> length xs"
    and no: "\<forall>m. i \<le> m \<and> m < j \<longrightarrow> cmp (snd (xs ! m)) data \<noteq> 0"
  shows "\<exists>it'. findby_loop ix cmp data l it = findby_loop ix cmp data l it' \<and>
    iter_at it' xs j \<and> \<not> it_current_deleted it'"
  using it j no
proof (induction "j - i" arbitrary: i it)
  case 0
  then show ?case by auto
next
  case (Suc m)
  have seg: "dseg (l_items l) NULL xs NULL" using inv by (simp add: list_inv_def chain_ok_def)
  have i: "i < length xs" using Suc by simp
  note step = iterator_step [OF seg \<open>iter_at it xs i\<close> i]
  from step(3) Suc.prems obtain it' where
    it': "linkedlist_iterator_next l it = Some it'" "iter_at it' xs (Suc i)" "\<not> it_current_deleted it'"
    by blast
  have "findby_loop ix cmp data l it = findby_loop ix cmp data l it'"
    using Suc step it' by (subst findby_loop.simps) simp
  then show ?case
    using Suc.hyps(1) [of "Suc i" it'] Suc.hyps(2) Suc.prems it' by auto
qed

lemma findby_loop_none:
  assumes "list_inv l xs 0" "iter_at it xs 0" "\<not> it_current_deleted it"
    and "\<forall>x \<in> set xs. cmp (snd x) data \<noteq> 0"
  shows "findby_loop ix cmp data l it = Some (l, NULL)"
proof -
  obtain it' where "findby_loop ix cmp data l it = findby_loop ix cmp data l it'"
    "iter_at it' xs (length xs)"
    using findby_loop_skip [OF assms(1-3), of "length xs" cmp data] assms(4) by auto
  then show ?thesis
    by (subst (asm) (2) findby_loop.simps) (simp add: iterator_end)
qed

lemma findby_loop_some:
  assumes inv: "list_inv l (us @ x # vs) 0" and it: "iter_at it (us @ x # vs) 0" "\<not> it_current_deleted it"
    and ty: "l_type l \<noteq> LIST_TYPE_INDEXEDLIST"
    and no: "\<forall>u \<in> set us. cmp (snd u) data \<noteq> 0" and yes: "cmp (snd x) data = 0"
  shows "\<exists>l'. findby_loop ix cmp data l it = Some (l', snd x) \<and> list_inv l' (us @ vs) 0 \<and>
    same_config l l'"
proof -
  let ?xs = "us @ x # vs"
  have seg: "dseg (l_items l) NULL ?xs NULL" using inv by (simp add: list_inv_def chain_ok_def)
  obtain it' where it': "findby_loop ix cmp data l it = findby_loop ix cmp data l it'"
    "iter_at it' ?xs (length us)"
    using findby_loop_skip [OF inv it, of "length us" cmp data] no by (auto simp: nth_append)
  have i: "length us < length ?xs" and rem: "remove_nth (length us) ?xs = us @ vs"
    by (simp_all add: remove_nth_def)
  from iterator_delete_ok [OF inv it'(2) i ty, of ix] rem obtain l' it'' where
    "linkedlist_iterator_delete_item ix l it' = Some (l', it'', snd x)"
    "list_inv l' (us @ vs) 0" "same_config l l'"
    by auto
  with iterator_step(1,2) [OF seg it'(2) i] yes show ?thesis
    unfolding it'(1) by (subst findby_loop.simps) simp
qed

subsection \<open>Destruction and duplication\<close>

lemma destroy_loop_ok:
  assumes "distinct (map fst xs)" "dseg h p xs NULL"
  shows "linkedlist_destroy_loop h ty (first xs NULL) ds =
    Some (h |` (- fst ` set xs),
          if ty = LIST_DESTROY_WITH_DATA then ds @ map snd xs else ds)"
  using assms
proof (induction xs arbitrary: h p ds)
  case Nil
  then show ?case by (simp add: linkedlist_destroy_loop.simps)
next
  case (Cons x xs)
  let ?ds = "if ty = LIST_DESTROY_WITH_DATA then ds @ [snd x] else ds"
  have "distinct (map fst xs)" "dseg (h(fst x := None)) (Ref (fst x)) xs NULL"
    using Cons.prems by simp_all
  note IH = Cons.IH [OF this]
  have "linkedlist_destroy_loop h ty (first (x # xs) NULL) ds =
      linkedlist_destroy_loop (h(fst x := None)) ty (first xs NULL) ?ds"
    using Cons.prems by (subst linkedlist_destroy_loop.simps) simp
  also have "\<dots> = Some ((h(fst x := None)) |` (- fst ` set xs),
      if ty = LIST_DESTROY_WITH_DATA then ?ds @ map snd xs else ?ds)"
    by (rule IH)
  also have "(h(fst x := None)) |` (- fst ` set xs) = h |` (- fst ` set (x # xs))"
    by (rule ext) (auto simp: restrict_map_def)
  finally show ?case by simp
qed

lemma duplicate_loop_ok:
  assumes seg: "dseg (l_items l) NULL xs NULL"
  shows "\<lbrakk>iter_at it xs i; \<not> it_current_deleted it; i \<le> length xs; list_inv new ys e;
      length as = length xs - i; distinct as; \<forall>a \<in> set as. fresh_in new a;
      length ys + length as < 2 ^ 64\<rbrakk> \<Longrightarrow>
    \<exists>new' e'. duplicate_loop ix l it (map Ref as) new = Some new' \<and> same_config new new' \<and>
      list_inv new' (ys @ zip as (map snd (drop i xs))) e'"
proof (induction as arbitrary: it i new ys e)
  case Nil
  then have "linkedlist_iterator_end_of_list it = 0"
    using iterator_end [of it xs] by simp
  with Nil show ?case
    by (subst duplicate_loop.simps) (auto simp: same_config_def)
next
  case (Cons a as)
  then have i: "i < length xs" by simp
  note step = iterator_step [OF seg \<open>iter_at it xs i\<close> i]
  from step(3) Cons.prems obtain it' where
    it': "linkedlist_iterator_next l it = Some it'" "iter_at it' xs (Suc i)" "\<not> it_current_deleted it'"
    by blast
  have "fresh_in new a" "Suc (length ys) < 2 ^ 64" using Cons.prems by auto
  from insert_at_tail_ok [OF \<open>list_inv new ys e\<close> this, of ix "snd (xs ! i)" 0] obtain new1 where
    new1: "linkedlist_insert_at ix (Ref a) new (snd (xs ! i)) LIST_INSERT_AT_TAIL 0 =
        Some (new1, of_nat (length ys))"
      "list_inv new1 (ys @ [(a, snd (xs ! i))]) (offset_after_insert ys e)" "same_config new new1"
    by (auto simp: op_ok_def)
  have "fresh_in new1 b" if "b \<in> set as" for b
  proof -
    have "b \<notin> fst ` set (ys @ [(a, snd (xs ! i))])"
      using that Cons.prems chain_fresh [of "l_items new" _ _ ys b]
      by (auto simp: list_inv_def fresh_in_def)
    with new1(2) show ?thesis by (metis chain_ok_def domIff fresh_in_def list_inv_def)
  qed
  moreover have "Suc i \<le> length xs" "length as = length xs - Suc i" "distinct as"
    "length (ys @ [(a, snd (xs ! i))]) + length as < 2 ^ 64"
    using Cons.prems i by simp_all
  ultimately obtain new' e' where
    "duplicate_loop ix l it' (map Ref as) new1 = Some new'" "same_config new1 new'"
    "list_inv new' ((ys @ [(a, snd (xs ! i))]) @ zip as (map snd (drop (Suc i) xs))) e'"
    using Cons.IH [OF it'(2,3) _ new1(2)] by blast
  moreover have "drop i xs = xs ! i # drop (Suc i) xs" using i by (simp add: Cons_nth_drop_Suc)
  ultimately show ?case
    using step it'(1) new1(1,3)
    by (subst duplicate_loop.simps) (auto simp: same_config_def)
qed

end
