(* ===== verification/LinkedList_Sorted.thy ===== *)
theory LinkedList_Sorted
  imports LinkedList_Lookup
begin

text \<open>
  Sorted lists: the law a comparator has to satisfy (locale \<open>comparator_order\<close>), binary
  narrowing, sorted insertion and lookup by value in a sorted list.
\<close>

locale comparator_order =
  fixes cmp :: "'d comparator"
  assumes cmp_range: "cmp a b = - 1 \<or> cmp a b = 0 \<or> cmp a b = 1"
    and cmp_flip: "cmp b a = - cmp a b"
    and cmp_trans: "cmp a b \<le> 0 \<Longrightarrow> cmp b c \<le> 0 \<Longrightarrow> cmp a c \<le> 0"

definition sorted_nodes :: "'d comparator \<Rightarrow> 'd nodes \<Rightarrow> bool" where
  "sorted_nodes cmp xs \<longleftrightarrow> sorted_wrt (\<lambda>x y. cmp (snd x) (snd y) \<le> 0) xs"

text \<open>The number of items that are smaller than \<open>data\<close>, all of them at the front.\<close>

definition rank :: "'d comparator \<Rightarrow> 'd ref \<Rightarrow> 'd nodes \<Rightarrow> nat" where
  "rank cmp data xs = length (takeWhile (\<lambda>x. cmp data (snd x) = 1) xs)"

lemma rank_le [simp]: "rank cmp data xs \<le> length xs"
  by (simp add: rank_def length_takeWhile_le)

lemma walk_both_ok:
  assumes "dseg h NULL xs NULL"
  shows "i + q < length xs \<Longrightarrow> q \<le> j \<Longrightarrow> j < length xs \<Longrightarrow>
    walk_both h q (Ref (fst (xs ! i))) (Ref (fst (xs ! j))) =
      Some (Ref (fst (xs ! (i + q))), Ref (fst (xs ! (j - q))))"
proof (induction q arbitrary: i j)
  case (Suc q)
  then show ?case
    using dseg_next [OF assms, of i] dseg_next [OF assms, of j] Suc.IH [of "Suc i" "j - 1"] by simp
qed simp

context comparator_order
begin

lemma cmp_mono: "cmp x y \<le> 0 \<Longrightarrow> cmp data y \<le> cmp data x"
proof -
  assume xy: "cmp x y \<le> 0"
  have 1: "cmp data x \<le> 0 \<Longrightarrow> cmp data y \<le> 0"
    using cmp_trans xy by blast
  have 2: "cmp y data \<le> 0 \<Longrightarrow> cmp x data \<le> 0"
    using cmp_trans xy by blast
  show "cmp data y \<le> cmp data x"
    using 1 2 cmp_range [of data x] cmp_range [of data y] cmp_flip [of x data] cmp_flip [of y data]
    by auto
qed

lemma cmp_antimono:
  assumes "sorted_nodes cmp xs" "i \<le> j" "j < length xs"
  shows "cmp data (snd (xs ! j)) \<le> cmp data (snd (xs ! i))"
proof (cases "i = j")
  case False
  with assms have "cmp (snd (xs ! i)) (snd (xs ! j)) \<le> 0"
    using sorted_wrt_nth_less [of "\<lambda>x y. cmp (snd x) (snd y) \<le> 0" xs i j]
    by (simp add: sorted_nodes_def)
  then show ?thesis by (rule cmp_mono)
qed simp

lemma rank_less_iff:
  assumes "sorted_nodes cmp xs" "j < length xs"
  shows "j < rank cmp data xs \<longleftrightarrow> cmp data (snd (xs ! j)) = 1"
proof
  assume "j < rank cmp data xs"
  then show "cmp data (snd (xs ! j)) = 1"
    using nth_mem [of j "takeWhile (\<lambda>x. cmp data (snd x) = 1) xs"]
    by (auto simp: rank_def takeWhile_nth dest: set_takeWhileD)
next
  assume one: "cmp data (snd (xs ! j)) = 1"
  show "j < rank cmp data xs"
  proof (rule ccontr)
    assume "\<not> j < rank cmp data xs"
    then have r: "rank cmp data xs \<le> j" by simp
    have "cmp data (snd (xs ! rank cmp data xs)) \<noteq> 1"
      using r assms(2) nth_length_takeWhile [of "\<lambda>x. cmp data (snd x) = 1" xs]
      by (auto simp: rank_def)
    then show False
      using cmp_antimono [OF assms(1) r assms(2), of data] one cmp_range [of data "snd (xs ! rank cmp data xs)"]
      by auto
  qed
qed

lemma equal_between:
  assumes "sorted_nodes cmp xs" "j < length xs" "cmp data (snd (xs ! j)) = 0"
    and "rank cmp data xs \<le> m" "m \<le> j"
  shows "cmp data (snd (xs ! m)) = 0"
proof -
  have "cmp data (snd (xs ! m)) \<noteq> 1"
    using rank_less_iff [of xs m data] assms by simp
  moreover have "0 \<le> cmp data (snd (xs ! m))"
    using cmp_antimono [OF assms(1,5,2), of data] assms(3) by simp
  ultimately show ?thesis
    using cmp_range [of data "snd (xs ! m)"] by auto
qed

lemma narrow_left_ok:
  assumes seg: "dseg h NULL xs NULL" and sorted: "sorted_nodes cmp xs" and n: "length xs < 2 ^ 64"
  shows "j < length xs \<Longrightarrow> cmp data (snd (xs ! j)) = 0 \<Longrightarrow>
    narrow_left h cmp data (Ref (fst (xs ! j))) (of_nat j) =
      Some (Ref (fst (xs ! rank cmp data xs)), of_nat (rank cmp data xs), rank cmp data xs \<noteq> 0)"
proof (induction j)
  case 0
  then have "rank cmp data xs = 0"
    using rank_less_iff [OF sorted, of 0 data] by auto
  then show ?case
    using dseg_next [OF seg, of 0] 0 by (subst narrow_left.simps) simp
next
  case (Suc j)
  note items = dseg_next [OF seg, of "Suc j"] dseg_next [OF seg, of j]
  show ?case
  proof (cases "cmp data (snd (xs ! j)) = 0")
    case True
    with Suc items show ?thesis
      by (subst narrow_left.simps) simp
  next
    case False
    have "rank cmp data xs = Suc j"
    proof (rule antisym)
      show "rank cmp data xs \<le> Suc j"
        using rank_less_iff [OF sorted Suc.prems(1), of data] Suc.prems(2) by auto
      show "Suc j \<le> rank cmp data xs"
        using equal_between [OF sorted Suc.prems, of j] False by (metis not_less_eq_eq le_SucI order_refl)
    qed
    with False Suc.prems items show ?thesis
      by (subst narrow_left.simps) simp
  qed
qed

lemma narrow_right_ok:
  assumes seg: "dseg h NULL xs NULL" and sorted: "sorted_nodes cmp xs"
  shows "i \<le> rank cmp data xs \<Longrightarrow> i < length xs \<Longrightarrow>
    narrow_right h cmp data (Ref (fst (xs ! i))) (of_nat i) (cmp data (snd (xs ! i))) =
      (if rank cmp data xs < length xs
       then Some (Ref (fst (xs ! rank cmp data xs)), of_nat (rank cmp data xs),
                  cmp data (snd (xs ! rank cmp data xs)), False)
       else Some (Ref (fst (xs ! (length xs - 1))), of_nat (length xs - 1), 1, True))"
proof (induction "length xs - i" arbitrary: i)
  case 0
  then show ?case by simp
next
  case (Suc m)
  note item = dseg_next [OF seg \<open>i < length xs\<close>]
  note less = rank_less_iff [OF sorted \<open>i < length xs\<close>, of data]
  consider (stop) "i = rank cmp data xs" | (last) "i < rank cmp data xs" "length xs = Suc i"
    | (step) "i < rank cmp data xs" "Suc i < length xs"
    using Suc.prems by linarith
  then show ?case
  proof cases
    case stop
    with less Suc.prems show ?thesis by (subst narrow_right.simps) auto
  next
    case last
    then have "rank cmp data xs = length xs"
      using rank_le [of cmp data xs] by simp
    with last less item show ?thesis
      by (subst narrow_right.simps) simp
  next
    case step
    then have "narrow_right h cmp data (Ref (fst (xs ! i))) (of_nat i) (cmp data (snd (xs ! i))) =
        narrow_right h cmp data (Ref (fst (xs ! Suc i))) (of_nat (Suc i)) (cmp data (snd (xs ! Suc i)))"
      using less item dseg_next [OF seg, of "Suc i"]
      by (subst narrow_right.simps) (simp add: add.commute)
    with Suc.hyps(1) [of "Suc i"] Suc.hyps(2) step show ?thesis by simp
  qed
qed

definition narrowed :: "'d ref \<Rightarrow> 'd nodes \<Rightarrow> (ptr \<times> ptr \<times> u64 \<times> int) option \<Rightarrow> bool" where
  "narrowed data xs res \<longleftrightarrow>
     (\<exists>r t c. res = Some (Ref (fst (xs ! r)), t, of_nat r, c) \<and> r < length xs \<and>
        (c = 0 \<and> cmp data (snd (xs ! r)) = 0 \<or> c = - 1 \<and> r \<le> rank cmp data xs))"

lemma narrowedI:
  assumes "res = Some (Ref (fst (xs ! r)), t, of_nat r, c)" "r < length xs"
    "c = 0 \<and> cmp data (snd (xs ! r)) = 0 \<or> c = - 1 \<and> r \<le> rank cmp data xs"
  shows "narrowed data xs res"
  using assms by (auto simp: narrowed_def)

definition nloop :: "'d items \<Rightarrow> 'd ref \<Rightarrow> 'd nodes \<Rightarrow> nat \<Rightarrow> nat \<Rightarrow> (ptr \<times> ptr \<times> u64 \<times> int) option" where
  "nloop h data xs i j =
     narrow_loop h cmp data (Ref (fst (xs ! i))) (Ref (fst (xs ! j))) (of_nat (Suc (j - i))) (of_nat i)"

lemma segment_size:
  assumes "i < j" "Suc j < 2 ^ 64"
  shows "(of_nat (Suc (j - i)) :: u64) \<noteq> 0"
    "of_nat (Suc (j - i)) = (2 :: u64) \<longleftrightarrow> Suc (j - i) = 2"
    "of_nat (Suc (j - i)) = (3 :: u64) \<longleftrightarrow> Suc (j - i) = 3"
    "drop_bit 2 (of_nat (Suc (j - i)) :: u64) = of_nat (Suc (j - i) div 4)"
  using of_nat64_eq [of "Suc (j - i)" 0] of_nat64_eq [of "Suc (j - i)" 2]
    of_nat64_eq [of "Suc (j - i)" 3] assms
  by (simp_all add: drop_bit_of_nat64 del: of_nat_Suc)

lemma narrow_loop_base:
  assumes seg: "dseg h NULL xs NULL" and dist: "distinct (map fst xs)"
    and sorted: "sorted_nodes cmp xs" and n: "length xs < 2 ^ 64"
    and ij: "i < j" "j < length xs" and L: "i \<le> rank cmp data xs \<or> cmp data (snd (xs ! i)) = 0"
    and small: "cmp data (snd (xs ! i)) = 0 \<or> cmp data (snd (xs ! j)) = 0 \<or> j = Suc i \<or> j = i + 2"
  shows "narrowed data xs (nloop h data xs i j)"
proof -
  have i: "i < length xs" using ij by simp
  note items = dseg_next [OF seg i] dseg_next [OF seg ij(2)]
  have ne: "fst (xs ! i) \<noteq> fst (xs ! j)"
    using dist ij by (auto simp: distinct_conv_nth)
  have j64: "Suc j < 2 ^ 64" using ij n by simp
  have pos: "of_nat i + (of_nat (Suc (j - i)) - 1) = (of_nat j :: u64)"
    using ij by (simp add: of_nat_diff)
  have suc: "of_nat i + 1 = (of_nat (Suc i) :: u64)" by simp
  define r where "r = (if cmp data (snd (xs ! i)) = 0 then i else if cmp data (snd (xs ! j)) = 0 then j
    else if j = i + 2 \<and> cmp data (snd (xs ! i)) = 1 then Suc i else i)"
  have "r < length xs" using ij by (simp add: r_def)
  moreover have "r \<le> rank cmp data xs" if "cmp data (snd (xs ! i)) \<noteq> 0" "cmp data (snd (xs ! j)) \<noteq> 0"
    using that L rank_less_iff [OF sorted i, of data] by (auto simp: r_def)
  moreover have "\<exists>t c. nloop h data xs i j = Some (Ref (fst (xs ! r)), t, of_nat r, c) \<and>
      (c = 0 \<and> cmp data (snd (xs ! r)) = 0 \<or>
       c = - 1 \<and> cmp data (snd (xs ! i)) \<noteq> 0 \<and> cmp data (snd (xs ! j)) \<noteq> 0)"
    using small ij i items ne
    unfolding nloop_def r_def
    by (subst narrow_loop.simps)
      (auto simp: segment_size [OF ij(1) j64] pos suc simp del: of_nat_Suc)
  ultimately show ?thesis
    by (auto intro: narrowedI)
qed

lemma narrow_loop_step:
  assumes seg: "dseg h NULL xs NULL" and dist: "distinct (map fst xs)" and n: "length xs < 2 ^ 64"
    and ij: "i + 3 \<le> j" "j < length xs" and q: "q = Suc (j - i) div 4"
    and ne0: "cmp data (snd (xs ! i)) \<noteq> 0" "cmp data (snd (xs ! j)) \<noteq> 0"
  shows "nloop h data xs i j =
    (if cmp data (snd (xs ! (i + q))) \<le> 0 then nloop h data xs i (i + q)
     else if cmp data (snd (xs ! (j - q))) \<ge> 0 then nloop h data xs (j - q) j
     else nloop h data xs (i + q) (j - q))"
proof -
  have less: "i < length xs" "i + q < length xs" "j - q < length xs" "q \<le> j" "i < j" "Suc j < 2 ^ 64"
    "q < 2 ^ 64" "1 \<le> q"
    using ij n q by auto
  note items = dseg_next [OF seg less(1)] dseg_next [OF seg ij(2)] dseg_next [OF seg less(2)]
    dseg_next [OF seg less(3)]
  have ne: "fst (xs ! i) \<noteq> fst (xs ! j)"
    using dist ij by (auto simp: distinct_conv_nth)
  have two: "q + (i + q) \<le> j" using ij q by linarith
  have size: "of_nat (Suc (i + q - i)) = (of_nat q + 1 :: u64)"
    "of_nat (Suc (j - (j - q))) = (of_nat q + 1 :: u64)"
    "of_nat (Suc (j - q - (i + q))) = (of_nat (Suc (j - i)) - 2 * of_nat q :: u64)"
    "of_nat (j - q) = (of_nat i + (of_nat (Suc (j - i)) - (of_nat q + 1)) :: u64)"
    "of_nat (i + q) = (of_nat i + of_nat q :: u64)"
    using ij less(1-8) two by (simp_all add: of_nat_diff)
  have "Suc (j - i) \<noteq> 2" "Suc (j - i) \<noteq> 3" using ij by auto
  then show ?thesis
    using ne ne0 items less
    unfolding nloop_def size
    by (subst narrow_loop.simps)
      (simp add: segment_size [OF less(5,6)] q [symmetric] walk_both_ok [OF seg less(2,4) ij(2)]
        del: of_nat_Suc)
qed

lemma narrow_loop_ok:
  assumes seg: "dseg h NULL xs NULL" and dist: "distinct (map fst xs)"
    and sorted: "sorted_nodes cmp xs" and n: "length xs < 2 ^ 64"
  shows "i < j \<Longrightarrow> j < length xs \<Longrightarrow> i \<le> rank cmp data xs \<or> cmp data (snd (xs ! i)) = 0 \<Longrightarrow>
    narrowed data xs (nloop h data xs i j)"
proof (induction "j - i" arbitrary: i j rule: less_induct)
  case less
  show ?case
  proof (cases "cmp data (snd (xs ! i)) = 0 \<or> cmp data (snd (xs ! j)) = 0 \<or> j = Suc i \<or> j = i + 2")
    case True
    then show ?thesis by (intro narrow_loop_base assms less.prems)
  next
    case False
    define q where "q = Suc (j - i) div 4"
    have ij: "i + 3 \<le> j" and ne0: "cmp data (snd (xs ! i)) \<noteq> 0" "cmp data (snd (xs ! j)) \<noteq> 0"
      using False less.prems by auto
    have q: "1 \<le> q" "i + q < j" "q < j - i" "i + q < j - q" "j - q < j" "j - (j - q) < j - i"
      "j - q - (i + q) < j - i"
      using ij by (auto simp: q_def)
    have "i + q < rank cmp data xs" if "\<not> cmp data (snd (xs ! (i + q))) \<le> 0"
      using that rank_less_iff [OF sorted, of "i + q" data] q less.prems
        cmp_range [of data "snd (xs ! (i + q))"] by auto
    moreover have "j - q \<le> rank cmp data xs \<or> cmp data (snd (xs ! (j - q))) = 0"
      if "cmp data (snd (xs ! (j - q))) \<ge> 0"
      using that rank_less_iff [OF sorted, of "j - q" data] q less.prems
        cmp_range [of data "snd (xs ! (j - q))"] by auto
    ultimately show ?thesis
      unfolding narrow_loop_step [OF seg dist n ij less.prems(2) q_def ne0]
      using q less.prems less.hyps [of "i + q" i] less.hyps [of j "j - q"] less.hyps [of "j - q" "i + q"]
      by auto
  qed
qed

text \<open>What narrowing finds: the first item not smaller than \<open>data\<close>, or the last item.\<close>

definition found :: "'d ref \<Rightarrow> 'd nodes \<Rightarrow> u64 ref \<Rightarrow> (int \<times> ptr \<times> ptr \<times> u64 ref) option \<Rightarrow> bool" where
  "found data xs position res \<longleftrightarrow>
     (let L = rank cmp data xs in
      \<exists>t. res = (if L < length xs
        then Some (cmp data (snd (xs ! L)), Ref (fst (xs ! L)), t, Ref (of_nat L))
        else Some (1, Ref (fst (xs ! (length xs - 1))), t, position)))"

lemma narrow_ok:
  assumes seg: "dseg (l_items l) NULL xs NULL" and dist: "distinct (map fst xs)"
    and sorted: "sorted_nodes cmp xs" and n: "length xs < 2 ^ 64" and l: "l_comparator l = cmp"
    and ij: "i < j" "j < length xs" "i \<le> rank cmp data xs \<or> cmp data (snd (xs ! i)) = 0"
  shows "found data xs (Ref (of_nat i))
    (linkedlist_narrow l (of_nat (Suc (j - i))) data (Ref (fst (xs ! i))) (Ref (fst (xs ! j)))
      (Ref (of_nat i)))"
proof -
  let ?h = "l_items l" and ?L = "rank cmp data xs"
  have ne: "fst (xs ! i) \<noteq> fst (xs ! j)"
    using dist ij by (auto simp: distinct_conv_nth)
  from narrow_loop_ok [OF seg dist sorted n ij] obtain r t c where
    loop: "narrow_loop ?h cmp data (Ref (fst (xs ! i))) (Ref (fst (xs ! j))) (of_nat (Suc (j - i)))
        (of_nat i) = Some (Ref (fst (xs ! r)), t, of_nat r, c)"
    and r: "r < length xs" "c = 0 \<and> cmp data (snd (xs ! r)) = 0 \<or> c = - 1 \<and> r \<le> ?L"
    by (auto simp: narrowed_def nloop_def)
  note left = narrow_left_ok [OF seg sorted n]
  note item = dseg_next [OF seg r(1)] and less = rank_less_iff [OF sorted r(1), of data]
  note simps = found_def linkedlist_narrow_def l Let_def ne loop set_position_def
  show ?thesis
  proof (cases "cmp data (snd (xs ! r)) = 0")
    case True
    then have L: "?L \<le> r" "?L < length xs" "cmp data (snd (xs ! ?L)) = 0"
      using less r equal_between [OF sorted r(1) True, of ?L] by auto
    show ?thesis
    proof (cases "?L = 0")
      case zero: True
      then have "cmp data (snd (xs ! 0)) = 0" "0 < length xs" using L by simp_all
      then show ?thesis
        using left [OF r(1) True] left [of 0] narrow_right_ok [OF seg sorted, of 0 data]
          dseg_next [OF seg, of 0] zero L r item True
        by (auto simp: simps simp del: of_nat_Suc)
    next
      case False
      then show ?thesis
        using left [OF r(1) True] L r item True by (auto simp: simps simp del: of_nat_Suc)
    qed
  next
    case False
    then have rL: "r \<le> ?L" "c = - 1" using r(2) by auto
    consider (lt) "cmp data (snd (xs ! r)) = - 1" "?L = r" | (gt) "cmp data (snd (xs ! r)) = 1"
      using False less cmp_range [of data "snd (xs ! r)"] rL by force
    then show ?thesis
    proof cases
      case lt
      then show ?thesis using item r rL by (simp add: simps del: of_nat_Suc)
    next
      case gt
      then show ?thesis
        using item r rL narrow_right_ok [OF seg sorted rL(1) r(1)] by (simp add: simps del: of_nat_Suc)
    qed
  qed
qed

lemma insert_sorted_nodes:
  assumes sorted: "sorted_nodes cmp xs"
  shows "sorted_nodes cmp (take (rank cmp d xs) xs @ (a, d) # drop (rank cmp d xs) xs)"
proof -
  let ?L = "rank cmp d xs"
  have before: "cmp (snd x) d \<le> 0" if "x \<in> set (take ?L xs)" for x
  proof -
    from that obtain k where "k < ?L" "x = xs ! k" by (auto simp: in_set_conv_nth)
    then have "cmp d (snd x) = 1" using rank_less_iff [OF sorted, of k d] rank_le [of cmp d xs] by simp
    then show ?thesis using cmp_flip [of d "snd x"] by simp
  qed
  have after: "cmp d (snd x) \<le> 0" if "x \<in> set (drop ?L xs)" for x
  proof -
    from that obtain k where "k < length xs - ?L" "x = xs ! (?L + k)" by (auto simp: in_set_conv_nth)
    then have "cmp d (snd x) \<noteq> 1" using rank_less_iff [OF sorted, of "?L + k" d] by simp
    then show ?thesis using cmp_range [of d "snd x"] by auto
  qed
  have "sorted_wrt (\<lambda>x y. cmp (snd x) (snd y) \<le> 0) (take ?L xs @ drop ?L xs)"
    using sorted by (simp add: sorted_nodes_def)
  then show ?thesis
    using before after unfolding sorted_nodes_def sorted_wrt_append by auto
qed

text \<open>The two halves sorted insertion and lookup choose between.\<close>

lemma search_left:
  assumes seg: "dseg (l_items l) NULL xs NULL" and dist: "distinct (map fst xs)"
    and sorted: "sorted_nodes cmp xs" and n: "length xs < 2 ^ 64" and l: "l_comparator l = cmp"
    and k: "k < length xs" "cmp data (snd (xs ! k)) \<le> 0"
  shows "found data xs (Ref 0)
    (linkedlist_narrow l (of_nat k + 1) data (Ref (fst (xs ! 0))) (Ref (fst (xs ! k))) (Ref 0))"
proof (cases "k = 0")
  case True
  with k rank_less_iff [OF sorted k(1), of data] have "rank cmp data xs = 0" by auto
  with True k dseg_next [OF seg k(1)] show ?thesis
    by (auto simp: found_def linkedlist_narrow_def l Let_def)
next
  case False
  then show ?thesis
    using narrow_ok [OF seg dist sorted n l, of 0 k data] k by (simp add: add.commute)
qed

lemma search_right:
  assumes seg: "dseg (l_items l) NULL xs NULL" and dist: "distinct (map fst xs)"
    and sorted: "sorted_nodes cmp xs" and n: "length xs < 2 ^ 64" and l: "l_comparator l = cmp"
    and k: "Suc k < length xs" "cmp data (snd (xs ! k)) \<ge> 0"
  shows "found data xs (Ref (of_nat k))
    (linkedlist_narrow l (of_nat (length xs) - of_nat k) data (Ref (fst (xs ! k)))
      (Ref (fst (xs ! (length xs - 1)))) (Ref (of_nat k)))"
proof -
  have "k \<le> rank cmp data xs \<or> cmp data (snd (xs ! k)) = 0"
    using k rank_less_iff [OF sorted, of k data] cmp_range [of data "snd (xs ! k)"] by auto
  moreover have "of_nat (Suc (length xs - 1 - k)) = (of_nat (length xs) - of_nat k :: u64)"
    using k by (simp add: of_nat_diff)
  ultimately show ?thesis
    using narrow_ok [OF seg dist sorted n l, of k "length xs - 1" data] k by simp
qed

lemma search_last:
  assumes "dseg (l_items l) NULL xs NULL" "sorted_nodes cmp xs" "l_comparator l = cmp"
    and "length xs = Suc k" "cmp data (snd (xs ! k)) = 1"
  shows "found data xs (Ref p)
    (linkedlist_narrow l s data (Ref (fst (xs ! k))) (Ref (fst (xs ! k))) (Ref p))"
proof -
  have "rank cmp data xs = length xs"
    using rank_less_iff [OF assms(2), of k data] assms rank_le [of cmp data xs] by simp
  then show ?thesis
    using assms dseg_next [OF assms(1), of k] by (auto simp: found_def linkedlist_narrow_def)
qed

lemma insert_search:
  assumes seg: "dseg (l_items l) NULL xs NULL" and dist: "distinct (map fst xs)"
    and sorted: "sorted_nodes cmp xs" and n: "length xs < 2 ^ 64" and l: "l_comparator l = cmp"
    and k: "k < length xs" and ptrs: "l_head l = Ref (fst (xs ! 0))" "l_middle l = Ref (fst (xs ! k))"
      "l_tail l = Ref (fst (xs ! (length xs - 1)))" "l_middle_position l = of_nat k"
      "l_item_count l = of_nat (length xs)"
  shows "\<exists>p. found data xs p
    (if cmp data (snd (xs ! k)) \<le> 0
     then linkedlist_narrow l (l_middle_position l + 1) data (l_head l) (l_middle l) (Ref 0)
     else linkedlist_narrow l (l_item_count l - l_middle_position l) data (l_middle l)
            (l_tail l) (Ref (l_middle_position l)))"
proof (cases "cmp data (snd (xs ! k)) \<le> 0")
  case True
  then show ?thesis
    using search_left [OF seg dist sorted n l k] by (auto simp: ptrs)
next
  case False
  then have one: "cmp data (snd (xs ! k)) = 1" using cmp_range [of data "snd (xs ! k)"] by auto
  show ?thesis
  proof (cases "Suc k < length xs")
    case True
    then show ?thesis
      using search_right [OF seg dist sorted n l True, of data] one by (auto simp: ptrs)
  next
    case False
    with k have last: "length xs = Suc k" by simp
    then have "length xs - 1 = k" by simp
    with search_last [OF seg sorted l last one] one show ?thesis
      unfolding ptrs by (auto simp del: of_nat_Suc)
  qed
qed

text \<open>The new item ends up before the item narrowing found, or at the end.\<close>

lemma link_sorted:
  assumes ch: "chain_ok (l_items l) (l_head l) (l_tail l) xs" and ne: "xs \<noteq> []"
    and fresh: "l_items l a = None" and sorted: "sorted_nodes cmp xs"
    and l0: "l0 = l\<lparr>l_locked := True,
      l_items := (l_items l)(a \<mapsto> \<lparr>li_data = d, li_next = NULL, li_previous = NULL\<rparr>)\<rparr>"
    and found: "found d xs p (Some (c_res, cur, t, result))"
    and count: "l_item_count l = of_nat (length xs)"
  shows "\<exists>l1. place_sorted l0 (Ref a) cur c_res result = Some (l1, of_nat (rank cmp d xs)) \<and>
    same_middle l0 l1 \<and>
    chain_ok (l_items l1) (l_head l1) (l_tail l1)
      (take (rank cmp d xs) xs @ (a, d) # drop (rank cmp d xs) xs)"
proof -
  let ?L = "rank cmp d xs"
  have seg: "dseg (l_items l0) NULL xs NULL"
    using ch chain_fresh [OF ch fresh] by (simp add: chain_ok_def l0)
  show ?thesis
  proof (cases "?L < length xs")
    case True
    have res: "c_res = cmp d (snd (xs ! ?L))" "cur = Ref (fst (xs ! ?L))" "result = Ref (of_nat ?L)"
      using found True by (simp_all add: found_def Let_def)
    have c: "c_res \<noteq> 1" using rank_less_iff [OF sorted True, of d] res by simp
    have split: "xs = take ?L xs @ (fst (xs ! ?L), snd (xs ! ?L)) # drop (Suc ?L) xs"
      using split_at [OF True] by simp
    have ch': "chain_ok (l_items l) (l_head l0) (l_tail l0)
        (take ?L xs @ (fst (xs ! ?L), snd (xs ! ?L)) # drop (Suc ?L) xs)"
      using ch split by (simp add: l0)
    have drop: "drop ?L xs = (fst (xs ! ?L), snd (xs ! ?L)) # drop (Suc ?L) xs"
      using True by (simp add: Cons_nth_drop_Suc)
    have items: "l_items l0 = (l_items l)(a \<mapsto> \<lparr>li_data = d, li_next = NULL, li_previous = NULL\<rparr>)"
      by (simp add: l0)
    note link = link_before_ok [OF ch' fresh items]
    show ?thesis
      using link c res dseg_next [OF seg True] unfolding drop by (auto simp: place_sorted_def)
  next
    case False
    then have L: "?L = length xs" using rank_le [of cmp d xs] by linarith
    have res: "c_res = 1" "cur = Ref (fst (xs ! (length xs - 1)))"
      using found L by (simp_all add: found_def Let_def)
    have "length xs - 1 < length xs" using ne by simp
    from dseg_next [OF seg this] obtain ci where
      ci: "deref (l_items l0) cur = Some ci" "li_next ci = NULL"
      using ne by (auto simp: res)
    from link_after_tail [OF ch ne fresh refl, of d] obtain h2 h3 where
      h: "set_next (l_items l0) (l_tail l) (Ref a) = Some h3"
        "set_previous h3 (Ref a) (l_tail l) = Some h2"
        "chain_ok h2 (l_head l) (Ref a) (xs @ [(a, d)])"
      by (auto simp: l0)
    then show ?thesis
      using ci res L count
      by (simp add: place_sorted_def l0 same_middle_def same_config_def)
  qed
qed

lemma insert_at_sorted_eq:
  assumes "deref (l_items l0) (l_middle l0) = Some m" "l_comparator l0 d (li_data m) \<le> 0 \<longleftrightarrow> before"
    and "(if before
      then linkedlist_narrow l0 (l_middle_position l0 + 1) d (l_head l0) (l_middle l0) (Ref 0)
      else linkedlist_narrow l0 (l_item_count l0 - l_middle_position l0) d (l_middle l0)
            (l_tail l0) (Ref (l_middle_position l0))) = Some (c_res, cur, t, result)"
    and "place_sorted l0 item cur c_res result = Some (l1, pos)"
  shows "insert_at_sorted l0 item d = rebalance (if before
      then l1\<lparr>l_middle_position := l_middle_position l1 + 1, l_balance := l_balance l1 - 1\<rparr>
      else l1\<lparr>l_balance := l_balance l1 + 1\<rparr>) \<bind> (\<lambda>l'. Some (l', pos))"
  using assms unfolding insert_at_sorted_def by (cases before) simp_all

lemma insert_at_sorted_ok:
  assumes inv: "list_inv l xs 0" and fresh: "fresh_in l a" and len: "Suc (length xs) < 2 ^ 64"
    and cmp: "l_comparator l = cmp" and sorted: "sorted_nodes cmp xs"
  shows "\<exists>l'. linkedlist_insert_at ix (Ref a) l d LIST_INSERT_AT_SORTED pos =
      Some (l', of_nat (rank cmp d xs)) \<and>
    op_ok l l' (take (rank cmp d xs) xs @ (a, d) # drop (rank cmp d xs) xs) 0"
proof (cases "xs = []")
  case True
  with inv show ?thesis by (simp add: insert_into_empty rank_def)
next
  case False
  let ?L = "rank cmp d xs"
  define us vs where "us = take ?L xs" and "vs = drop ?L xs"
  have xs: "xs = us @ vs" and us: "length us = ?L" by (simp_all add: us_def vs_def)
  from inv False obtain k where
    mid: "middle_at (l_middle l) (l_middle_position l) (l_balance l) (us @ vs) 0 k"
      "\<bar>int (length (us @ vs)) - 1 - 2 * int k + 0\<bar> \<le> 1" "\<bar>0\<bar> \<le> (1 :: int)"
    and ch: "chain_ok (l_items l) (l_head l) (l_tail l) (us @ vs)"
    and count: "l_item_count l = of_nat (length (us @ vs))"
    unfolding xs [symmetric] by (rule list_invE)
  note rb = rebalance_insert [OF mid count, where x = "(a, d)"]
  let ?h = "(l_items l)(a \<mapsto> \<lparr>li_data = d, li_next = NULL, li_previous = NULL\<rparr>)"
  let ?l = "l\<lparr>l_locked := True, l_items := ?h\<rparr>"
  have seg: "dseg ?h NULL xs NULL" and dist: "distinct (map fst xs)" and k: "k < length xs"
    using ch chain_fresh [OF ch] fresh mid(1)
    by (simp_all add: chain_ok_def fresh_in_def xs image_Un middle_at_def)
  have ptrs: "l_head l = Ref (fst (xs ! 0))" "l_middle l = Ref (fst (xs ! k))"
      "l_tail l = Ref (fst (xs ! (length xs - 1)))" "l_middle_position l = of_nat k"
      "l_item_count l = of_nat (length xs)"
    using ch mid(1) count False unfolding xs [symmetric]
    by (simp_all add: chain_ok_def middle_at_def first_neq_NULL final_neq_NULL hd_conv_nth last_conv_nth)
  define before where "before = (cmp d (snd (xs ! k)) \<le> 0)"
  have before: "before \<longleftrightarrow> length us \<le> k"
    using rank_less_iff [OF sorted k, of d] cmp_range [of d "snd (xs ! k)"] us
    by (auto simp: before_def)
  have "\<exists>p. found d xs p (if before
     then linkedlist_narrow ?l (l_middle_position l + 1) d (l_head l) (l_middle l) (Ref 0)
     else linkedlist_narrow ?l (l_item_count l - l_middle_position l) d (l_middle l)
            (l_tail l) (Ref (l_middle_position l)))" (is "\<exists>p. found d xs p ?res")
    using insert_search [of ?l xs k d] seg dist sorted len cmp k ptrs
    by (simp add: before_def cong: if_cong)
  then obtain p where found: "found d xs p ?res" by blast
  then obtain c_res cur t result where res: "?res = Some (c_res, cur, t, result)"
    by (auto simp: found_def Let_def split: if_splits)
  from link_sorted [OF ch [folded xs] False _ sorted refl found [unfolded res] ptrs(5), of a] fresh
  obtain l1 where link: "place_sorted ?l (Ref a) cur c_res result = Some (l1, of_nat ?L)"
    "same_middle ?l l1" "chain_ok (l_items l1) (l_head l1) (l_tail l1) (us @ (a, d) # vs)"
    by (auto simp: fresh_in_def us_def vs_def)
  let ?l2 = "if before
    then l1\<lparr>l_middle_position := l_middle_position l1 + 1, l_balance := l_balance l1 - 1\<rparr>
    else l1\<lparr>l_balance := l_balance l1 + 1\<rparr>"
  obtain m where m: "deref (l_items ?l) (l_middle ?l) = Some m" "li_data m = snd (xs ! k)"
    using dseg_next [OF seg k] ptrs(2) by auto
  have "insert_at_sorted ?l (Ref a) d = rebalance ?l2 \<bind> (\<lambda>l'. Some (l', of_nat ?L))"
    by (rule insert_at_sorted_eq [OF m(1) _ _ link(1), where before = before and t = t])
      (use m(2) cmp res in \<open>simp_all add: before_def cong: if_cong\<close>)
  moreover have "\<exists>l3. rebalance ?l2 = Some l3 \<and>
      op_ok l (l3\<lparr>l_item_count := l_item_count l3 + 1, l_locked := False\<rparr>) (us @ (a, d) # vs) 0"
    using link before len by (intro rb) (auto simp: same_middle_def same_config_def xs)
  ultimately show ?thesis
    using ptrs(1) by (auto simp: linkedlist_insert_at_def us_def vs_def)
qed

lemma equal_at_rank:
  assumes sorted: "sorted_nodes cmp xs" and eq: "\<exists>x \<in> set xs. cmp data (snd x) = 0"
  shows "rank cmp data xs < length xs \<and> cmp data (snd (xs ! rank cmp data xs)) = 0"
proof -
  from eq obtain j where j: "j < length xs" "cmp data (snd (xs ! j)) = 0"
    by (auto simp: in_set_conv_nth)
  with rank_less_iff [OF sorted j(1), of data] have "rank cmp data xs \<le> j" by auto
  with equal_between [OF sorted j, of "rank cmp data xs"] j show ?thesis by simp
qed

definition position_of :: "'d ref \<Rightarrow> 'd nodes \<Rightarrow> int \<Rightarrow> u64 ref \<Rightarrow> bool" where
  "position_of data xs c pos \<longleftrightarrow>
     (c = 0 \<longleftrightarrow> (\<exists>x \<in> set xs. cmp data (snd x) = 0)) \<and>
     (c = 0 \<longrightarrow> (\<exists>j < length xs. pos = Ref (of_nat j) \<and> cmp data (snd (xs ! j)) = 0))"

lemma found_position:
  assumes "sorted_nodes cmp xs" "found data xs p res"
  shows "\<exists>c h t pos. res = Some (c, h, t, pos) \<and> position_of data xs c pos"
proof (cases "rank cmp data xs < length xs")
  case True
  with assms(2) obtain t where "res = Some (cmp data (snd (xs ! rank cmp data xs)),
      Ref (fst (xs ! rank cmp data xs)), t, Ref (of_nat (rank cmp data xs)))"
    by (auto simp: found_def Let_def)
  with equal_at_rank [OF assms(1), of data] True show ?thesis
    by (auto simp: position_of_def)
next
  case False
  with assms(2) obtain t where "res = Some (1, Ref (fst (xs ! (length xs - 1))), t, p)"
    by (auto simp: found_def Let_def)
  with equal_at_rank [OF assms(1), of data] False show ?thesis
    by (auto simp: position_of_def)
qed

lemma get_position_sorted_ok:
  assumes inv: "list_inv l xs 0" and ne: "xs \<noteq> []" and ty: "l_type l = LIST_TYPE_SORTEDLIST"
    and cmp: "l_comparator l = cmp" "l_equality_comparator l = None" and sorted: "sorted_nodes cmp xs"
  shows "\<exists>c pos. linkedlist_get_position l data (Ref p0) = Some (c, pos) \<and> position_of data xs c pos"
proof -
  from inv ne obtain k where
    mid: "middle_at (l_middle l) (l_middle_position l) (l_balance l) xs 0 k"
    and ch: "chain_ok (l_items l) (l_head l) (l_tail l) xs"
    and n: "l_item_count l = of_nat (length xs)" "length xs < 2 ^ 64"
    by (rule list_invE)
  have seg: "dseg (l_items l) NULL xs NULL" and dist: "distinct (map fst xs)" and k: "k < length xs"
    and ptrs: "l_head l = Ref (fst (xs ! 0))" "l_middle l = Ref (fst (xs ! k))"
      "l_tail l = Ref (fst (xs ! (length xs - 1)))" "l_middle_position l = of_nat k"
    using ch mid ne
    by (simp_all add: chain_ok_def middle_at_def first_neq_NULL final_neq_NULL hd_conv_nth last_conv_nth)
  have count: "l_item_count l \<noteq> 0"
    using n ne of_nat64_eq [of "length xs" 0] by simp
  let ?res = "if cmp data (snd (xs ! k)) < 0
    then linkedlist_narrow l (of_nat k + 1) data (Ref (fst (xs ! 0))) (Ref (fst (xs ! k))) (Ref 0)
    else linkedlist_narrow l (of_nat (length xs) - of_nat k) data (Ref (fst (xs ! k)))
      (Ref (fst (xs ! (length xs - 1)))) (Ref (of_nat k))"
  have eq: "linkedlist_get_position l data (Ref p0) = ?res \<bind> (\<lambda>(c, _, _, pos). Some (c, pos))"
    using dseg_next [OF seg k] ty cmp count
    by (simp add: linkedlist_get_position_def set_position_def ptrs n(1) Let_def)
  have "\<exists>c h t pos. ?res = Some (c, h, t, pos) \<and> position_of data xs c pos"
  proof (cases "cmp data (snd (xs ! k)) < 0 \<or> Suc k < length xs")
    case True
    then have "\<exists>p. found data xs p ?res"
      using search_left [OF seg dist sorted n(2) cmp(1) k, of data]
        search_right [OF seg dist sorted n(2) cmp(1), of k data] by auto
    then show ?thesis using found_position [OF sorted] by blast
  next
    case False
    then have last: "length xs - 1 = k" "\<not> cmp data (snd (xs ! k)) < 0" using k by auto
    have "position_of data xs (cmp data (snd (xs ! k))) (Ref (of_nat k))"
    proof (cases "cmp data (snd (xs ! k)) = 0")
      case True
      with k show ?thesis by (auto simp: position_of_def)
    next
      case False
      with last rank_less_iff [OF sorted k, of data] cmp_range [of data "snd (xs ! k)"]
      have "\<not> rank cmp data xs < length xs" by linarith
      with equal_at_rank [OF sorted, of data] False show ?thesis
        unfolding position_of_def by blast
    qed
    then show ?thesis
      using last dseg_next [OF seg k] by (simp add: linkedlist_narrow_def cmp Let_def)
  qed
  with eq show ?thesis by auto
qed

end

end
