(* ===== verification/ArrayList.thy ===== *)
theory ArrayList
  imports LinkedList
begin

text \<open>
  The array list of \<open>cc/lib/list_array.64.c\<close>: a ring of payloads with a head index. Its
  insertion, deletion, duplication and iterator are not implemented in the code and only
  report failure. An index outside the item array or a remainder by zero has no value.
\<close>

subsection \<open>Data and operations\<close>

record ('d, 'i) arraylist_t =
  al_type :: u32
  al_locked :: bool
  al_comparator :: "'d comparator option"
  al_equality_comparator :: "'d comparator option"
  al_item_count :: u64
  al_indexer :: 'i
  al_capacity :: u64
  al_head :: u64
  al_tail :: u64
  al_items :: "'d ref list"

definition item_at :: "'d ref list \<Rightarrow> u64 \<Rightarrow> 'd ref option" where
  "item_at items i = (if unat i < length items then Some (items ! unat i) else None)"

definition remainder :: "u64 \<Rightarrow> u64 \<Rightarrow> u64 option" where
  "remainder a b = (if b = 0 then None else Some (a mod b))"

text \<open>\<open>list_ok\<close> and \<open>items_ok\<close> say whether the two allocations succeed.\<close>

definition arraylist_create_with_type ::
  "'d comparator \<Rightarrow> bool \<Rightarrow> bool \<Rightarrow> u32 \<Rightarrow> 'd comparator option \<Rightarrow> 'i \<Rightarrow> ('d, 'i) arraylist_t ref" where
  "arraylist_create_with_type list_default_data_comparator list_ok items_ok ty comparator indexer =
     (if \<not> list_ok then NULL
      else if \<not> items_ok then NULL
      else Ref
        \<lparr>al_type = ty, al_locked = False,
         al_comparator = (if ty AND LIST_TYPE_SORTEDLIST \<noteq> 0 \<and> comparator = None
                          then Some list_default_data_comparator else comparator),
         al_equality_comparator = None, al_item_count = 0, al_indexer = indexer,
         al_capacity = 128, al_head = 127, al_tail = 127, al_items = replicate 128 NULL\<rparr>)"

text \<open>The copying loop: \<open>i\<close> counts up to \<open>item_count\<close>, \<open>idx\<close> runs round the old ring.\<close>

function copy_items ::
  "'d ref list \<Rightarrow> u64 \<Rightarrow> u64 \<Rightarrow> u64 \<Rightarrow> u64 \<Rightarrow> 'd ref list \<Rightarrow> 'd ref list option" where
  "copy_items items capacity item_count i idx new_items =
     (if i < item_count then do {
        d \<leftarrow> item_at items idx;
        idx' \<leftarrow> remainder (idx + 1) capacity;
        (if unat i < length new_items
         then copy_items items capacity item_count (i + 1) idx' (new_items[unat i := d])
         else None)
      } else Some new_items)"
  by pat_completeness auto
termination
proof (relation "measure (\<lambda>(items, capacity, item_count, i, idx, new_items).
    unat item_count - unat i)", goal_cases)
  case (2 items capacity item_count i idx new_items d idx')
  then have "unat i < unat item_count" by (simp add: word_less_nat_alt)
  moreover have "unat item_count < 2 ^ 64" by simp
  ultimately have "unat (i + 1) = unat i + 1"
    by (intro unat_add_one) linarith
  with \<open>unat i < unat item_count\<close> show ?case by simp
qed simp

declare copy_items.simps [simp del]

definition arraylist_set_capacity ::
  "bool \<Rightarrow> ('d, 'i) arraylist_t \<Rightarrow> u64 \<Rightarrow> (('d, 'i) arraylist_t \<times> int) option" where
  "arraylist_set_capacity ok l capacity =
     (if capacity < al_capacity l \<or> capacity = 0 then Some (l, - 1)
      else if \<not> ok then Some (l, - 1)
      else do {
        new_items \<leftarrow> copy_items (al_items l) (al_capacity l) (al_item_count l) 0 (al_head l)
                      (replicate (unat capacity) NULL);
        Some (l\<lparr>al_items := new_items, al_capacity := capacity, al_head := 0,
                al_tail := al_item_count l, al_locked := False\<rparr>, 0)
      })"

text \<open>The payloads handed to the destroyer, in order.\<close>

definition arraylist_destroy_with_type ::
  "('d, 'i) arraylist_t \<Rightarrow> list_destroy_type_t \<Rightarrow> 'd ref list \<times> u8" where
  "arraylist_destroy_with_type l ty =
     (if ty = LIST_DESTROY_WITH_DATA
      then filter (\<lambda>d. d \<noteq> NULL) (take (unat (al_capacity l)) (al_items l)) else [], 0)"

definition arraylist_get_data_at_position :: "('d, 'i) arraylist_t \<Rightarrow> u64 \<Rightarrow> 'd ref option" where
  "arraylist_get_data_at_position l position =
     (if position \<ge> al_item_count l then Some NULL
      else do {
        position' \<leftarrow> remainder (al_head l + position) (al_capacity l);
        item_at (al_items l) position'
      })"

text \<open>The search loop; a null comparator is not called safely.\<close>

function find_item ::
  "('d, 'i) arraylist_t \<Rightarrow> 'd ref \<Rightarrow> u64 \<Rightarrow> u64 \<Rightarrow> u64 ref \<Rightarrow> (int \<times> u64 ref) option" where
  "find_item l data i idx position =
     (if i < al_item_count l then do {
        cmp \<leftarrow> al_comparator l;
        d \<leftarrow> item_at (al_items l) idx;
        (if cmp data d = 0 then Some (0, Ref idx)
         else do {
           idx' \<leftarrow> remainder (idx + 1) (al_capacity l);
           find_item l data (i + 1) idx' position
         })
      } else Some (- 1, position))"
  by pat_completeness auto
termination
proof (relation "measure (\<lambda>(l, data, i, idx, position). unat (al_item_count l) - unat i)", goal_cases)
  case (2 l data i idx position cmp d idx')
  then have "unat i < unat (al_item_count l)" by (simp add: word_less_nat_alt)
  moreover have "unat (al_item_count l) < 2 ^ 64" by simp
  ultimately have "unat (i + 1) = unat i + 1"
    by (intro unat_add_one) linarith
  with \<open>unat i < unat (al_item_count l)\<close> show ?case by simp
qed simp

declare find_item.simps [simp del]

definition arraylist_get_position ::
  "('d, 'i) arraylist_t \<Rightarrow> 'd ref \<Rightarrow> u64 ref \<Rightarrow> (int \<times> u64 ref) option" where
  "arraylist_get_position l data position =
     (if data = NULL \<or> position = NULL then Some (- 1, position)
      else find_item l data 0 (al_head l) position)"

definition arraylist_insert_at ::
  "('d, 'i) arraylist_t \<Rightarrow> 'd ref \<Rightarrow> list_insert_delete_at_t \<Rightarrow> u64 \<Rightarrow> ('d, 'i) arraylist_t \<times> u64" where
  "arraylist_insert_at l data where position = (l, - 1)"

definition arraylist_delete_at ::
  "('d, 'i) arraylist_t \<Rightarrow> 'd ref \<Rightarrow> list_insert_delete_at_t \<Rightarrow> u64 \<Rightarrow> ('d, 'i) arraylist_t \<times> 'd ref" where
  "arraylist_delete_at l data where position = (l, NULL)"

definition arraylist_duplicate_list_with_heap :: "('d, 'i) arraylist_t \<Rightarrow> ('d, 'i) arraylist_t ref" where
  "arraylist_duplicate_list_with_heap l = NULL"

definition arraylist_iterator_create ::
  "('d, 'i) arraylist_t \<Rightarrow> linkedlist_iterator_internal_t ref" where
  "arraylist_iterator_create l = NULL"

subsection \<open>The ring\<close>

definition ring_ok :: "('d, 'i) arraylist_t \<Rightarrow> bool" where
  "ring_ok l \<longleftrightarrow>
     0 < al_capacity l \<and> unat (al_capacity l) \<le> 2 ^ 63 \<and>
     length (al_items l) = unat (al_capacity l) \<and> al_head l < al_capacity l \<and>
     al_item_count l \<le> al_capacity l"

definition ring_index :: "('d, 'i) arraylist_t \<Rightarrow> nat \<Rightarrow> nat" where
  "ring_index l i = (unat (al_head l) + i) mod unat (al_capacity l)"

definition ring_contents :: "('d, 'i) arraylist_t \<Rightarrow> 'd ref list" where
  "ring_contents l =
     map (\<lambda>i. al_items l ! ring_index l i) [0..<unat (al_item_count l)]"

lemma remainder_of_nat:
  assumes "a < 2 ^ 64" "b \<noteq> 0"
  shows "remainder (of_nat a) b = Some (of_nat (a mod unat b))"
proof -
  have "unat ((of_nat a :: u64) mod b) = a mod unat b"
    using assms(1) by (simp add: unat_mod)
  also have "\<dots> = unat (of_nat (a mod unat b) :: u64)"
    using order.strict_trans1 [OF mod_less_eq_dividend assms(1)] by (intro unat_of_nat64 [symmetric]) simp
  finally have "(of_nat a :: u64) mod b = of_nat (a mod unat b)"
    by (simp only: word_unat_eq_iff)
  with assms(2) show ?thesis by (simp add: remainder_def)
qed

lemma ring_index_less: "ring_ok l \<Longrightarrow> ring_index l i < unat (al_capacity l)"
  by (simp add: ring_ok_def ring_index_def word_less_nat_alt)

lemma ring_index_bound: "ring_ok l \<Longrightarrow> ring_index l i < 2 ^ 63"
  using ring_index_less [of l i] by (simp add: ring_ok_def)

lemma ring_index_Suc:
  assumes "ring_ok l"
  shows "remainder (1 + of_nat (ring_index l i)) (al_capacity l) = Some (of_nat (ring_index l (Suc i)))"
proof -
  have "1 + of_nat (ring_index l i) = (of_nat (Suc (ring_index l i)) :: u64)" by simp
  moreover have "Suc (ring_index l i) mod unat (al_capacity l) = ring_index l (Suc i)"
    by (simp add: ring_index_def mod_Suc_eq)
  moreover have "Suc (ring_index l i) < 2 ^ 64"
    using ring_index_bound [OF assms, of i] by simp
  moreover have "al_capacity l \<noteq> 0" using assms by (auto simp: ring_ok_def)
  ultimately show ?thesis
    using remainder_of_nat [of "Suc (ring_index l i)" "al_capacity l"]
    by (simp del: of_nat_Suc)
qed

lemma item_at_ring:
  "ring_ok l \<Longrightarrow> item_at (al_items l) (of_nat (ring_index l i)) = Some (al_items l ! ring_index l i)"
  using ring_index_less [of l i] ring_index_bound [of l i] by (simp add: item_at_def ring_ok_def)

lemma copy_items_ok:
  assumes ok: "ring_ok l" and n: "n = unat (al_item_count l)"
  shows "i \<le> n \<Longrightarrow> n \<le> length new \<Longrightarrow>
    copy_items (al_items l) (al_capacity l) (al_item_count l) (of_nat i) (of_nat (ring_index l i)) new =
      Some (take i new @ map (\<lambda>j. al_items l ! ring_index l j) [i..<n] @ drop n new)"
proof (induction "n - i" arbitrary: i new)
  case 0
  then show ?case by (subst copy_items.simps) (simp add: n)
next
  case (Suc m)
  have i: "i < n" "m = n - Suc i" using Suc.hyps(2) by auto
  have i64: "i < 18446744073709551616"
    using i(1) n unat_lt64 [of "al_item_count l"] by linarith
  then have less: "of_nat i < al_item_count l"
    using i n by (simp add: word_less_nat_alt)
  let ?new = "new[i := al_items l ! ring_index l i]"
  have "copy_items (al_items l) (al_capacity l) (al_item_count l) (of_nat i) (of_nat (ring_index l i)) new =
      copy_items (al_items l) (al_capacity l) (al_item_count l) (of_nat (Suc i))
        (of_nat (ring_index l (Suc i))) ?new"
    using i i64 less Suc.prems ok
    by (subst copy_items.simps) (simp add: item_at_ring ring_index_Suc add.commute)
  also have "\<dots> = Some (take (Suc i) ?new @ map (\<lambda>j. al_items l ! ring_index l j) [Suc i..<n] @ drop n ?new)"
    using Suc.hyps(1) [OF i(2), of ?new] Suc.prems i by simp
  also have "take (Suc i) ?new @ map (\<lambda>j. al_items l ! ring_index l j) [Suc i..<n] @ drop n ?new =
      take i new @ map (\<lambda>j. al_items l ! ring_index l j) [i..<n] @ drop n new"
    using i Suc.prems by (simp add: upt_conv_Cons take_Suc_conv_app_nth)
  finally show ?case .
qed

lemma ring_index_0 [simp]: "ring_ok l \<Longrightarrow> ring_index l 0 = unat (al_head l)"
  by (simp add: ring_ok_def ring_index_def word_less_nat_alt)

lemma set_capacity_ok:
  assumes ok: "ring_ok l" and cap: "al_capacity l \<le> capacity" "unat capacity \<le> 2 ^ 63"
  shows "\<exists>l'. arraylist_set_capacity True l capacity = Some (l', 0) \<and> ring_ok l' \<and>
    ring_contents l' = ring_contents l \<and> al_capacity l' = capacity"
proof -
  let ?n = "unat (al_item_count l)"
  have le: "?n \<le> unat capacity"
    using ok cap(1) by (auto simp: ring_ok_def word_le_nat_alt)
  have pos: "0 < unat (al_capacity l)" "\<not> (capacity < al_capacity l \<or> capacity = 0)"
    using ok cap(1) by (auto simp: ring_ok_def word_less_nat_alt word_le_nat_alt)
  let ?new = "map (\<lambda>j. al_items l ! ring_index l j) [0..<?n] @ drop ?n (replicate (unat capacity) NULL)"
  have "copy_items (al_items l) (al_capacity l) (al_item_count l) 0 (al_head l)
      (replicate (unat capacity) NULL) = Some ?new"
    using copy_items_ok [OF ok refl, of 0 "replicate (unat capacity) NULL"] le ok by simp
  then have eq: "arraylist_set_capacity True l capacity =
      Some (l\<lparr>al_items := ?new, al_capacity := capacity, al_head := 0,
              al_tail := al_item_count l, al_locked := False\<rparr>, 0)" (is "_ = Some (?l', 0)")
    using pos by (simp add: arraylist_set_capacity_def)
  have "ring_ok ?l'"
    using ok cap pos le by (auto simp: ring_ok_def word_le_nat_alt word_less_nat_alt)
  moreover have "ring_contents ?l' = ring_contents l"
    using le pos unfolding ring_contents_def
    by (auto simp: ring_index_def nth_append intro!: nth_equalityI)
  ultimately show ?thesis using eq by auto
qed

lemma array_get_data_ok:
  assumes ok: "ring_ok l" and p: "p < unat (al_item_count l)"
  shows "arraylist_get_data_at_position l (of_nat p) = Some (ring_contents l ! p)"
proof -
  have cap: "unat (al_item_count l) \<le> unat (al_capacity l)" "unat (al_capacity l) \<le> 9223372036854775808"
    "unat (al_head l) < unat (al_capacity l)" "al_capacity l \<noteq> 0"
    using ok by (auto simp: ring_ok_def word_le_nat_alt word_less_nat_alt)
  have p64: "p < 18446744073709551616" "unat (al_head l) + p < 2 ^ 64"
    using p cap by simp_all
  from p64(1) have less: "\<not> of_nat p \<ge> al_item_count l"
    using p by (simp add: word_le_nat_alt)
  have "al_head l + of_nat p = of_nat (unat (al_head l) + p)" by simp
  with remainder_of_nat [OF p64(2) cap(4)] have
    "remainder (al_head l + of_nat p) (al_capacity l) = Some (of_nat (ring_index l p))"
    by (simp only: ring_index_def)
  with less item_at_ring [OF ok, of p] p show ?thesis
    by (simp add: arraylist_get_data_at_position_def ring_contents_def)
qed

lemma find_item_ok:
  assumes ok: "ring_ok l" and n: "n = unat (al_item_count l)" and cmp: "al_comparator l = Some cmp"
  shows "i \<le> n \<Longrightarrow> find_item l data (of_nat i) (of_nat (ring_index l i)) position =
    (case find (\<lambda>j. cmp data (ring_contents l ! j) = 0) [i..<n] of
       None \<Rightarrow> Some (- 1, position)
     | Some j \<Rightarrow> Some (0, Ref (of_nat (ring_index l j))))"
proof (induction "n - i" arbitrary: i)
  case 0
  then show ?case by (subst find_item.simps) (simp add: n)
next
  case (Suc m)
  have i: "i < n" "m = n - Suc i" using Suc.hyps(2) by auto
  have i64: "i < 18446744073709551616"
    using i(1) n unat_lt64 [of "al_item_count l"] by linarith
  then have less: "of_nat i < al_item_count l"
    using i n by (simp add: word_less_nat_alt)
  have nth: "ring_contents l ! i = al_items l ! ring_index l i"
    using i n by (simp add: ring_contents_def)
  show ?case
    using Suc.hyps(1) [OF i(2)] i less ok cmp nth
    by (subst find_item.simps)
      (simp add: item_at_ring ring_index_Suc add.commute upt_conv_Cons)
qed

lemma array_get_position_ok:
  assumes "ring_ok l" "al_comparator l = Some cmp" "data \<noteq> NULL"
  shows "arraylist_get_position l data (Ref p) =
    (case find (\<lambda>j. cmp data (ring_contents l ! j) = 0) [0..<unat (al_item_count l)] of
       None \<Rightarrow> Some (- 1, Ref p)
     | Some j \<Rightarrow> Some (0, Ref (of_nat (ring_index l j))))"
  using find_item_ok [OF assms(1) refl assms(2), of 0 data "Ref p"] assms
  by (simp add: arraylist_get_position_def)

end
