(* ===== verification/List_Dispatch.thy ===== *)
theory List_Dispatch
  imports LinkedList_Sorted ArrayList
begin

text \<open>
  The list interface of \<open>cc/lib/list.64.c\<close>: the null checks, the dispatch on the list type
  to the linked list or the array list, and the default comparator.
\<close>

subsection \<open>Comparators\<close>

text \<open>
  \<^verbatim>\<open>list_default_data_comparator\<close> compares what its two \<^verbatim>\<open>size_t*\<close> arguments point to;
  a payload is the value pointed to. Through a null pointer the result is unspecified.
\<close>

definition list_default_data_comparator :: "u64 comparator" where
  "list_default_data_comparator data1 data2 =
     (if ref_of data1 < ref_of data2 then - 1
      else if ref_of data1 > ref_of data2 then 1
      else 0)"

interpretation default_order: comparator_order list_default_data_comparator
  by unfold_locales (auto simp: list_default_data_comparator_def split: if_splits)

subsection \<open>The dispatch\<close>

datatype ('d, 'i) list_obj = Linked "('d, 'i) list_t" | Array "('d, 'i) arraylist_t"

fun obj_type :: "('d, 'i) list_obj \<Rightarrow> u32" where
  "obj_type (Linked l) = l_type l"
| "obj_type (Array l) = al_type l"

text \<open>
  The test the interface repeats: the linked list is the default. An object is read through
  the wrong structure when its constructor and its type disagree; that has no value.
\<close>

definition dispatch ::
  "('d, 'i) list_obj \<Rightarrow> (('d, 'i) list_t \<Rightarrow> 'r option) \<Rightarrow> (('d, 'i) arraylist_t \<Rightarrow> 'r option) \<Rightarrow> 'r option" where
  "dispatch obj linked array =
     (if obj_type obj AND LIST_TYPE_LINKED \<noteq> 0 then
        (case obj of Linked l \<Rightarrow> linked l | Array _ \<Rightarrow> None)
      else if obj_type obj AND LIST_TYPE_ARRAY \<noteq> 0 then
        (case obj of Linked _ \<Rightarrow> None | Array l \<Rightarrow> array l)
      else (case obj of Linked l \<Rightarrow> linked l | Array _ \<Rightarrow> None))"

text \<open>\<open>ok\<close> and \<open>items_ok\<close> say whether the allocations of the list and of an item array succeed.\<close>

definition list_create_with_type ::
  "'d comparator \<Rightarrow> bool \<Rightarrow> bool \<Rightarrow> u32 \<Rightarrow> 'd comparator option \<Rightarrow> 'i \<Rightarrow> ('d, 'i) list_obj ref" where
  "list_create_with_type def_cmp ok items_ok ty comparator indexer =
     (let linked = (if ok then Ref (Linked (linkedlist_create_with_type def_cmp ty comparator indexer))
                    else NULL) in
      if ty AND LIST_TYPE_LINKED \<noteq> 0 then linked
      else if ty AND LIST_TYPE_ARRAY \<noteq> 0 then
        (case arraylist_create_with_type def_cmp ok items_ok ty comparator indexer of
           NULL \<Rightarrow> NULL | Ref l \<Rightarrow> Ref (Array l))
      else linked)"

text \<open>The payloads handed to the destroyer and the return value.\<close>

definition list_destroy_with_type ::
  "('d, 'i) list_obj ref \<Rightarrow> list_destroy_type_t \<Rightarrow> ('d ref list \<times> u8) option" where
  "list_destroy_with_type list ty =
     (case list of NULL \<Rightarrow> Some ([], - 1)
      | Ref obj \<Rightarrow> dispatch obj
          (\<lambda>l. do { r \<leftarrow> linkedlist_destroy_with_type l ty; Some (snd r, 0) })
          (\<lambda>l. Some (arraylist_destroy_with_type l ty)))"

definition list_insert_at ::
  "('d, 'i) indexer_ops \<Rightarrow> ptr \<Rightarrow> ('d, 'i) list_obj ref \<Rightarrow> 'd ref \<Rightarrow> list_insert_delete_at_t \<Rightarrow> u64 \<Rightarrow>
   (('d, 'i) list_obj ref \<times> u64) option" where
  "list_insert_at ix item list data where position =
     (case list of NULL \<Rightarrow> Some (NULL, - 1)
      | Ref obj \<Rightarrow> dispatch obj
          (\<lambda>l. do {
             r \<leftarrow> linkedlist_insert_at ix item l data where position;
             Some (Ref (Linked (fst r)), snd r)
           })
          (\<lambda>l. let r = arraylist_insert_at l data where position in
               Some (Ref (Array (fst r)), snd r)))"

definition list_delete_at ::
  "('d, 'i) indexer_ops \<Rightarrow> bool \<Rightarrow> ('d, 'i) list_obj ref \<Rightarrow> 'd ref \<Rightarrow> list_insert_delete_at_t \<Rightarrow> u64 \<Rightarrow>
   (('d, 'i) list_obj ref \<times> 'd ref) option" where
  "list_delete_at ix ok list data where position =
     (case list of NULL \<Rightarrow> Some (NULL, NULL)
      | Ref obj \<Rightarrow> dispatch obj
          (\<lambda>l. do {
             r \<leftarrow> linkedlist_delete_at ix ok l data where position;
             Some (Ref (Linked (fst r)), snd r)
           })
          (\<lambda>l. let r = arraylist_delete_at l data where position in
               Some (Ref (Array (fst r)), snd r)))"

definition list_get_data_at_position :: "('d, 'i) list_obj ref \<Rightarrow> u64 \<Rightarrow> 'd ref option" where
  "list_get_data_at_position list position =
     (case list of NULL \<Rightarrow> Some NULL
      | Ref obj \<Rightarrow> dispatch obj
          (\<lambda>l. linkedlist_get_data_at_position l position)
          (\<lambda>l. arraylist_get_data_at_position l position))"

definition list_get_position ::
  "('d, 'i) list_obj ref \<Rightarrow> 'd ref \<Rightarrow> u64 ref \<Rightarrow> (int \<times> u64 ref) option" where
  "list_get_position list data position =
     (case list of NULL \<Rightarrow> Some (- 1, position)
      | Ref obj \<Rightarrow> dispatch obj
          (\<lambda>l. linkedlist_get_position l data position)
          (\<lambda>l. arraylist_get_position l data position))"

definition list_set_capacity ::
  "bool \<Rightarrow> ('d, 'i) list_obj ref \<Rightarrow> u64 \<Rightarrow> (('d, 'i) list_obj ref \<times> int) option" where
  "list_set_capacity ok list capacity =
     (case list of NULL \<Rightarrow> Some (NULL, - 1)
      | Ref obj \<Rightarrow>
          (if obj_type obj AND LIST_TYPE_ARRAY \<noteq> 0 then
             (case obj of Linked _ \<Rightarrow> None
              | Array l \<Rightarrow> do {
                  r \<leftarrow> arraylist_set_capacity ok l capacity;
                  Some (Ref (Array (fst r)), snd r)
                })
           else Some (list, - 2)))"

fun list_size :: "('d, 'i) list_obj ref \<Rightarrow> u64" where
  "list_size NULL = 0"
| "list_size (Ref (Linked l)) = l_item_count l"
| "list_size (Ref (Array l)) = al_item_count l"

definition list_set_comparator ::
  "('d, 'i) list_obj ref \<Rightarrow> 'd comparator \<Rightarrow> ('d, 'i) list_obj ref \<times> 'd comparator option" where
  "list_set_comparator list comparator =
     (case list of NULL \<Rightarrow> (NULL, None)
      | Ref (Linked l) \<Rightarrow> (Ref (Linked (l\<lparr>l_comparator := comparator\<rparr>)), Some (l_comparator l))
      | Ref (Array l) \<Rightarrow> (Ref (Array (l\<lparr>al_comparator := Some comparator\<rparr>)), al_comparator l))"

definition list_set_equality_comparator ::
  "('d, 'i) list_obj ref \<Rightarrow> 'd comparator option \<Rightarrow> ('d, 'i) list_obj ref \<times> int" where
  "list_set_equality_comparator list comparator =
     (case list of NULL \<Rightarrow> (NULL, - 1)
      | Ref (Linked l) \<Rightarrow> (Ref (Linked (l\<lparr>l_equality_comparator := comparator\<rparr>)), 0)
      | Ref (Array l) \<Rightarrow> (Ref (Array (l\<lparr>al_equality_comparator := comparator\<rparr>)), 0))"

text \<open>
  \<^verbatim>\<open>list_merge\<close> appends the items of \<open>list\<close> to \<open>self\<close> one position at a time; \<open>news\<close> is what
  the successive item allocations return.
\<close>

function merge_loop ::
  "('d, 'i) indexer_ops \<Rightarrow> ptr list \<Rightarrow> ('d, 'i) list_obj \<Rightarrow> u64 \<Rightarrow> ('d, 'i) list_obj ref \<Rightarrow>
   (('d, 'i) list_obj ref \<times> int) option" where
  "merge_loop ix news list i self =
     (if i < list_size (Ref list) then do {
        item \<leftarrow> list_get_data_at_position (Ref list) i;
        (if item = NULL then Some (self, - 1)
         else do {
           r \<leftarrow> list_insert_at ix (case news of [] \<Rightarrow> NULL | p # _ \<Rightarrow> p) self item LIST_INSERT_AT_TAIL 0;
           (if snd r = - 1 then Some (fst r, - 1)
            else merge_loop ix (tl news) list (i + 1) (fst r))
         })
      } else Some (self, 0))"
  by pat_completeness auto
termination
proof (relation "measure (\<lambda>(ix, news, list, i, self). unat (list_size (Ref list)) - unat i)", goal_cases)
  case (2 ix news list i self item r)
  then have "unat i < unat (list_size (Ref list))" by (simp add: word_less_nat_alt)
  moreover have "unat (list_size (Ref list)) < 2 ^ 64" by simp
  ultimately have "unat (i + 1) = unat i + 1"
    by (intro unat_add_one) linarith
  with \<open>unat i < unat (list_size (Ref list))\<close> show ?case by simp
qed simp

declare merge_loop.simps [simp del]

definition list_merge ::
  "('d, 'i) indexer_ops \<Rightarrow> ptr list \<Rightarrow> ('d, 'i) list_obj ref \<Rightarrow> ('d, 'i) list_obj ref \<Rightarrow>
   (('d, 'i) list_obj ref \<times> int) option" where
  "list_merge ix news self list =
     (case (self, list) of
        (Ref s, Ref l) \<Rightarrow>
          (if obj_type s \<noteq> obj_type l then Some (self, - 1)
           else if obj_type s = LIST_TYPE_INDEXEDLIST then Some (self, - 1)
           else merge_loop ix news l 0 self)
      | _ \<Rightarrow> Some (self, - 1))"

definition list_iterator_create ::
  "bool \<Rightarrow> ('d, 'i) list_obj ref \<Rightarrow> (('d, 'i) list_obj ref \<times> linkedlist_iterator_internal_t ref) option" where
  "list_iterator_create ok list =
     (case list of NULL \<Rightarrow> Some (NULL, NULL)
      | Ref obj \<Rightarrow> dispatch obj
          (\<lambda>l. let r = linkedlist_iterator_create ok l in Some (Ref (Linked (fst r)), snd r))
          (\<lambda>l. Some (list, arraylist_iterator_create l)))"

definition list_duplicate_list_with_heap ::
  "('d, 'i) indexer_ops \<Rightarrow> bool \<Rightarrow> bool \<Rightarrow> ptr list \<Rightarrow> ('d, 'i) list_obj ref \<Rightarrow>
   (('d, 'i) list_obj ref \<times> ('d, 'i) list_obj ref) option" where
  "list_duplicate_list_with_heap ix list_ok iter_ok news list =
     (case list of NULL \<Rightarrow> Some (NULL, NULL)
      | Ref obj \<Rightarrow> dispatch obj
          (\<lambda>l. do {
             r \<leftarrow> linkedlist_duplicate_list_with_heap ix list_ok iter_ok news l;
             Some (Ref (Linked (fst r)),
                   case snd r of NULL \<Rightarrow> NULL | Ref l' \<Rightarrow> Ref (Linked l'))
           })
          (\<lambda>l. Some (list, case arraylist_duplicate_list_with_heap l of
                              NULL \<Rightarrow> NULL | Ref l' \<Rightarrow> Ref (Array l'))))"

end
