(* ===== verification/List_Props.thy ===== *)
theory List_Props
  imports List_Dispatch
begin

text \<open>
  The properties of the lists, and the contract of a container with one way in and one way
  out (locale \<open>pushpop\<close>), which the queue and the stack macros of \<open>includes/list.h\<close> satisfy.
\<close>

subsection \<open>Queues and stacks\<close>

datatype ('a, 'd) qop = Push "'a ref" 'd | Pop

datatype 'd qresult = Pushed u64 | Popped 'd

text \<open>A push carries what the allocator returns for its item; the addresses are new.\<close>

fun pushed :: "('a, 'd) qop list \<Rightarrow> 'a list" where
  "pushed [] = []"
| "pushed (Push (Ref a) d # ops) = a # pushed ops"
| "pushed (Push NULL d # ops) = pushed ops"
| "pushed (Pop # ops) = pushed ops"

text \<open>
  The abstract container: \<open>ins\<close> says where a push puts its item and \<open>idx\<close> which position it
  returns; a push without memory returns -1 and changes nothing; a pop takes the front.
\<close>

fun spec_run ::
  "('d \<Rightarrow> 'd list \<Rightarrow> 'd list) \<Rightarrow> ('d list \<Rightarrow> u64) \<Rightarrow> 'd \<Rightarrow> ('a, 'd) qop list \<Rightarrow> 'd list \<Rightarrow> 'd list \<times> 'd qresult list" where
  "spec_run ins idx none [] xs = (xs, [])"
| "spec_run ins idx none (Push (Ref a) d # ops) xs =
     (let r = spec_run ins idx none ops (ins d xs) in (fst r, Pushed (idx xs) # snd r))"
| "spec_run ins idx none (Push NULL d # ops) xs =
     (let r = spec_run ins idx none ops xs in (fst r, Pushed (- 1) # snd r))"
| "spec_run ins idx none (Pop # ops) xs =
     (let r = spec_run ins idx none ops (tl xs) in
      (fst r, Popped (case xs of [] \<Rightarrow> none | x # _ \<Rightarrow> x) # snd r))"

fun run_ops ::
  "('a ref \<Rightarrow> 'd \<Rightarrow> 'q \<Rightarrow> ('q \<times> u64) option) \<Rightarrow> ('q \<Rightarrow> ('q \<times> 'd) option) \<Rightarrow> ('a, 'd) qop list \<Rightarrow> 'q \<Rightarrow>
   ('q \<times> 'd qresult list) option" where
  "run_ops push pop [] q = Some (q, [])"
| "run_ops push pop (Push a d # ops) q = do {
     r \<leftarrow> push a d q;
     s \<leftarrow> run_ops push pop ops (fst r);
     Some (fst s, Pushed (snd r) # snd s)
   }"
| "run_ops push pop (Pop # ops) q = do {
     r \<leftarrow> pop q;
     s \<leftarrow> run_ops push pop ops (fst r);
     Some (fst s, Popped (snd r) # snd s)
   }"

locale pushpop =
  fixes repr :: "'q \<Rightarrow> 'd list \<Rightarrow> bool" and avail :: "'q \<Rightarrow> 'a list \<Rightarrow> bool"
    and ins :: "'d \<Rightarrow> 'd list \<Rightarrow> 'd list" and idx :: "'d list \<Rightarrow> u64" and none :: 'd
    and push :: "'a ref \<Rightarrow> 'd \<Rightarrow> 'q \<Rightarrow> ('q \<times> u64) option" and pop :: "'q \<Rightarrow> ('q \<times> 'd) option"
  assumes push_ok: "repr q xs \<Longrightarrow> avail q (a # as) \<Longrightarrow>
      \<exists>q'. push (Ref a) d q = Some (q', idx xs) \<and> repr q' (ins d xs) \<and> avail q' as"
    and push_fails: "repr q xs \<Longrightarrow> avail q as \<Longrightarrow> \<exists>q'. push NULL d q = Some (q', - 1) \<and> repr q' xs \<and> avail q' as"
    and pop_ok: "repr q (x # xs) \<Longrightarrow> avail q as \<Longrightarrow>
      \<exists>q'. pop q = Some (q', x) \<and> repr q' xs \<and> avail q' as"
    and pop_empty: "repr q [] \<Longrightarrow> pop q = Some (q, none)"
begin

lemma run_refines:
  "repr q xs \<Longrightarrow> avail q (pushed ops) \<Longrightarrow>
   \<exists>q'. run_ops push pop ops q = Some (q', snd (spec_run ins idx none ops xs)) \<and>
     repr q' (fst (spec_run ins idx none ops xs))"
proof (induction ops arbitrary: q xs rule: pushed.induct)
  case (2 a d ops)
  then obtain q' where "push (Ref a) d q = Some (q', idx xs)" "repr q' (ins d xs)" "avail q' (pushed ops)"
    using push_ok [of q xs a "pushed ops" d] by auto
  with 2 show ?case by (fastforce simp: Let_def)
next
  case (3 d ops)
  then obtain q' where "push NULL d q = Some (q', - 1)" "repr q' xs" "avail q' (pushed ops)"
    using push_fails [of q xs "pushed ops" d] by auto
  with 3 show ?case by (fastforce simp: Let_def)
next
  case (4 ops)
  have av: "avail q (pushed ops)" using 4 by simp
  obtain q' where "pop q = Some (q', case xs of [] \<Rightarrow> none | x # _ \<Rightarrow> x)" "repr q' (tl xs)"
    "avail q' (pushed ops)"
    using 4 av pop_empty [of q] pop_ok [of q "hd xs" "tl xs", OF _ av] by (cases xs) auto
  with 4 show ?case by (fastforce simp: Let_def)
qed simp

end

text \<open>The macros \<^verbatim>\<open>list_queue_push\<close>, \<^verbatim>\<open>list_queue_pop\<close>, \<^verbatim>\<open>list_stack_push\<close> and \<^verbatim>\<open>list_stack_pop\<close>;
  \<open>item\<close> is what the allocator returns.\<close>

definition list_queue_push ::
  "('d, 'i) indexer_ops \<Rightarrow> ptr \<Rightarrow> 'd ref \<Rightarrow> ('d, 'i) list_obj ref \<Rightarrow> (('d, 'i) list_obj ref \<times> u64) option" where
  "list_queue_push ix item d l = list_insert_at ix item l d LIST_INSERT_AT_TAIL 0"

definition list_queue_pop ::
  "('d, 'i) indexer_ops \<Rightarrow> ('d, 'i) list_obj ref \<Rightarrow> (('d, 'i) list_obj ref \<times> 'd ref) option" where
  "list_queue_pop ix l = list_delete_at ix True l NULL LIST_DELETE_AT_HEAD 0"

definition list_stack_push ::
  "('d, 'i) indexer_ops \<Rightarrow> ptr \<Rightarrow> 'd ref \<Rightarrow> ('d, 'i) list_obj ref \<Rightarrow> (('d, 'i) list_obj ref \<times> u64) option" where
  "list_stack_push ix item d l = list_insert_at ix item l d LIST_INSERT_AT_HEAD 0"

definition list_stack_pop ::
  "('d, 'i) indexer_ops \<Rightarrow> ('d, 'i) list_obj ref \<Rightarrow> (('d, 'i) list_obj ref \<times> 'd ref) option" where
  "list_stack_pop ix l = list_delete_at ix True l NULL LIST_DELETE_AT_HEAD 0"

text \<open>A linked list that holds the payloads \<open>ds\<close>, and addresses it can still take.\<close>

definition holds :: "('d, 'i) list_obj ref \<Rightarrow> 'd ref list \<Rightarrow> bool" where
  "holds q ds \<longleftrightarrow>
     (\<exists>l xs e. q = Ref (Linked l) \<and> list_inv l xs e \<and> ds = map snd xs \<and>
        (l_type l AND LIST_TYPE_LINKED \<noteq> 0 \<or> l_type l AND LIST_TYPE_ARRAY = 0))"

definition takes :: "('d, 'i) list_obj ref \<Rightarrow> nat list \<Rightarrow> bool" where
  "takes q as \<longleftrightarrow>
     (case q of Ref (Linked l) \<Rightarrow>
        distinct as \<and> (\<forall>a \<in> set as. fresh_in l a) \<and> unat (l_item_count l) + length as < 2 ^ 64
      | _ \<Rightarrow> False)"

lemma fresh_iff: "list_inv l xs e \<Longrightarrow> fresh_in l b \<longleftrightarrow> b \<notin> fst ` set xs"
  by (metis chain_ok_def domIff fresh_in_def list_inv_def)

lemma list_inv_lock [simp]: "list_inv (l\<lparr>l_locked := b\<rparr>) xs e \<longleftrightarrow> list_inv l xs e"
  by (simp add: list_inv_def)

lemma list_inv_Nil: "list_inv l [] e \<Longrightarrow> list_inv l [] e'"
  by (simp add: list_inv_def middle_ok_def)

lemma list_cmp_lock [simp]: "list_cmp (l\<lparr>l_locked := b\<rparr>) = list_cmp l"
  by (simp add: list_cmp_def split: option.split)

lemma same_config_lock [simp]:
  "same_config (l\<lparr>l_locked := b\<rparr>) l' \<longleftrightarrow> same_config l l'"
  "same_config l (l'\<lparr>l_locked := b\<rparr>) \<longleftrightarrow> same_config l l'"
  by (simp_all add: same_config_def)

lemma delete_head_result:
  assumes inv: "list_inv l (x # xs) e" and p: "p < length (x # xs)"
  shows "\<exists>l'. linkedlist_delete_at ix ok l d LIST_DELETE_AT_HEAD (of_nat p) = Some (l', snd x) \<and>
    op_ok l l' xs (if l_middle l = l_head l then e + 1 else e)"
proof -
  have "list_inv (l\<lparr>l_locked := True\<rparr>) (x # xs) e" using inv by simp
  from delete_at_head_ok [OF this] delete_guards [OF inv p] show ?thesis
    by (auto simp: linkedlist_delete_at_def op_ok_def)
qed

lemma delete_tail_result:
  assumes inv: "list_inv l (us @ [x]) e"
  shows "\<exists>l'. linkedlist_delete_at ix ok l d LIST_DELETE_AT_TAIL 0 = Some (l', snd x) \<and>
    op_ok l l' us (if us = [] then 0 else if l_middle l = l_tail l then e - 1 else e)"
proof (cases "us = []")
  case True
  have "0 < length (us @ [x])" by simp
  note guards = delete_guards [OF inv this]
  have "list_inv (l\<lparr>l_locked := True\<rparr>) (x # []) e" using inv True by simp
  from delete_at_head_ok [OF this] guards True show ?thesis
    by (auto simp: linkedlist_delete_at_def op_ok_def intro: list_inv_Nil)
next
  case False
  have "0 < length (us @ [x])" by simp
  note guards = delete_guards [OF inv this]
  have "list_inv (l\<lparr>l_locked := True\<rparr>) (us @ [x]) e" using inv by simp
  from delete_at_tail_ok [OF this] guards False show ?thesis
    by (auto simp: linkedlist_delete_at_def op_ok_def)
qed

lemma delete_position_result:
  assumes inv: "list_inv l xs 0" and p: "p < length xs"
  shows "\<exists>l'. linkedlist_delete_at ix ok l d LIST_DELETE_AT_POSITION (of_nat p) =
      Some (l', snd (xs ! p)) \<and> op_ok l l' (remove_nth p xs) 0"
proof (cases "length xs = 1")
  case True
  then obtain x where xs: "xs = [x]" by (auto simp: length_Suc_conv)
  have "list_inv (l\<lparr>l_locked := True\<rparr>) (x # []) 0" using inv xs by simp
  from delete_at_head_ok [OF this] delete_guards [OF inv p] p xs show ?thesis
    by (auto simp: linkedlist_delete_at_def op_ok_def remove_nth_def intro: list_inv_Nil)
next
  case False
  have "list_inv (l\<lparr>l_locked := True\<rparr>) xs 0" using inv by simp
  from delete_at_position_ok [OF this p] delete_guards [OF inv p] False show ?thesis
    by (auto simp: linkedlist_delete_at_def op_ok_def)
qed

lemma delete_findby_result:
  assumes inv: "list_inv l (us @ x # vs) 0" and ty: "l_type l \<noteq> LIST_TYPE_INDEXEDLIST"
    and no: "\<forall>u \<in> set us. list_cmp l (snd u) data \<noteq> 0" and yes: "list_cmp l (snd x) data = 0"
    and d: "data \<noteq> NULL" and len: "2 \<le> length (us @ x # vs)"
  shows "\<exists>l'. linkedlist_delete_at ix True l data LIST_DELETE_AT_FINDBY 0 = Some (l', snd x) \<and>
    op_ok l l' (us @ vs) 0"
proof -
  let ?l = "l\<lparr>l_locked := True\<rparr>"
  have inv': "list_inv ?l (us @ x # vs) 0" using inv by simp
  from iterator_create_ok [OF inv'] obtain it where
    it: "linkedlist_iterator_create True ?l = (?l, Ref it)" "iter_at it (us @ x # vs) 0"
      "\<not> it_current_deleted it"
    by auto
  from findby_loop_some [of ?l us x vs it "list_cmp l" data ix] inv' it(2,3) no yes ty obtain l' where
    "findby_loop ix (list_cmp l) data ?l it = Some (l', snd x)" "list_inv l' (us @ vs) 0"
    "same_config l l'"
    by auto
  moreover have "0 < length (us @ x # vs)" by simp
  note delete_guards [OF inv this]
  ultimately show ?thesis
    using it(1) ty d len
    by (auto simp: linkedlist_delete_at_def delete_at_findby_def op_ok_def
        linkedlist_iterator_destroy_def)
qed

lemma dispatch_linked:
  "l_type l AND LIST_TYPE_LINKED \<noteq> 0 \<or> l_type l AND LIST_TYPE_ARRAY = 0 \<Longrightarrow>
   dispatch (Linked l) f g = f l"
  by (auto simp: dispatch_def)

lemma pop_linked_ok:
  assumes "holds q (x # ds)" "takes q as"
  shows "\<exists>q'. list_queue_pop ix q = Some (q', x) \<and> holds q' ds \<and> takes q' as"
proof -
  from assms(1) obtain l xs e where q: "q = Ref (Linked l)" and inv: "list_inv l xs e"
    and ds: "x # ds = map snd xs"
    and ty: "l_type l AND LIST_TYPE_LINKED \<noteq> 0 \<or> l_type l AND LIST_TYPE_ARRAY = 0"
    by (auto simp: holds_def)
  then obtain y ys where xs: "xs = y # ys" by auto
  from delete_head_result [OF inv [unfolded xs], of 0 ix True NULL] obtain l' e' where
    l': "linkedlist_delete_at ix True l NULL LIST_DELETE_AT_HEAD 0 = Some (l', snd y)"
      "op_ok l l' ys e'"
    by auto
  have inv': "list_inv l' ys e'" and ty': "l_type l' = l_type l"
    using l'(2) by (auto simp: op_ok_def same_config_def)
  have "list_queue_pop ix q = Some (Ref (Linked l'), x)"
    using l'(1) q ty ds xs by (simp add: list_queue_pop_def list_delete_at_def dispatch_linked)
  moreover have "holds (Ref (Linked l')) ds"
    using inv' ty ty' ds xs by (auto simp: holds_def)
  moreover have "takes (Ref (Linked l')) as"
    using assms(2) fresh_iff [OF inv] fresh_iff [OF inv'] inv inv' q xs
    by (auto simp: takes_def list_inv_def simp del: of_nat_Suc)
  ultimately show ?thesis by blast
qed

lemma pop_linked_empty:
  assumes "holds q []"
  shows "list_queue_pop ix q = Some (q, NULL)"
  using assms
  by (auto simp: holds_def list_inv_def list_queue_pop_def list_delete_at_def dispatch_linked
      linkedlist_delete_at_def)

lemma push_linked:
  assumes "holds q ds" "takes q (a # as)"
    and ins: "\<And>l xs e. list_inv l xs e \<Longrightarrow> fresh_in l a \<Longrightarrow> Suc (length xs) < 2 ^ 64 \<Longrightarrow>
      \<exists>l' ys e'. linkedlist_insert_at ix (Ref a) l d w 0 = Some (l', idx (map snd xs)) \<and> op_ok l l' ys e' \<and>
        map snd ys = ins d (map snd xs) \<and> fst ` set ys = insert a (fst ` set xs) \<and>
        length ys = Suc (length xs)"
  shows "\<exists>q'. list_insert_at ix (Ref a) q d w 0 = Some (q', idx ds) \<and> holds q' (ins d ds) \<and> takes q' as"
proof -
  from assms(1) obtain l xs e where q: "q = Ref (Linked l)" and inv: "list_inv l xs e"
    and ds: "ds = map snd xs"
    and ty: "l_type l AND LIST_TYPE_LINKED \<noteq> 0 \<or> l_type l AND LIST_TYPE_ARRAY = 0"
    by (auto simp: holds_def)
  have tk: "fresh_in l a" "Suc (length xs) + length as < 2 ^ 64" "distinct (a # as)"
    "\<forall>b \<in> set as. fresh_in l b"
    using assms(2) inv q by (auto simp: takes_def list_inv_def)
  then have "Suc (length xs) < 2 ^ 64" by simp
  from ins [OF inv tk(1) this] obtain l' ys e' where
    l': "linkedlist_insert_at ix (Ref a) l d w 0 = Some (l', idx ds)" "op_ok l l' ys e'"
      "map snd ys = ins d ds" "fst ` set ys = insert a (fst ` set xs)" "length ys = Suc (length xs)"
    by (auto simp: ds)
  have inv': "list_inv l' ys e'" and ty': "l_type l' = l_type l"
    using l'(2) by (auto simp: op_ok_def same_config_def)
  have "list_insert_at ix (Ref a) q d w 0 = Some (Ref (Linked l'), idx ds)"
    using l'(1) q ty by (simp add: list_insert_at_def dispatch_linked)
  moreover have "holds (Ref (Linked l')) (ins d ds)"
    using inv' ty ty' l'(3) by (auto simp: holds_def)
  moreover have "takes (Ref (Linked l')) as"
    using tk fresh_iff [OF inv] fresh_iff [OF inv'] inv' l'(4,5)
    by (auto simp: takes_def list_inv_def simp del: of_nat_Suc)
  ultimately show ?thesis by blast
qed

lemma push_fails_linked:
  assumes "holds q ds" "takes q as"
  shows "\<exists>q'. list_insert_at ix NULL q d w 0 = Some (q', - 1) \<and> holds q' ds \<and> takes q' as"
proof -
  from assms(1) obtain l xs e where q: "q = Ref (Linked l)" and inv: "list_inv l xs e" and ds: "ds = map snd xs"
    and ty: "l_type l AND LIST_TYPE_LINKED \<noteq> 0 \<or> l_type l AND LIST_TYPE_ARRAY = 0"
    by (auto simp: holds_def)
  let ?l = "l\<lparr>l_locked := False\<rparr>"
  have "list_insert_at ix NULL q d w 0 = Some (Ref (Linked ?l), - 1)"
    using q ty by (simp add: list_insert_at_def dispatch_linked linkedlist_insert_at_def)
  moreover have "holds (Ref (Linked ?l)) ds" using inv ds ty list_inv_lock [of False l xs e] by (fastforce simp: holds_def)
  moreover have "takes (Ref (Linked ?l)) as" using assms(2) q by (simp add: takes_def fresh_in_def)
  ultimately show ?thesis by blast
qed

interpretation list_queue: pushpop holds takes "\<lambda>d ds. ds @ [d]" "\<lambda>ds. of_nat (length ds)" NULL
  "list_queue_push ix" "list_queue_pop ix"
  for ix :: "('d, 'i) indexer_ops"
proof unfold_locales
  fix q :: "('d, 'i) list_obj ref" and ds as d
  show "\<exists>q'. list_queue_push ix (Ref a) d q = Some (q', of_nat (length ds)) \<and> holds q' (ds @ [d]) \<and> takes q' as"
    if "holds q ds" "takes q (a # as)" for a
    unfolding list_queue_push_def using that by (rule push_linked) (use insert_at_tail_ok in fastforce)
  show "\<exists>q'. list_queue_push ix NULL d q = Some (q', - 1) \<and> holds q' ds \<and> takes q' as" if "holds q ds" "takes q as"
    unfolding list_queue_push_def using that by (rule push_fails_linked)
qed (rule pop_linked_ok pop_linked_empty; assumption)+

interpretation list_stack: pushpop holds takes Cons "\<lambda>_. 0" NULL "list_stack_push ix" "list_stack_pop ix"
  for ix :: "('d, 'i) indexer_ops"
proof unfold_locales
  fix q :: "('d, 'i) list_obj ref" and ds as d
  show "\<exists>q'. list_stack_push ix (Ref a) d q = Some (q', 0) \<and> holds q' (d # ds) \<and> takes q' as"
    if "holds q ds" "takes q (a # as)" for a
    unfolding list_stack_push_def using that by (rule push_linked) (use insert_at_head_ok in fastforce)
  show "\<exists>q'. list_stack_push ix NULL d q = Some (q', - 1) \<and> holds q' ds \<and> takes q' as" if "holds q ds" "takes q as"
    unfolding list_stack_push_def using that by (rule push_fails_linked)
qed (unfold list_stack_pop_def list_queue_pop_def [symmetric],
    (rule pop_linked_ok pop_linked_empty; assumption)+)

subsection \<open>A concrete list\<close>

text \<open>Three numbers in order, on which the properties are evaluated.\<close>

definition no_indexer :: "(u64, unit) indexer_ops" where
  "no_indexer = \<lparr>ix_index = (\<lambda>i d p. i), ix_search = (\<lambda>i d. NULL),
     ix_delete_by_item = (\<lambda>i p. i), ix_delete_by_data = (\<lambda>i d. i)\<rparr>"

definition sample_list :: "u32 \<Rightarrow> (u64, unit) list_t" where
  "sample_list ty =
     \<lparr>l_items = [2 \<mapsto> \<lparr>li_data = Ref 3, li_next = Ref 4, li_previous = NULL\<rparr>,
                 4 \<mapsto> \<lparr>li_data = Ref 5, li_next = Ref 6, li_previous = Ref 2\<rparr>,
                 6 \<mapsto> \<lparr>li_data = Ref 9, li_next = NULL, li_previous = Ref 4\<rparr>],
      l_type = ty, l_locked = False, l_comparator = list_default_data_comparator,
      l_equality_comparator = None, l_item_count = 3, l_indexer = (), l_head = Ref 2, l_tail = Ref 6,
      l_middle = Ref 4, l_middle_position = 1, l_balance = 0\<rparr>"

definition sample_nodes :: "u64 nodes" where
  "sample_nodes = [(2, Ref 3), (4, Ref 5), (6, Ref 9)]"

lemma sample_inv [simp]: "list_inv (sample_list ty) sample_nodes 0"
  by (auto simp: list_inv_def chain_ok_def middle_ok_def middle_at_def sample_list_def sample_nodes_def
      intro!: exI [of _ 1])

lemma sample_sorted [simp]: "sorted_nodes list_default_data_comparator sample_nodes"
  by (simp add: sorted_nodes_def sample_nodes_def list_default_data_comparator_def)

lemma sample_fields [simp]:
  "l_comparator (sample_list ty) = list_default_data_comparator"
  "l_equality_comparator (sample_list ty) = None" "l_type (sample_list ty) = ty"
  "length sample_nodes = 3" "sample_nodes \<noteq> []"
  by (simp_all add: sample_list_def sample_nodes_def)

lemma sample_fresh [simp]: "fresh_in (sample_list ty) 7"
  by (simp add: fresh_in_def sample_list_def)

subsection \<open>Properties\<close>

text \<open>
  C2. Inserting into a sorted list with a comparator that is a total preorder and returns only -1,
  0 or 1 always succeeds, returns the number of smaller items, keeps the list sorted, and adds
  exactly the new item: the binary narrowing over the middle pointer finds the place a linear search
  would. The header lets comparators return any number of the right sign, and with such a comparator
  the code misplaces items (\<open>comparator_difference_unsorted\<close>).
\<close>

theorem sorted_insert_spec:
  assumes "comparator_order (l_comparator l)" "list_inv l xs 0"
    and "sorted_nodes (l_comparator l) xs" "fresh_in l a" "Suc (length xs) < 2 ^ 64"
  shows "\<exists>l' ys. linkedlist_insert_at ix (Ref a) l d LIST_INSERT_AT_SORTED pos =
      Some (l', of_nat (rank (l_comparator l) d xs)) \<and>
    list_inv l' ys 0 \<and> sorted_nodes (l_comparator l) ys \<and> mset ys = add_mset (a, d) (mset xs) \<and>
    ys ! rank (l_comparator l) d xs = (a, d) \<and> \<not> l_locked l'"
proof -
  let ?L = "rank (l_comparator l) d xs"
  let ?ys = "take ?L xs @ (a, d) # drop ?L xs"
  have "sorted_nodes (l_comparator l) ?ys"
    using comparator_order.insert_sorted_nodes assms(1,3) .
  moreover have "mset ?ys = add_mset (a, d) (mset xs)"
    by (metis append_take_drop_id mset_append mset.simps(2) union_mset_add_mset_right)
  moreover have "?ys ! ?L = (a, d)" by (simp add: nth_append)
  ultimately show ?thesis
    using comparator_order.insert_at_sorted_ok [OF assms(1,2,4,5) refl assms(3), of ix d pos]
    unfolding op_ok_def by blast
qed

theorem sorted_insert_spec_witness:
  "\<exists>l' ys. linkedlist_insert_at no_indexer (Ref 7) (sample_list LIST_TYPE_SORTEDLIST) (Ref 6)
      LIST_INSERT_AT_SORTED 0 = Some (l', 2) \<and>
    list_inv l' ys 0 \<and> sorted_nodes list_default_data_comparator ys \<and>
    mset ys = add_mset (7, Ref 6) (mset sample_nodes)"
proof -
  have "rank list_default_data_comparator (Ref 6) sample_nodes = 2"
    by (simp add: rank_def sample_nodes_def list_default_data_comparator_def)
  then show ?thesis
    using sorted_insert_spec [of "sample_list LIST_TYPE_SORTEDLIST" sample_nodes 7 no_indexer "Ref 6" 0]
      default_order.comparator_order_axioms by auto
qed

text \<open>
  C4. A queue on a linked list is a first-in first-out queue: any sequence of pushes, each with the
  address the allocator hands out or without memory, and pops runs without a memory error. A push
  returns the position of its item, or -1 and leaves the queue alone when there is no memory; a pop
  returns what the abstract queue returns (null from an empty one); the queue ends in the
  contents of the abstract one. This holds whatever happens to the middle pointer on the way.
\<close>

theorem queue_refines_fifo:
  assumes "holds q ds" "takes q (pushed ops)"
  shows "\<exists>q'. run_ops (list_queue_push ix) (list_queue_pop ix) ops q =
      Some (q', snd (spec_run (\<lambda>d ds. ds @ [d]) (\<lambda>ds. of_nat (length ds)) NULL ops ds)) \<and>
    holds q' (fst (spec_run (\<lambda>d ds. ds @ [d]) (\<lambda>ds. of_nat (length ds)) NULL ops ds))"
  using assms by (rule list_queue.run_refines)

lemma sample_holds: "holds (Ref (Linked (sample_list LIST_TYPE_QUEUE))) [Ref 3, Ref 5, Ref 9]"
proof -
  have "LIST_TYPE_QUEUE AND LIST_TYPE_ARRAY = 0"
    by (simp add: LIST_TYPE_QUEUE_def LIST_TYPE_ARRAY_def)
  then show ?thesis
    using sample_inv [of LIST_TYPE_QUEUE] by (fastforce simp: holds_def sample_nodes_def)
qed

lemma sample_takes: "takes (Ref (Linked (sample_list LIST_TYPE_QUEUE))) [7]"
  by (simp add: takes_def) (simp add: sample_list_def)

theorem queue_refines_fifo_witness:
  "\<exists>q'. run_ops (list_queue_push no_indexer) (list_queue_pop no_indexer)
      [Pop, Push (Ref 7) (Ref 4), Push NULL (Ref 8), Pop, Pop, Pop, Pop] (Ref (Linked (sample_list LIST_TYPE_QUEUE))) =
    Some (q', [Popped (Ref 3), Pushed 2, Pushed (- 1), Popped (Ref 5), Popped (Ref 9), Popped (Ref 4), Popped NULL]) \<and> holds q' []"
  using queue_refines_fifo [OF sample_holds, of "[Pop, Push (Ref 7) (Ref 4), Push NULL (Ref 8), Pop, Pop, Pop, Pop]" no_indexer]
    sample_takes by (simp add: Let_def)

text \<open>
  C5. A stack on a linked list is a last-in first-out stack, in the same sense; a push returns
  position 0.
\<close>

theorem stack_refines_lifo:
  assumes "holds q ds" "takes q (pushed ops)"
  shows "\<exists>q'. run_ops (list_stack_push ix) (list_stack_pop ix) ops q =
      Some (q', snd (spec_run Cons (\<lambda>_. 0) NULL ops ds)) \<and> holds q' (fst (spec_run Cons (\<lambda>_. 0) NULL ops ds))"
  using assms by (rule list_stack.run_refines)

theorem stack_refines_lifo_witness:
  "\<exists>q'. run_ops (list_stack_push no_indexer) (list_stack_pop no_indexer)
      [Pop, Push (Ref 7) (Ref 4), Push NULL (Ref 8), Pop, Pop] (Ref (Linked (sample_list LIST_TYPE_QUEUE))) =
    Some (q', [Popped (Ref 3), Pushed 0, Pushed (- 1), Popped (Ref 4), Popped (Ref 5)]) \<and> holds q' [Ref 9]"
  using stack_refines_lifo [OF sample_holds, of "[Pop, Push (Ref 7) (Ref 4), Push NULL (Ref 8), Pop, Pop]" no_indexer]
    sample_takes by (simp add: Let_def)

text \<open>
  C31. Inserting at a position of a list whose middle pointer is exact puts the item at that
  index, or at the end when the position is past it, returns the index used, and keeps the
  middle pointer exact.
\<close>

theorem insert_at_position_spec:
  assumes "list_inv l xs 0" "fresh_in l a" "Suc (length xs) < 2 ^ 64"
  shows "\<exists>l'. linkedlist_insert_at ix (Ref a) l d LIST_INSERT_AT_POSITION pos =
      Some (l', of_nat (min (unat pos) (length xs))) \<and>
    list_inv l' (take (unat pos) xs @ (a, d) # drop (unat pos) xs) 0 \<and> \<not> l_locked l'"
  using insert_at_position_ok [OF assms, of ix d pos] by (auto simp: op_ok_def)

theorem insert_at_position_spec_witness:
  "\<exists>l'. linkedlist_insert_at no_indexer (Ref 7) (sample_list LIST_TYPE_LIST) (Ref 8)
      LIST_INSERT_AT_POSITION 1 = Some (l', 1) \<and>
    list_inv l' [(2, Ref 3), (7, Ref 8), (4, Ref 5), (6, Ref 9)] 0"
  using insert_at_position_spec [OF sample_inv sample_fresh, of no_indexer LIST_TYPE_LIST "Ref 8" 1]
  by (auto simp: sample_nodes_def)

text \<open>
  C3. Deleting at a position of a list whose middle pointer is exact returns the payload at
  that index, removes and frees exactly that item, and keeps the middle pointer exact.
\<close>

theorem delete_at_position_spec:
  assumes "list_inv l xs 0" "p < length xs"
  shows "\<exists>l'. linkedlist_delete_at ix ok l d LIST_DELETE_AT_POSITION (of_nat p) =
      Some (l', snd (xs ! p)) \<and>
    list_inv l' (take p xs @ drop (Suc p) xs) 0 \<and> \<not> l_locked l'"
  using delete_position_result [OF assms, of ix ok d] by (auto simp: op_ok_def remove_nth_def)

theorem delete_at_position_spec_witness:
  "\<exists>l'. linkedlist_delete_at no_indexer True (sample_list LIST_TYPE_LIST) NULL
      LIST_DELETE_AT_POSITION 1 = Some (l', Ref 5) \<and> list_inv l' [(2, Ref 3), (6, Ref 9)] 0"
  using delete_at_position_spec [OF sample_inv, of 1 no_indexer True LIST_TYPE_LIST NULL]
  by (auto simp: sample_nodes_def)

text \<open>
  Reading a position of a list whose middle pointer is exact returns the payload at that
  index, whichever of head, middle and tail the walk starts from, and null past the end.
\<close>

theorem get_data_at_position_spec:
  assumes "list_inv l xs 0"
  shows "linkedlist_get_data_at_position l pos =
    Some (if unat pos < length xs then snd (xs ! unat pos) else NULL)"
proof (cases "unat pos < length xs")
  case True
  then show ?thesis using get_data_at_position_ok [OF assms, of "unat pos"] by simp
next
  case False
  then show ?thesis
    using assms by (simp add: linkedlist_get_data_at_position_def list_inv_def word_le_nat_alt)
qed

theorem get_data_at_position_spec_witness:
  "linkedlist_get_data_at_position (sample_list LIST_TYPE_LIST) 2 = Some (Ref 9)"
  using get_data_at_position_spec [OF sample_inv, of LIST_TYPE_LIST 2] by (simp add: sample_nodes_def)

text \<open>
  C32. Deleting by value from a list of two or more items whose middle pointer is exact removes
  the first item the comparator calls equal, and returns its payload.
\<close>

theorem delete_findby_spec:
  assumes "list_inv l (us @ x # vs) 0" "l_type l \<noteq> LIST_TYPE_INDEXEDLIST" "data \<noteq> NULL"
    and "\<forall>u \<in> set us. list_cmp l (snd u) data \<noteq> 0" "list_cmp l (snd x) data = 0"
    and "2 \<le> length (us @ x # vs)"
  shows "\<exists>l'. linkedlist_delete_at ix True l data LIST_DELETE_AT_FINDBY 0 = Some (l', snd x) \<and>
    list_inv l' (us @ vs) 0 \<and> \<not> l_locked l'"
  using delete_findby_result [OF assms(1,2,4,5,3,6), of ix] by (auto simp: op_ok_def)

theorem delete_findby_spec_witness:
  "\<exists>l'. linkedlist_delete_at no_indexer True (sample_list LIST_TYPE_LIST) (Ref 5)
      LIST_DELETE_AT_FINDBY 0 = Some (l', Ref 5) \<and> list_inv l' [(2, Ref 3), (6, Ref 9)] 0"
proof -
  have "list_inv (sample_list LIST_TYPE_LIST) ([(2, Ref 3)] @ (4, Ref 5) # [(6, Ref 9)]) 0"
    using sample_inv [of LIST_TYPE_LIST] by (simp add: sample_nodes_def)
  from delete_findby_spec [OF this, of "Ref 5" no_indexer] show ?thesis
    by (auto simp: list_cmp_def list_default_data_comparator_def LIST_TYPE_LIST_def
        LIST_TYPE_INDEXEDLIST_def)
qed

text \<open>
  A lookup by value in a sorted list returns 0 exactly when some item is equal to the
  argument, and then the position it reports is the index of an equal item.
\<close>

theorem sorted_get_position_spec:
  assumes "comparator_order (l_comparator l)" "list_inv l xs 0" "xs \<noteq> []"
    and "l_type l = LIST_TYPE_SORTEDLIST" "l_equality_comparator l = None"
    and "sorted_nodes (l_comparator l) xs"
  shows "\<exists>c pos. linkedlist_get_position l data (Ref p0) = Some (c, pos) \<and>
    (c = 0 \<longleftrightarrow> (\<exists>x \<in> set xs. l_comparator l data (snd x) = 0)) \<and>
    (c = 0 \<longrightarrow> (\<exists>j < length xs. pos = Ref (of_nat j) \<and> l_comparator l data (snd (xs ! j)) = 0))"
  using comparator_order.get_position_sorted_ok [OF assms(1-4) refl assms(5,6)]
  by (simp add: comparator_order.position_of_def [OF assms(1)])

theorem sorted_get_position_spec_witness:
  "\<exists>c pos. linkedlist_get_position (sample_list LIST_TYPE_SORTEDLIST) (Ref 9) (Ref 0) = Some (c, pos) \<and> c = 0"
proof -
  have "\<exists>x \<in> set sample_nodes. list_default_data_comparator (Ref 9) (snd x) = 0"
    by (simp add: sample_nodes_def list_default_data_comparator_def)
  then show ?thesis
    using sorted_get_position_spec [of "sample_list LIST_TYPE_SORTEDLIST" sample_nodes "Ref 9" 0]
      default_order.comparator_order_axioms by auto
qed

text \<open>
  A lookup by value in a list that is not sorted reports the index of the first equal item,
  or -1 and the length of the list.
\<close>

theorem get_position_spec:
  assumes "list_inv l xs e" "l_type l \<noteq> LIST_TYPE_SORTEDLIST"
  shows "linkedlist_get_position l data (Ref p) =
    (case find (\<lambda>j. list_cmp l data (snd (xs ! j)) = 0) [0..<length xs] of
       None \<Rightarrow> Some (- 1, Ref (of_nat (length xs)))
     | Some j \<Rightarrow> Some (0, Ref (of_nat j)))"
  using assms by (rule get_position_ok)

theorem get_position_spec_witness:
  "linkedlist_get_position (sample_list LIST_TYPE_LIST) (Ref 5) (Ref 0) = Some (0, Ref 1)"
proof -
  have "[0..<length sample_nodes] = [0, 1, 2]" by (simp add: upt_rec)
  then show ?thesis
    using get_position_spec [OF sample_inv, of LIST_TYPE_LIST "Ref 5" 0]
    by (simp add: list_cmp_def list_default_data_comparator_def LIST_TYPE_LIST_def
        LIST_TYPE_SORTEDLIST_def sample_nodes_def)
qed

text \<open>
  Duplicating a list yields a list with the same payloads in the same order on the new
  items, and leaves the source list unlocked and unchanged.
\<close>

theorem duplicate_spec:
  assumes "list_inv l xs e" "length as = length xs" "distinct as"
  shows "\<exists>new xs' e'. linkedlist_duplicate_list_with_heap ix True True (map Ref as) l =
      Some (l\<lparr>l_locked := False\<rparr>, Ref new) \<and>
    list_inv new xs' e' \<and> map snd xs' = map snd xs \<and> map fst xs' = as"
proof -
  from iterator_create_ok [OF assms(1)] obtain it where
    it: "linkedlist_iterator_create True l = (l\<lparr>l_locked := True\<rparr>, Ref it)" "iter_at it xs 0"
      "\<not> it_current_deleted it"
    by blast
  let ?new = "\<lparr>l_items = Map.empty, l_type = l_type l, l_locked = False,
    l_comparator = l_comparator l, l_equality_comparator = None, l_item_count = 0,
    l_indexer = l_indexer l, l_head = NULL, l_tail = NULL, l_middle = NULL,
    l_middle_position = 0, l_balance = 0\<rparr>"
  have seg: "dseg (l_items (l\<lparr>l_locked := True\<rparr>)) NULL xs NULL" and n: "length xs < 2 ^ 64"
    using assms(1) by (simp_all add: list_inv_def chain_ok_def)
  have "list_inv ?new [] 0" "\<forall>a \<in> set as. fresh_in ?new a"
    by (simp_all add: list_inv_def chain_ok_def middle_ok_def fresh_in_def)
  with duplicate_loop_ok [OF seg it(2,3), of ?new "[]" 0 as ix] assms n obtain new e' where
    "duplicate_loop ix (l\<lparr>l_locked := True\<rparr>) it (map Ref as) ?new = Some new"
    "list_inv new (zip as (map snd xs)) e'"
    by auto
  with it(1) assms(2) show ?thesis
    by (auto simp: linkedlist_duplicate_list_with_heap_def linkedlist_iterator_destroy_def)
qed

theorem duplicate_spec_witness:
  "\<exists>new xs' e'. linkedlist_duplicate_list_with_heap no_indexer True True [Ref 8, Ref 7, Ref 9]
      (sample_list LIST_TYPE_LIST) = Some ((sample_list LIST_TYPE_LIST)\<lparr>l_locked := False\<rparr>, Ref new) \<and>
    list_inv new xs' e' \<and> map snd xs' = [Ref 3, Ref 5, Ref 9]"
proof -
  have "length [8, 7, 9 :: nat] = length sample_nodes" by simp
  from duplicate_spec [OF sample_inv this, of no_indexer LIST_TYPE_LIST] show ?thesis
    by (fastforce simp: sample_nodes_def)
qed

text \<open>
  C33. Destroying a list frees every item it holds and nothing else is left, and with
  \<^verbatim>\<open>LIST_DESTROY_WITH_DATA\<close> hands each payload to the destroyer once, in order.
\<close>

theorem destroy_spec:
  assumes "list_inv l xs e"
  shows "linkedlist_destroy_with_type l ty =
    Some (Map.empty, if ty = LIST_DESTROY_WITH_DATA then map snd xs else [])"
proof -
  have ch: "distinct (map fst xs)" "dseg (l_items l) NULL xs NULL" "dom (l_items l) = fst ` set xs"
    "l_head l = first xs NULL"
    using assms by (auto simp: list_inv_def chain_ok_def)
  have "l_items l |` (- fst ` set xs) = Map.empty"
    using ch(3) by (auto simp: restrict_map_def fun_eq_iff domIff [symmetric] simp del: dom_eq_empty_conv)
  with destroy_loop_ok [OF ch(1,2), of ty "[]"] ch(4) show ?thesis
    by (simp add: linkedlist_destroy_with_type_def)
qed

theorem destroy_spec_witness:
  "linkedlist_destroy_with_type (sample_list LIST_TYPE_LIST) LIST_DESTROY_WITH_DATA =
    Some (Map.empty, [Ref 3, Ref 5, Ref 9])"
  using destroy_spec [OF sample_inv, of LIST_TYPE_LIST LIST_DESTROY_WITH_DATA]
  by (simp add: sample_nodes_def)

subsection \<open>Where the code goes wrong\<close>

text \<open>
  C39. Deleting any value from a list with one item removes and returns that item, whether the
  comparator finds the value equal or not: with one item the deletion by value is turned into a
  deletion of the head before any comparison.
\<close>

theorem findby_deletes_other_item:
  assumes "list_inv l [x] e" "data \<noteq> NULL"
  shows "\<exists>l' e'. linkedlist_delete_at ix ok l data LIST_DELETE_AT_FINDBY 0 = Some (l', snd x) \<and> list_inv l' [] e' \<and> \<not> l_locked l'"
proof -
  have "list_inv (l\<lparr>l_locked := True\<rparr>) (x # []) e" using assms(1) by simp
  from delete_at_head_ok [OF this] obtain l' e' where
    "delete_at_head (l\<lparr>l_locked := True\<rparr>) = Some (l', snd x)" "list_inv (l'\<lparr>l_locked := False\<rparr>) [] e'"
    by auto
  with delete_guards [OF assms(1), of 0] assms(2) show ?thesis by (auto simp: linkedlist_delete_at_def)
qed

text \<open>The number 3 alone.\<close>

definition single_list :: "(u64, unit) list_t" where
  "single_list = (sample_list LIST_TYPE_LIST)\<lparr>l_items := [2 \<mapsto> \<lparr>li_data = Ref 3, li_next = NULL, li_previous = NULL\<rparr>],
     l_item_count := 1, l_tail := Ref 2, l_middle := Ref 2, l_middle_position := 0\<rparr>"

lemma single_inv: "list_inv single_list [(2, Ref 3)] 0"
  by (auto simp: list_inv_def chain_ok_def middle_ok_def middle_at_def single_list_def sample_list_def intro!: exI [of _ 0])

theorem findby_deletes_other_item_witness:
  "list_cmp single_list (Ref 3) (Ref 99) \<noteq> 0 \<and>
   (\<exists>l' e'. linkedlist_delete_at no_indexer True single_list (Ref 99) LIST_DELETE_AT_FINDBY 0 = Some (l', Ref 3) \<and> list_inv l' [] e')"
  using findby_deletes_other_item [OF single_inv, of "Ref 99" no_indexer True]
  by (auto simp: list_cmp_def single_list_def sample_list_def list_default_data_comparator_def)

text \<open>
  C40. Deleting a value that the indexer does not find from an indexed list with two or more items
  changes nothing but the list's lock, which stays held.
\<close>

theorem indexed_miss_keeps_lock:
  assumes "list_inv l xs e" "2 \<le> length xs" "l_type l = LIST_TYPE_INDEXEDLIST" "data \<noteq> NULL" "ix_search ix (l_indexer l) data = NULL"
  shows "linkedlist_delete_at ix ok l data LIST_DELETE_AT_FINDBY 0 = Some (l\<lparr>l_locked := True\<rparr>, NULL)"
proof -
  have "0 < length xs" "length xs \<noteq> 1" using assms(2) by auto
  with delete_guards [OF assms(1), of 0] assms(3-) show ?thesis
    by (auto simp: linkedlist_delete_at_def delete_at_findby_indexed_def)
qed

theorem indexed_miss_keeps_lock_witness:
  "\<exists>l'. linkedlist_delete_at no_indexer True (sample_list LIST_TYPE_INDEXEDLIST) (Ref 99) LIST_DELETE_AT_FINDBY 0 = Some (l', NULL) \<and> l_locked l'"
  using indexed_miss_keeps_lock [OF sample_inv, of LIST_TYPE_INDEXEDLIST "Ref 99" no_indexer True] by (simp add: no_indexer_def)

text \<open>
  The header lets a comparator return any positive number for "greater", but a comparator
  that returns the difference puts 12 between 3 and 5 in the list 3, 5, 9: the code tests for 1.
\<close>

theorem comparator_difference_unsorted:
  "map_option snd (linkedlist_insert_at no_indexer (Ref 7)
     ((sample_list LIST_TYPE_SORTEDLIST)\<lparr>l_comparator := \<lambda>a b. uint (ref_of a) - uint (ref_of b)\<rparr>)
     (Ref 12) LIST_INSERT_AT_SORTED 0) = Some 1"
  by code_simp

end
