(* ===== verification/Memory_Bytes.thy ===== *)
theory Memory_Bytes
  imports Prelude
begin

text \<open>
  Byte arrays and the block operations of \<open>cc/memory/memory.xx.c\<close>. A pointer to bytes is
  null or the list of bytes from the pointer to the end of its object; reading or writing
  past the end has no value. Sizes are natural numbers: the loops count up to a
  \<^verbatim>\<open>size_t\<close> and never wrap.
\<close>

type_synonym bytes = "u8 list"

subsection \<open>Access\<close>

definition byte_at :: "bytes \<Rightarrow> nat \<Rightarrow> u8 option" where
  "byte_at m i = (if i < length m then Some (m ! i) else None)"

definition set_byte :: "bytes \<Rightarrow> nat \<Rightarrow> u8 \<Rightarrow> bytes option" where
  "set_byte m i b = (if i < length m then Some (m[i := b]) else None)"

text \<open>The little endian number of a list of bytes, and an unaligned load of eight bytes.\<close>

definition le_nat :: "bytes \<Rightarrow> nat" where
  "le_nat bs = horner_sum unat 256 bs"

definition load64 :: "bytes \<Rightarrow> nat \<Rightarrow> u64 option" where
  "load64 m i = (if i + 8 \<le> length m then Some (of_nat (le_nat (take 8 (drop i m)))) else None)"

subsection \<open>Operations\<close>

function copy_loop :: "bytes \<Rightarrow> bytes \<Rightarrow> nat \<Rightarrow> nat \<Rightarrow> bytes option" where
  "copy_loop s t i sz =
     (if i < sz then do {
        b \<leftarrow> byte_at s i;
        t' \<leftarrow> set_byte t i b;
        copy_loop s t' (Suc i) sz
      } else Some t)"
  by pat_completeness auto
termination by (relation "measure (\<lambda>(s, t, i, sz). sz - i)") auto

declare copy_loop.simps [simp del]

definition memory_memcopy :: "bytes ref \<Rightarrow> bytes ref \<Rightarrow> nat \<Rightarrow> (bytes ref \<times> int) option" where
  "memory_memcopy source destination sz =
     (if (source = NULL \<and> destination = NULL) \<or> sz = 0 then Some (destination, 0)
      else if source = NULL \<or> destination = NULL then Some (destination, - 1)
      else do {
        t \<leftarrow> copy_loop (ref_of source) (ref_of destination) 0 sz;
        Some (Ref t, 0)
      })"

text \<open>\<^verbatim>\<open>memory_memset\<close> and \<^verbatim>\<open>memory_memclean\<close> are a \<^verbatim>\<open>rep stosb\<close> of \<open>sz\<close> bytes.\<close>

function fill_loop :: "bytes \<Rightarrow> u8 \<Rightarrow> nat \<Rightarrow> nat \<Rightarrow> bytes option" where
  "fill_loop t v i sz =
     (if i < sz then do {
        t' \<leftarrow> set_byte t i v;
        fill_loop t' v (Suc i) sz
      } else Some t)"
  by pat_completeness auto
termination by (relation "measure (\<lambda>(t, v, i, sz). sz - i)") auto

declare fill_loop.simps [simp del]

definition memory_memset :: "bytes \<Rightarrow> u8 \<Rightarrow> nat \<Rightarrow> bytes option" where
  "memory_memset address v sz = fill_loop address v 0 sz"

definition memory_memclean :: "bytes \<Rightarrow> nat \<Rightarrow> bytes option" where
  "memory_memclean address sz = fill_loop address 0 0 sz"

text \<open>
  The comparison runs over whole words first and looks at the bytes of the first word that
  differs, then over the remaining bytes.
\<close>

function compare_bytes :: "bytes \<Rightarrow> bytes \<Rightarrow> nat \<Rightarrow> nat \<Rightarrow> int option" where
  "compare_bytes m1 m2 i sz =
     (if i < sz then do {
        a \<leftarrow> byte_at m1 i;
        b \<leftarrow> byte_at m2 i;
        (if a < b then Some (- 1)
         else if a > b then Some 1
         else compare_bytes m1 m2 (Suc i) sz)
      } else Some 0)"
  by pat_completeness auto
termination by (relation "measure (\<lambda>(m1, m2, i, sz). sz - i)") auto

declare compare_bytes.simps [simp del]

function compare_words :: "bytes \<Rightarrow> bytes \<Rightarrow> nat \<Rightarrow> nat \<Rightarrow> int option" where
  "compare_words m1 m2 i q_size =
     (if i < q_size then do {
        w1 \<leftarrow> load64 m1 (8 * i);
        w2 \<leftarrow> load64 m2 (8 * i);
        (if w1 \<noteq> w2 then do {
           r \<leftarrow> compare_bytes m1 m2 (8 * i) (8 * i + 8);
           (if r \<noteq> 0 then Some r else compare_words m1 m2 (Suc i) q_size)
         } else compare_words m1 m2 (Suc i) q_size)
      } else Some 0)"
  by pat_completeness auto
termination by (relation "measure (\<lambda>(m1, m2, i, q_size). q_size - i)") auto

declare compare_words.simps [simp del]

definition memory_memcompare :: "bytes ref \<Rightarrow> bytes ref \<Rightarrow> nat \<Rightarrow> int option" where
  "memory_memcompare mem1 mem2 sz =
     (if sz = 0 \<and> (mem1 = NULL \<longleftrightarrow> mem2 = NULL) then Some 0
      else if mem1 = NULL \<and> mem2 \<noteq> NULL then Some (- 1)
      else if mem1 \<noteq> NULL \<and> mem2 = NULL then Some 1
      else if mem1 = NULL then Some 0
      else do {
        r \<leftarrow> compare_words (ref_of mem1) (ref_of mem2) 0 (sz div 8);
        (if r \<noteq> 0 then Some r
         else compare_bytes (ref_of mem1) (ref_of mem2) (8 * (sz div 8)) sz)
      })"

subsection \<open>Lemmas\<close>

lemma drop_update_take: "i < length xs \<Longrightarrow> take (Suc i) (xs[i := x]) = take i xs @ [x]"
  by (simp add: take_Suc_conv_app_nth)

lemma drop_nth: "i < length xs \<Longrightarrow> drop i xs = xs ! i # drop (Suc i) xs"
  by (simp add: Cons_nth_drop_Suc)

lemma copy_loop_ok:
  "i \<le> sz \<Longrightarrow> sz \<le> length s \<Longrightarrow> sz \<le> length t \<Longrightarrow>
   copy_loop s t i sz = Some (take i t @ take (sz - i) (drop i s) @ drop sz t)"
proof (induction "sz - i" arbitrary: i t)
  case 0
  then show ?case by (subst copy_loop.simps) simp
next
  case (Suc m)
  then have i: "i < sz" "m = sz - Suc i" by auto
  have "sz - i = Suc (sz - Suc i)" using i by simp
  with Suc.hyps(1) [of "Suc i" "t[i := s ! i]"] Suc.prems i show ?case
    by (subst copy_loop.simps)
      (simp add: byte_at_def set_byte_def drop_update_take drop_nth [of i s])
qed

lemma memory_memcopy_ok:
  assumes "n \<le> length s" "n \<le> length t"
  shows "memory_memcopy (Ref s) (Ref t) n = Some (Ref (take n s @ drop n t), 0)"
  using copy_loop_ok [of 0 n s t] assms by (simp add: memory_memcopy_def)

lemma fill_loop_ok:
  "i \<le> sz \<Longrightarrow> sz \<le> length t \<Longrightarrow>
   fill_loop t v i sz = Some (take i t @ replicate (sz - i) v @ drop sz t)"
proof (induction "sz - i" arbitrary: i t)
  case 0
  then show ?case by (subst fill_loop.simps) simp
next
  case (Suc m)
  then have i: "i < sz" "m = sz - Suc i" "sz - i = Suc (sz - Suc i)" by auto
  with Suc.hyps(1) [of "Suc i" "t[i := v]"] Suc.prems show ?case
    by (subst fill_loop.simps) (simp add: set_byte_def drop_update_take)
qed

lemma memory_memclean_ok:
  "n \<le> length t \<Longrightarrow> memory_memclean t n = Some (replicate n 0 @ drop n t)"
  using fill_loop_ok [of 0 n t 0] by (simp add: memory_memclean_def)

subsection \<open>Little endian numbers\<close>

lemma le_nat_simps [simp]: "le_nat [] = 0" "le_nat (b # bs) = unat b + 256 * le_nat bs"
  by (simp_all add: le_nat_def)

lemma le_nat_less: "le_nat bs < 256 ^ length bs"
proof (induction bs)
  case (Cons b bs)
  have "unat b + 256 * le_nat bs < 256 * Suc (le_nat bs)" using unat_byte [of b] by simp
  also have "\<dots> \<le> 256 * 256 ^ length bs" using Cons by (simp del: mult_Suc_right)
  finally show ?case by simp
qed simp

lemma le_nat_inject: "length bs = length cs \<Longrightarrow> le_nat bs = le_nat cs \<longleftrightarrow> bs = cs"
proof (induction bs cs rule: list_induct2)
  case (Cons b bs c cs)
  have "unat b = unat c \<and> le_nat bs = le_nat cs" if eq: "unat b + 256 * le_nat bs = unat c + 256 * le_nat cs"
  proof -
    have "unat b mod 256 = unat c mod 256"
      using arg_cong [OF eq, of "\<lambda>x. x mod 256"] by simp
    then have "unat b = unat c" using unat_byte [of b] unat_byte [of c] by simp
    with eq show ?thesis by simp
  qed
  then show ?case using Cons by (auto simp: word_unat_eq_iff)
qed simp

lemma le_nat_append: "le_nat (bs @ cs) = le_nat bs + 256 ^ length bs * le_nat cs"
  by (induction bs) (simp_all add: algebra_simps)

lemma le_nat_take: "n \<le> length bs \<Longrightarrow> le_nat bs mod 256 ^ n = le_nat (take n bs)"
proof -
  assume n: "n \<le> length bs"
  have "le_nat bs = le_nat (take n bs) + 256 ^ n * le_nat (drop n bs)"
    using le_nat_append [of "take n bs" "drop n bs"] n by simp
  with le_nat_less [of "take n bs"] n show ?thesis by simp
qed

lemma load64_eq_iff:
  assumes "i + 8 \<le> length m1" "i + 8 \<le> length m2"
  shows "load64 m1 i = load64 m2 i \<longleftrightarrow> take 8 (drop i m1) = take 8 (drop i m2)"
proof -
  let ?a = "take 8 (drop i m1)" and ?b = "take 8 (drop i m2)"
  have len: "length ?a = 8" "length ?b = 8" using assms by auto
  have "le_nat ?a < 18446744073709551616" "le_nat ?b < 18446744073709551616"
    using le_nat_less [of ?a] le_nat_less [of ?b] len by simp_all
  then have "(of_nat (le_nat ?a) :: u64) = of_nat (le_nat ?b) \<longleftrightarrow> ?a = ?b"
    using of_nat64_eq le_nat_inject [of ?a ?b] len by auto
  with assms show ?thesis by (simp add: load64_def)
qed


lemma mask_le_nat:
  assumes "length bs = 8" "n \<le> 8"
  shows "(of_nat (le_nat bs) :: u64) AND mask (8 * n) = of_nat (le_nat (take n bs))"
proof -
  have less: "le_nat bs < 18446744073709551616" "le_nat (take n bs) < 18446744073709551616"
  proof -
    show "le_nat bs < 18446744073709551616" using le_nat_less [of bs] assms by simp
    then show "le_nat (take n bs) < 18446744073709551616"
      using le_nat_take [of n bs] assms mod_less_eq_dividend [of "le_nat bs" "256 ^ n"] by simp
  qed
  have "unat (take_bit (8 * n) (of_nat (le_nat bs) :: u64)) = le_nat bs mod 2 ^ (8 * n)"
    unfolding unsigned_take_bit_eq using less by (simp add: take_bit_eq_mod)
  also have "\<dots> = le_nat (take n bs)"
    using le_nat_take [of n bs] assms by (simp add: power_mult)
  also have "\<dots> = unat (of_nat (le_nat (take n bs)) :: u64)"
    using less by simp
  finally show ?thesis
    by (simp only: word_unat_eq_iff take_bit_eq_mask)
qed

text \<open>The bytes of a number, as storing it in memory lays them out.\<close>

primrec le_bytes :: "nat \<Rightarrow> nat \<Rightarrow> bytes" where
  "le_bytes 0 v = []"
| "le_bytes (Suc n) v = of_nat (v mod 256) # le_bytes n (v div 256)"

lemma length_le_bytes [simp]: "length (le_bytes n v) = n"
  by (induction n arbitrary: v) auto

lemma le_nat_le_bytes: "le_nat (le_bytes n v) = v mod 256 ^ n"
proof (induction n arbitrary: v)
  case (Suc n)
  have "unat (of_nat (v mod 256) :: u8) = v mod 256"
    by (simp add: unat_of_nat take_bit_eq_mod)
  with Suc show ?case by (simp add: mod_mult2_eq)
qed simp

subsection \<open>Comparison\<close>

text \<open>The reference: lexicographic comparison of two byte lists of the same length.\<close>

fun lex_cmp :: "bytes \<Rightarrow> bytes \<Rightarrow> int" where
  "lex_cmp (x # xs) (y # ys) = (if x < y then - 1 else if x > y then 1 else lex_cmp xs ys)"
| "lex_cmp _ _ = 0"

lemma lex_cmp_eq_0: "length xs = length ys \<Longrightarrow> lex_cmp xs ys = 0 \<longleftrightarrow> xs = ys"
  by (induction xs ys rule: list_induct2) auto

lemma lex_cmp_append:
  "length xs = length ys \<Longrightarrow>
   lex_cmp (xs @ us) (ys @ vs) = (if lex_cmp xs ys \<noteq> 0 then lex_cmp xs ys else lex_cmp us vs)"
  by (induction xs ys rule: list_induct2) auto

lemma compare_bytes_ok:
  "i \<le> n \<Longrightarrow> n \<le> length m1 \<Longrightarrow> n \<le> length m2 \<Longrightarrow>
   compare_bytes m1 m2 i n = Some (lex_cmp (take (n - i) (drop i m1)) (take (n - i) (drop i m2)))"
proof (induction "n - i" arbitrary: i)
  case 0
  then show ?case by (subst compare_bytes.simps) simp
next
  case (Suc m)
  then have i: "i < n" "m = n - Suc i" "n - i = Suc (n - Suc i)" by auto
  with Suc show ?case
    by (subst compare_bytes.simps) (simp add: byte_at_def drop_nth [of i m1] drop_nth [of i m2])
qed

lemma take_8_split:
  "i < q \<Longrightarrow> take (8 * (q - i)) (drop (8 * i) m) =
     take 8 (drop (8 * i) m) @ take (8 * (q - Suc i)) (drop (8 * Suc i) m)"
proof -
  assume "i < q"
  then have "8 * (q - i) = 8 + 8 * (q - Suc i)" by simp
  then show ?thesis by (simp add: take_add add.commute)
qed

lemma compare_words_ok:
  "i \<le> q \<Longrightarrow> 8 * q \<le> length m1 \<Longrightarrow> 8 * q \<le> length m2 \<Longrightarrow>
   compare_words m1 m2 i q =
     Some (lex_cmp (take (8 * (q - i)) (drop (8 * i) m1)) (take (8 * (q - i)) (drop (8 * i) m2)))"
proof (induction "q - i" arbitrary: i)
  case 0
  then show ?case by (subst compare_words.simps) simp
next
  case (Suc m)
  then have i: "i < q" "m = q - Suc i" by auto
  let ?a = "take 8 (drop (8 * i) m1)" and ?b = "take 8 (drop (8 * i) m2)"
  have len: "8 * i + 8 \<le> length m1" "8 * i + 8 \<le> length m2" "length ?a = length ?b"
    using i Suc.prems by auto
  obtain w1 w2 where w: "load64 m1 (8 * i) = Some w1" "load64 m2 (8 * i) = Some w2"
    using len by (auto simp: load64_def)
  have eq: "w1 = w2 \<longleftrightarrow> lex_cmp ?a ?b = 0"
    using load64_eq_iff [OF len(1,2)] w lex_cmp_eq_0 [OF len(3)] by simp
  have "compare_bytes m1 m2 (8 * i) (8 * i + 8) = Some (lex_cmp ?a ?b)"
    using compare_bytes_ok [of "8 * i" "8 * i + 8" m1 m2] len by simp
  with Suc.hyps(1) [OF i(2)] Suc.prems i(1) w eq show ?case
    by (subst compare_words.simps) (simp add: take_8_split [OF i(1)] lex_cmp_append [OF len(3)])
qed

lemma memory_memcompare_ok:
  assumes "n \<le> length m1" "n \<le> length m2"
  shows "memory_memcompare (Ref m1) (Ref m2) n = Some (lex_cmp (take n m1) (take n m2))"
proof -
  let ?k = "8 * (n div 8)"
  have k: "?k \<le> n" by simp
  have split: "take n m = take ?k m @ take (n - ?k) (drop ?k m)" for m :: bytes
    using take_add [of ?k "n - ?k" m] k by simp
  have "compare_words m1 m2 0 (n div 8) = Some (lex_cmp (take ?k m1) (take ?k m2))"
    using compare_words_ok [of 0 "n div 8" m1 m2] assms k by simp
  moreover have "compare_bytes m1 m2 ?k n =
      Some (lex_cmp (take (n - ?k) (drop ?k m1)) (take (n - ?k) (drop ?k m2)))"
    using assms k by (intro compare_bytes_ok) auto
  moreover have "length (take ?k m1) = length (take ?k m2)"
    using assms k by simp
  ultimately show ?thesis
    unfolding memory_memcompare_def split [of m1] split [of m2] by (simp add: lex_cmp_append)
qed

end
