(* ===== verification/Buffer.thy ===== *)
theory Buffer
  imports Memory_Bytes
begin

text \<open>
  The growing byte buffer of \<open>cc/lib/buffer.64.c\<close> (all of it but the formatted printing).
  A receiver is null or a buffer; operations return the updated receiver with the C return
  value, a returned \<^verbatim>\<open>buffer_t*\<close> being true when it is not null. \<open>ok\<close> says whether the
  allocation an operation may make succeeds; fresh memory is zero filled. The lock is a flag
  as in the lists.
\<close>

subsection \<open>Data\<close>

record buffer_t =
  b_locked :: bool
  b_capacity :: u64
  b_length :: u64
  b_position :: u64
  b_readonly :: bool
  b_mark_position :: u64
  b_data :: "bytes ref"

datatype buffer_seek_direction_t =
  BUFFER_SEEK_DIRECTION_START | BUFFER_SEEK_DIRECTION_CURRENT | BUFFER_SEEK_DIRECTION_END

text \<open>Pointer arithmetic: the null pointer and pointers past the end of the object stay put or have no value.\<close>

definition ptr_add :: "bytes ref \<Rightarrow> nat \<Rightarrow> bytes ref option" where
  "ptr_add p n =
     (case p of NULL \<Rightarrow> (if n = 0 then Some NULL else None)
      | Ref d \<Rightarrow> (if n \<le> length d then Some (Ref (drop n d)) else None))"

definition read_byte :: "bytes ref \<Rightarrow> u64 \<Rightarrow> u8 option" where
  "read_byte p i = do { d \<leftarrow> ref_opt p; byte_at d (unat i) }"

text \<open>\<^verbatim>\<open>memory_memcopy(src, dst + off, n)\<close>, giving the new contents of \<open>dst\<close>.\<close>

definition copy_into :: "bytes ref \<Rightarrow> bytes ref \<Rightarrow> nat \<Rightarrow> nat \<Rightarrow> bytes ref option" where
  "copy_into src dst off n = do {
     p \<leftarrow> ptr_add dst off;
     r \<leftarrow> memory_memcopy src p n;
     Some (case dst of NULL \<Rightarrow> NULL
           | Ref d \<Rightarrow> Ref (take off d @ (case fst r of NULL \<Rightarrow> [] | Ref t \<Rightarrow> t)))
   }"

text \<open>
  \<^verbatim>\<open>memory_malloc_ext\<close> returns NULL for size 0. The allocator rounds sizes up to a multiple of eight; the
  model gives the caller the bytes asked for, so that a use of the rest counts as an error.
\<close>

definition alloc :: "bool \<Rightarrow> u64 \<Rightarrow> bytes ref" where
  "alloc ok n = (if ok \<and> n \<noteq> 0 then Ref (replicate (unat n) 0) else NULL)"

subsection \<open>Creation and attributes\<close>

definition buffer_new_with_capacity :: "bool \<Rightarrow> bool \<Rightarrow> u64 \<Rightarrow> buffer_t ref" where
  "buffer_new_with_capacity ok data_ok capacity =
     (let capacity' = (if capacity = 0 then 1 else capacity) in
      if \<not> ok then NULL
      else if alloc data_ok capacity' = NULL then NULL
      else Ref \<lparr>b_locked = False, b_capacity = capacity', b_length = 0, b_position = 0,
                b_readonly = False, b_mark_position = 0, b_data = alloc data_ok capacity'\<rparr>)"

definition buffer_encapsulate :: "bool \<Rightarrow> bytes ref \<Rightarrow> u64 \<Rightarrow> buffer_t ref" where
  "buffer_encapsulate ok data n =
     (if \<not> ok then NULL
      else Ref \<lparr>b_locked = False, b_capacity = n, b_length = n, b_position = 0,
                b_readonly = True, b_mark_position = 0, b_data = data\<rparr>)"

definition buffer_set_readonly :: "buffer_t ref \<Rightarrow> bool \<Rightarrow> buffer_t ref \<times> bool" where
  "buffer_set_readonly buffer ro =
     (case buffer of NULL \<Rightarrow> (NULL, False) | Ref b \<Rightarrow> (Ref (b\<lparr>b_readonly := ro\<rparr>), True))"

definition buffer_get_length :: "buffer_t ref \<Rightarrow> u64" where
  "buffer_get_length buffer = (case buffer of NULL \<Rightarrow> 0 | Ref b \<Rightarrow> b_length b)"

definition buffer_get_mark_position :: "buffer_t ref \<Rightarrow> u64" where
  "buffer_get_mark_position buffer = (case buffer of NULL \<Rightarrow> 0 | Ref b \<Rightarrow> b_mark_position b)"

definition buffer_set_mark_position :: "buffer_t ref \<Rightarrow> u64 \<Rightarrow> buffer_t ref \<times> bool" where
  "buffer_set_mark_position buffer position =
     (case buffer of NULL \<Rightarrow> (NULL, False)
      | Ref b \<Rightarrow> (if position > b_length b then (Ref b, False)
                  else (Ref (b\<lparr>b_mark_position := position\<rparr>), True)))"

definition buffer_reset :: "buffer_t ref \<Rightarrow> (buffer_t ref \<times> bool) option" where
  "buffer_reset buffer =
     (case buffer of NULL \<Rightarrow> Some (NULL, False)
      | Ref b \<Rightarrow> do {
          d \<leftarrow> (if b_length b = 0 then Some (b_data b)
               else do {
                 d \<leftarrow> ref_opt (b_data b);
                 d' \<leftarrow> memory_memclean d (unat (b_length b));
                 Some (Ref d')
               });
          Some (Ref (b\<lparr>b_data := d, b_length := 0, b_position := 0, b_locked := False\<rparr>), True)
        })"

definition buffer_get_capacity :: "buffer_t ref \<Rightarrow> u64" where
  "buffer_get_capacity buffer = (case buffer of NULL \<Rightarrow> 0 | Ref b \<Rightarrow> b_capacity b)"

definition buffer_get_position :: "buffer_t ref \<Rightarrow> u64" where
  "buffer_get_position buffer = (case buffer of NULL \<Rightarrow> 0 | Ref b \<Rightarrow> b_position b)"

subsection \<open>Writing\<close>

text \<open>The capacity doubles up to 1 MiB and then grows by 1 MiB; the loop may not end.\<close>

partial_function (option) resize_loop :: "u64 \<Rightarrow> u64 \<Rightarrow> u64 option" where
  "resize_loop need new_cap =
     (if need > new_cap then
        resize_loop need (if new_cap > push_bit 20 1 then new_cap + push_bit 20 1 else new_cap * 2)
      else Some new_cap)"

definition buffer_resize_if_need :: "bool \<Rightarrow> buffer_t \<Rightarrow> u64 \<Rightarrow> (buffer_t \<times> bool) option" where
  "buffer_resize_if_need ok b n = do {
     new_cap \<leftarrow> resize_loop (b_position b + n) (b_capacity b);
     (if b_capacity b \<noteq> new_cap then
        (if alloc ok new_cap = NULL then Some (b, False)
         else do {
           tmp \<leftarrow> copy_into (b_data b) (alloc ok new_cap) 0 (unat (b_length b));
           Some (b\<lparr>b_capacity := new_cap, b_data := tmp\<rparr>, True)
         })
      else Some (b, True))
   }"

definition extend_length :: "buffer_t \<Rightarrow> buffer_t" where
  "extend_length b = (if b_length b < b_position b then b\<lparr>b_length := b_position b\<rparr> else b)"

definition buffer_append_byte :: "bool \<Rightarrow> buffer_t ref \<Rightarrow> u8 \<Rightarrow> (buffer_t ref \<times> bool) option" where
  "buffer_append_byte ok buffer data =
     (case buffer of NULL \<Rightarrow> Some (NULL, False)
      | Ref b \<Rightarrow>
          (if b_readonly b then Some (buffer, False)
           else do {
             r \<leftarrow> buffer_resize_if_need ok (b\<lparr>b_locked := True\<rparr>) 1;
             (let b1 = fst r in
              if \<not> snd r then Some (Ref (b1\<lparr>b_locked := False\<rparr>), False)
              else do {
                d \<leftarrow> ref_opt (b_data b1);
                d' \<leftarrow> set_byte d (unat (b_position b1)) data;
                (let b2 = extend_length (b1\<lparr>b_data := Ref d', b_position := b_position b1 + 1\<rparr>) in
                 Some (Ref (b2\<lparr>b_locked := False\<rparr>), True))
              })
           }))"

text \<open>
  The appended bytes are a value: they are not a part of the block of the buffer itself, which the
  resizing may have freed before they are read.
\<close>

definition buffer_append_bytes ::
  "bool \<Rightarrow> buffer_t ref \<Rightarrow> bytes ref \<Rightarrow> u64 \<Rightarrow> (buffer_t ref \<times> bool) option" where
  "buffer_append_bytes ok buffer data n =
     (case buffer of NULL \<Rightarrow> Some (NULL, False)
      | Ref b \<Rightarrow>
          (if b_readonly b then Some (buffer, False)
           else do {
             r \<leftarrow> buffer_resize_if_need ok (b\<lparr>b_locked := True\<rparr>) n;
             (let b1 = fst r in
              if \<not> snd r then Some (Ref (b1\<lparr>b_locked := False\<rparr>), False)
              else do {
                d \<leftarrow> copy_into data (b_data b1) (unat (b_position b1)) (unat n);
                (let b2 = extend_length (b1\<lparr>b_data := d, b_position := b_position b1 + n\<rparr>) in
                 Some (Ref (b2\<lparr>b_locked := False\<rparr>), True))
              })
           }))"

definition buffer_append_buffer ::
  "bool \<Rightarrow> buffer_t ref \<Rightarrow> buffer_t ref \<Rightarrow> (buffer_t ref \<times> bool) option" where
  "buffer_append_buffer ok buffer appenden = do {
     a \<leftarrow> ref_opt appenden;
     buffer_append_bytes ok buffer (b_data a) (b_length a)
   }"

subsection \<open>Reading\<close>

text \<open>The allocated copy is returned even when its allocation failed.\<close>

definition buffer_get_bytes :: "bool \<Rightarrow> buffer_t \<Rightarrow> u64 \<Rightarrow> (buffer_t \<times> bytes ref) option" where
  "buffer_get_bytes ok b n =
     (if n = 0 then Some (b, NULL)
      else if b_position b \<ge> b_length b then Some (b\<lparr>b_locked := False\<rparr>, NULL)
      else do {
        p \<leftarrow> ptr_add (b_data b) (unat (b_position b));
        r \<leftarrow> memory_memcopy p (alloc ok n) (unat n);
        Some (b\<lparr>b_position := b_position b + n, b_locked := False\<rparr>, fst r)
      })"

definition buffer_get_all_bytes :: "bool \<Rightarrow> buffer_t \<Rightarrow> (bytes ref \<times> u64) option" where
  "buffer_get_all_bytes ok b =
     (if alloc ok (b_length b) = NULL then Some (NULL, 0)
      else do {
        r \<leftarrow> memory_memcopy (b_data b) (alloc ok (b_length b)) (unat (b_length b));
        Some (fst r, b_length b)
      })"

definition buffer_get_all_bytes_and_reset :: "bool \<Rightarrow> buffer_t \<Rightarrow> buffer_t \<times> bytes ref \<times> u64" where
  "buffer_get_all_bytes_and_reset ok b =
     (b\<lparr>b_data := alloc ok (b_capacity b), b_length := 0, b_position := 0, b_locked := False\<rparr>,
      b_data b, b_length b)"

definition buffer_get_all_bytes_and_destroy :: "buffer_t ref \<Rightarrow> bytes ref \<times> u64 option" where
  "buffer_get_all_bytes_and_destroy buffer =
     (case buffer of NULL \<Rightarrow> (NULL, None) | Ref b \<Rightarrow> (b_data b, Some (b_length b)))"

definition buffer_get_byte :: "buffer_t \<Rightarrow> (buffer_t \<times> u8) option" where
  "buffer_get_byte b =
     (if b_position b \<ge> b_length b then Some (b\<lparr>b_locked := False\<rparr>, 0)
      else do {
        res \<leftarrow> read_byte (b_data b) (b_position b);
        Some (b\<lparr>b_position := b_position b + 1, b_locked := False\<rparr>, res)
      })"

definition buffer_peek_byte_at_position :: "buffer_t ref \<Rightarrow> u64 \<Rightarrow> u8 option" where
  "buffer_peek_byte_at_position buffer position =
     (case buffer of NULL \<Rightarrow> Some 0
      | Ref b \<Rightarrow> (if position + 1 > b_length b then Some 0 else read_byte (b_data b) position))"

definition buffer_peek_byte :: "buffer_t ref \<Rightarrow> u8 option" where
  "buffer_peek_byte buffer =
     (case buffer of NULL \<Rightarrow> Some 0
      | Ref b \<Rightarrow> (if b_position b + 1 > b_length b then Some 0
                  else read_byte (b_data b) (b_position b)))"

text \<open>
  Eight bytes are loaded whatever \<open>bc\<close> is, and masked to \<open>bc\<close> bytes.
\<close>

definition buffer_peek_ints_at_position :: "buffer_t ref \<Rightarrow> u64 \<Rightarrow> u8 \<Rightarrow> u64 option" where
  "buffer_peek_ints_at_position buffer position bc =
     (case buffer of NULL \<Rightarrow> Some 0
      | Ref b \<Rightarrow>
          (if bc \<le> 0 \<or> bc > 8 then Some 0
           else if position + ucast bc > b_length b then Some 0
           else do {
             d \<leftarrow> ref_opt (b_data b);
             res \<leftarrow> load64 d (unat position);
             Some (if bc = 1 then res AND 0xFF
                   else if bc = 2 then res AND 0xFFFF
                   else if bc = 3 then res AND 0xFFFFFF
                   else if bc = 4 then res AND 0xFFFFFFFF
                   else if bc = 5 then res AND 0xFFFFFFFFFF
                   else if bc = 6 then res AND 0xFFFFFFFFFFFF
                   else if bc = 7 then res AND 0xFFFFFFFFFFFFFF
                   else res)
           }))"

definition buffer_peek_ints :: "buffer_t ref \<Rightarrow> u8 \<Rightarrow> u64 option" where
  "buffer_peek_ints buffer bc =
     (case buffer of NULL \<Rightarrow> Some 0
      | Ref b \<Rightarrow> buffer_peek_ints_at_position buffer (b_position b) bc)"

definition buffer_read_ints :: "buffer_t ref \<Rightarrow> u8 \<Rightarrow> (buffer_t ref \<times> u64) option" where
  "buffer_read_ints buffer bc =
     (case buffer of NULL \<Rightarrow> Some (NULL, 0)
      | Ref b \<Rightarrow> do {
          res \<leftarrow> buffer_peek_ints buffer bc;
          Some (Ref (b\<lparr>b_position := b_position b + ucast bc, b_locked := False\<rparr>), res)
        })"

definition buffer_remaining :: "buffer_t \<Rightarrow> u64" where
  "buffer_remaining b = b_length b - b_position b"

text \<open>\<open>position\<close> is an \<^verbatim>\<open>int64_t\<close>: its sign is read with \<open>sint\<close>.\<close>

definition buffer_seek ::
  "buffer_t ref \<Rightarrow> u64 \<Rightarrow> buffer_seek_direction_t \<Rightarrow> buffer_t ref \<times> bool" where
  "buffer_seek buffer position direction =
     (case buffer of NULL \<Rightarrow> (NULL, False)
      | Ref b \<Rightarrow>
          (let fail = (Ref (b\<lparr>b_locked := False\<rparr>), False);
               finish = (\<lambda>start. let b1 = b\<lparr>b_position := start + position\<rparr> in
                  (Ref ((if b_position b1 > b_length b1 then b1\<lparr>b_length := b_position b1\<rparr> else b1)
                     \<lparr>b_locked := False\<rparr>), True)) in
           case direction of
             BUFFER_SEEK_DIRECTION_START \<Rightarrow>
               (if sint position < 0 \<or> position > b_capacity b then fail else finish 0)
           | BUFFER_SEEK_DIRECTION_END \<Rightarrow>
               (if sint position > 0 \<or> sint (position + b_capacity b) < 0 then fail
                else finish (b_capacity b))
           | BUFFER_SEEK_DIRECTION_CURRENT \<Rightarrow>
               (if b_position b + position > b_capacity b \<or> sint (b_position b + position) < 0
                then fail else finish (b_position b))))"

text \<open>Whether the data is freed with the buffer, and the return value.\<close>

definition buffer_destroy :: "buffer_t ref \<Rightarrow> bool \<times> int" where
  "buffer_destroy buffer = (case buffer of NULL \<Rightarrow> (False, 0) | Ref b \<Rightarrow> (\<not> b_readonly b, 0))"

definition buffer_write_slice_into ::
  "buffer_t ref \<Rightarrow> u64 \<Rightarrow> u64 \<Rightarrow> bytes ref \<Rightarrow> (bytes ref \<times> bool) option" where
  "buffer_write_slice_into buffer pos len dest =
     (case buffer of NULL \<Rightarrow> Some (dest, False)
      | Ref b \<Rightarrow>
          (if dest = NULL then Some (dest, False)
           else if pos > b_length b then Some (dest, False)
           else
             (let len' = (if len > b_length b - pos then b_length b - pos else len) in
              if len' = 0 then Some (dest, False)
              else do {
                p \<leftarrow> ptr_add (b_data b) (unat pos);
                r \<leftarrow> memory_memcopy p dest (unat len');
                Some (fst r, True)
              })))"

definition buffer_get_view_at_position :: "buffer_t ref \<Rightarrow> u64 \<Rightarrow> u64 \<Rightarrow> bytes ref option" where
  "buffer_get_view_at_position buffer position n =
     (case buffer of NULL \<Rightarrow> Some NULL
      | Ref b \<Rightarrow> (if position + n > b_length b then Some NULL
                  else ptr_add (b_data b) (unat position)))"

subsection \<open>Lines\<close>

text \<open>
  A byte compared with a \<^verbatim>\<open>char_t\<close>: both are promoted to \<^verbatim>\<open>int\<close>, the character with its
  sign, so that no byte equals a character with the high bit set.
\<close>

definition byte_is_char :: "u8 \<Rightarrow> u8 \<Rightarrow> bool" where
  "byte_is_char b ch \<longleftrightarrow> uint b = sint ch"

text \<open>
  The loop of \<^verbatim>\<open>buffer_read_line_ext\<close>. An append to the result that fails is not noticed.
\<close>

partial_function (option) read_line_loop ::
  "bool \<Rightarrow> u8 \<Rightarrow> u8 \<Rightarrow> buffer_t \<Rightarrow> buffer_t ref \<Rightarrow> (buffer_t \<times> buffer_t ref) option" where
  "read_line_loop ok cont delim b res =
     (if b_position b < b_length b then do {
        c \<leftarrow> read_byte (b_data b) (b_position b);
        (if byte_is_char c delim then Some (b\<lparr>b_position := b_position b + 1\<rparr>, res)
         else do {
           joined \<leftarrow> (if b_position b + 1 < b_length b \<and> byte_is_char c cont then do {
                       c' \<leftarrow> read_byte (b_data b) (b_position b + 1);
                       Some (c' = 10)
                     } else Some False);
           (if joined then read_line_loop ok cont delim (b\<lparr>b_position := b_position b + 2\<rparr>) res
            else do {
              r \<leftarrow> buffer_append_byte ok res c;
              read_line_loop ok cont delim (b\<lparr>b_position := b_position b + 1\<rparr>) (fst r)
            })
         })
      } else Some (b, res))"

text \<open>
  The line, null when there is none, and the value written to \<^verbatim>\<open>*length\<close>, if one is written.
\<close>

definition buffer_read_line_ext ::
  "bool \<Rightarrow> bool \<Rightarrow> buffer_t ref \<Rightarrow> u8 \<Rightarrow> u8 \<Rightarrow> (buffer_t ref \<times> bytes ref \<times> u64 option) option" where
  "buffer_read_line_ext new_ok ok buffer cont delim =
     (case buffer of NULL \<Rightarrow> Some (NULL, NULL, None)
      | Ref b \<Rightarrow>
          (if b_position b \<ge> b_length b then Some (buffer, NULL, None)
           else
             (case buffer_new_with_capacity new_ok new_ok 128 of
                NULL \<Rightarrow> Some (buffer, NULL, Some (- 1))
              | Ref res \<Rightarrow> do {
                  r \<leftarrow> read_line_loop ok cont delim b (Ref res);
                  r' \<leftarrow> buffer_append_byte ok (snd r) 0;
                  (let (line, n) = buffer_get_all_bytes_and_destroy (fst r') in
                   Some (Ref (fst r), line, n))
                })))"

declare resize_loop.simps [code] read_line_loop.simps [code]

end
