(* ===== verification/Buffer_Props.thy ===== *)
theory Buffer_Props
  imports Buffer
begin

text \<open>
  The invariant of buffers, the effect of every operation on the bytes a buffer holds, and
  their properties. Positions and lengths are bounded by \<open>2 ^ 61\<close> bytes so that the growing
  capacity cannot wrap.
\<close>

subsection \<open>Invariant\<close>

definition buf_inv :: "buffer_t \<Rightarrow> bool" where
  "buf_inv b \<longleftrightarrow>
     (case b_data b of NULL \<Rightarrow> False
      | Ref d \<Rightarrow> length d = unat (b_capacity b) \<and> 0 < unat (b_capacity b) \<and>
          unat (b_capacity b) < 2 ^ 63 \<and> unat (b_length b) \<le> unat (b_capacity b) \<and>
          unat (b_position b) \<le> unat (b_length b))"

definition contents :: "buffer_t \<Rightarrow> bytes" where
  "contents b = take (unat (b_length b)) (ref_of (b_data b))"

definition overwrite :: "nat \<Rightarrow> bytes \<Rightarrow> bytes \<Rightarrow> bytes" where
  "overwrite p bs c = take p c @ bs @ drop (p + length bs) c"

definition same_buffer_flags :: "buffer_t \<Rightarrow> buffer_t \<Rightarrow> bool" where
  "same_buffer_flags b b' \<longleftrightarrow>
     b_readonly b' = b_readonly b \<and> b_mark_position b' = b_mark_position b \<and> \<not> b_locked b'"

lemma length_contents [simp]: "buf_inv b \<Longrightarrow> length (contents b) = unat (b_length b)"
  by (auto simp: buf_inv_def contents_def split: ref.splits)

lemma buf_inv_lock [simp]: "buf_inv (b\<lparr>b_locked := x\<rparr>) \<longleftrightarrow> buf_inv b"
  by (simp add: buf_inv_def split: ref.split)

lemma contents_lock [simp]: "contents (b\<lparr>b_locked := x\<rparr>) = contents b"
  by (simp add: contents_def)

lemma unat_add_lt:
  "unat (a :: u64) + unat b < 18446744073709551616 \<Longrightarrow> unat (a + b) = unat a + unat b"
  by (simp add: unat_word_ariths)

subsection \<open>Growth\<close>

lemma resize_step:
  assumes "0 < unat c" "unat c < unat need" "unat need \<le> 2 ^ 61"
  defines "c' \<equiv> if c > push_bit 20 (1 :: u64) then c + push_bit 20 1 else c * 2"
  shows "unat c < unat c'" "unat c' \<le> 2 ^ 62"
proof -
  have p: "push_bit 20 (1 :: u64) = 1048576" by simp
  have "unat c' = (if unat c > 1048576 then unat c + 1048576 else unat c * 2)"
    using assms(2,3) unat_add_lt [of c 1048576] unat_add_lt [of c c]
    by (auto simp: c'_def p word_less_nat_alt simp flip: mult_2_right)
  with assms(1-3) show "unat c < unat c'" "unat c' \<le> 2 ^ 62" by auto
qed

lemma resize_loop_ok:
  assumes "unat need \<le> 2 ^ 61"
  shows "0 < unat c \<Longrightarrow> \<exists>c'. resize_loop need c = Some c' \<and> unat need \<le> unat c' \<and>
    unat c \<le> unat c' \<and> unat c' \<le> max (unat c) (2 ^ 62)"
proof (induction "unat need - unat c" arbitrary: c rule: less_induct)
  case less
  show ?case
  proof (cases "need > c")
    case True
    then have lt: "unat c < unat need" by (simp add: word_less_nat_alt)
    note step = resize_step [OF less.prems lt assms]
    let ?c = "if c > push_bit 20 (1 :: u64) then c + push_bit 20 1 else c * 2"
    have "unat need - unat ?c < unat need - unat c" using step(1) lt by linarith
    with less.hyps [OF this] step less.prems obtain c' where
      "resize_loop need ?c = Some c'" "unat need \<le> unat c'" "unat ?c \<le> unat c'"
      "unat c' \<le> max (unat ?c) (2 ^ 62)"
      by auto
    moreover have "resize_loop need c = resize_loop need ?c"
      using True by (subst resize_loop.simps) simp
    ultimately show ?thesis using step by (intro exI [of _ c']) auto
  next
    case False
    then show ?thesis
      using less.prems by (subst resize_loop.simps) (auto simp: word_less_nat_alt)
  qed
qed

lemma copy_into_ok:
  assumes "n \<le> length s" "off + n \<le> length d"
  shows "copy_into (Ref s) (Ref d) off n = Some (Ref (take off d @ take n s @ drop (off + n) d))"
  using assms memory_memcopy_ok [of n s "drop off d"]
  by (simp add: copy_into_def ptr_add_def add.commute)

lemma resize_ok:
  assumes inv: "buf_inv b" and bound: "unat (b_position b) + unat n \<le> 2 ^ 61"
  shows "\<exists>b'. buffer_resize_if_need True b n = Some (b', True) \<and> buf_inv b' \<and>
    contents b' = contents b \<and> unat (b_position b) + unat n \<le> unat (b_capacity b') \<and>
    unat (b_capacity b) \<le> unat (b_capacity b') \<and>
    b' = b\<lparr>b_capacity := b_capacity b', b_data := b_data b'\<rparr>"
proof -
  obtain d where d: "b_data b = Ref d" "length d = unat (b_capacity b)" "0 < unat (b_capacity b)"
    "unat (b_capacity b) < 2 ^ 63" "unat (b_length b) \<le> unat (b_capacity b)"
    "unat (b_position b) \<le> unat (b_length b)"
    using inv by (auto simp: buf_inv_def split: ref.splits)
  have need: "unat (b_position b + n) = unat (b_position b) + unat n"
    using bound by (intro unat_add_lt) simp
  from resize_loop_ok [of "b_position b + n" "b_capacity b"] need bound d(3) obtain c where
    c: "resize_loop (b_position b + n) (b_capacity b) = Some c"
      "unat (b_position b) + unat n \<le> unat c" "unat (b_capacity b) \<le> unat c"
      "unat c \<le> max (unat (b_capacity b)) (2 ^ 62)"
    by auto
  show ?thesis
  proof (cases "b_capacity b = c")
    case True
    then show ?thesis
      using c inv by (auto simp: buffer_resize_if_need_def)
  next
    case False
    let ?z = "replicate (unat c) (0 :: u8)" and ?n = "unat (b_length b)"
    have "copy_into (Ref d) (Ref ?z) 0 ?n = Some (Ref (take ?n d @ drop ?n ?z))"
      using copy_into_ok [of ?n d 0 ?z] c(3) d by simp
    then have "buffer_resize_if_need True b n =
        Some (b\<lparr>b_capacity := c, b_data := Ref (take ?n d @ drop ?n ?z)\<rparr>, True)"
      using c(1,3) False d(1,3) by (auto simp: buffer_resize_if_need_def alloc_def)
    then show ?thesis
      using c d by (auto simp: buf_inv_def contents_def)
  qed
qed

text \<open>The tail of both appends: the position moves and the length follows.\<close>

lemma append_finish:
  assumes inv: "buf_inv b" and fits: "unat (b_position b) + length bs \<le> unat (b_capacity b)"
    and d: "b_data b = Ref d" and n: "unat n = length bs"
  defines "b' \<equiv> (extend_length (b\<lparr>b_data := Ref (take (unat (b_position b)) d @ bs @
      drop (unat (b_position b) + length bs) d), b_position := b_position b + n\<rparr>))\<lparr>b_locked := False\<rparr>"
  shows "buf_inv b'" "contents b' = overwrite (unat (b_position b)) bs (contents b)"
    "unat (b_position b') = unat (b_position b) + length bs" "same_buffer_flags b b'"
    "b_capacity b' = b_capacity b"
proof -
  let ?p = "unat (b_position b)" and ?l = "unat (b_length b)"
  have b: "length d = unat (b_capacity b)" "0 < unat (b_capacity b)" "unat (b_capacity b) < 2 ^ 63"
    "?l \<le> unat (b_capacity b)" "?p \<le> ?l"
    using inv d by (auto simp: buf_inv_def)
  have pos: "unat (b_position b + n) = ?p + length bs"
    using fits b(3) n by (simp add: unat_add_lt)
  show "unat (b_position b') = ?p + length bs" "same_buffer_flags b b'" "b_capacity b' = b_capacity b"
    using pos by (auto simp: b'_def extend_length_def same_buffer_flags_def)
  show "buf_inv b'"
    using b fits pos by (auto simp: b'_def extend_length_def buf_inv_def word_less_nat_alt)
  show "contents b' = overwrite ?p bs (contents b)"
  proof (cases "?l < ?p + length bs")
    case True
    then show ?thesis
      using b fits pos d by (simp add: b'_def extend_length_def contents_def overwrite_def word_less_nat_alt)
  next
    case False
    then have "?p + length bs \<le> ?l" by simp
    moreover from this have "min ?p ?l = ?p" "min ?l ?p = ?p" by auto
    ultimately show ?thesis
      using b fits pos d
      by (simp add: b'_def extend_length_def contents_def overwrite_def word_less_nat_alt drop_take)
  qed
qed

lemma append_bytes_ok:
  assumes inv: "buf_inv b" and rw: "\<not> b_readonly b" and n: "unat n \<le> length bs"
    and bound: "unat (b_position b) + unat n \<le> 2 ^ 61"
  shows "\<exists>b'. buffer_append_bytes True (Ref b) (Ref bs) n = Some (Ref b', True) \<and> buf_inv b' \<and>
    contents b' = overwrite (unat (b_position b)) (take (unat n) bs) (contents b) \<and>
    unat (b_position b') = unat (b_position b) + unat n \<and> same_buffer_flags b b' \<and>
    unat (b_capacity b) \<le> unat (b_capacity b')"
proof -
  let ?b = "b\<lparr>b_locked := True\<rparr>"
  have "buf_inv ?b" "unat (b_position ?b) + unat n \<le> 2 ^ 61"
    using inv bound by simp_all
  from resize_ok [OF this] obtain b1 where
    b1: "buffer_resize_if_need True ?b n = Some (b1, True)" "buf_inv b1" "contents b1 = contents ?b"
      "unat (b_position ?b) + unat n \<le> unat (b_capacity b1)"
      "unat (b_capacity ?b) \<le> unat (b_capacity b1)"
      "b1 = ?b\<lparr>b_capacity := b_capacity b1, b_data := b_data b1\<rparr>"
    by blast
  have eq: "b_position b1 = b_position b" "b_readonly b1 = b_readonly b"
    "b_mark_position b1 = b_mark_position b"
    by (subst b1(6), simp)+
  obtain d where d: "b_data b1 = Ref d" "length d = unat (b_capacity b1)"
    using b1(2) by (auto simp: buf_inv_def split: ref.splits)
  have len: "length (take (unat n) bs) = unat n" using n by simp
  note fin = append_finish [OF b1(2) _ d(1), of "take (unat n) bs" n]
  have "copy_into (Ref bs) (b_data b1) (unat (b_position b1)) (unat n) =
      Some (Ref (take (unat (b_position b1)) d @ take (unat n) bs @ drop (unat (b_position b1) + unat n) d))"
    using d b1(4) eq n by (simp add: copy_into_ok)
  then show ?thesis
    using fin b1 eq len rw
    by (auto simp: buffer_append_bytes_def Let_def same_buffer_flags_def)
qed

lemma append_byte_ok:
  assumes inv: "buf_inv b" and rw: "\<not> b_readonly b"
    and bound: "unat (b_position b) + 1 \<le> 2 ^ 61"
  shows "\<exists>b'. buffer_append_byte True (Ref b) c = Some (Ref b', True) \<and> buf_inv b' \<and>
    contents b' = overwrite (unat (b_position b)) [c] (contents b) \<and>
    unat (b_position b') = unat (b_position b) + 1 \<and> same_buffer_flags b b'"
proof -
  let ?b = "b\<lparr>b_locked := True\<rparr>"
  have "buf_inv ?b" "unat (b_position ?b) + unat 1 \<le> 2 ^ 61"
    using inv bound by simp_all
  from resize_ok [OF this] obtain b1 where
    b1: "buffer_resize_if_need True ?b 1 = Some (b1, True)" "buf_inv b1" "contents b1 = contents ?b"
      "unat (b_position ?b) + 1 \<le> unat (b_capacity b1)"
      "unat (b_capacity ?b) \<le> unat (b_capacity b1)"
      "b1 = ?b\<lparr>b_capacity := b_capacity b1, b_data := b_data b1\<rparr>"
    by auto
  have eq: "b_position b1 = b_position b" "b_readonly b1 = b_readonly b"
    "b_mark_position b1 = b_mark_position b"
    by (subst b1(6), simp)+
  obtain d where d: "b_data b1 = Ref d" "length d = unat (b_capacity b1)"
    using b1(2) by (auto simp: buf_inv_def split: ref.splits)
  note fin = append_finish [OF b1(2) _ d(1), of "[c]" 1]
  have "unat (b_position b1) < length d" using d b1(4) eq by simp
  then have "set_byte d (unat (b_position b1)) c =
      Some (take (unat (b_position b1)) d @ [c] @ drop (unat (b_position b1) + length [c]) d)"
    by (simp add: set_byte_def upd_conv_take_nth_drop)
  then show ?thesis
    using fin b1 eq d rw
    by (auto simp: buffer_append_byte_def Let_def same_buffer_flags_def)
qed

subsection \<open>Reading and seeking\<close>

lemma read_byte_ok:
  assumes "buf_inv b" "unat i < unat (b_length b)"
  shows "read_byte (b_data b) i = Some (contents b ! unat i)"
  using assms by (auto simp: buf_inv_def read_byte_def byte_at_def contents_def split: ref.splits)

lemma get_byte_ok:
  assumes inv: "buf_inv b" and less: "unat (b_position b) < unat (b_length b)"
  shows "\<exists>b'. buffer_get_byte b = Some (b', contents b ! unat (b_position b)) \<and> buf_inv b' \<and>
    contents b' = contents b \<and> unat (b_position b') = unat (b_position b) + 1"
proof -
  have pos: "unat (b_position b + 1) = unat (b_position b) + 1"
    using less by (rule unat_add_one_less)
  have "\<not> b_position b \<ge> b_length b" using less by (simp add: word_le_nat_alt)
  then have "buffer_get_byte b = Some (b\<lparr>b_position := b_position b + 1, b_locked := False\<rparr>,
      contents b ! unat (b_position b))"
    using read_byte_ok [OF inv less] by (simp add: buffer_get_byte_def)
  moreover have "buf_inv (b\<lparr>b_position := b_position b + 1\<rparr>)"
    using inv less pos by (simp add: buf_inv_def split: ref.splits)
  ultimately show ?thesis using pos by (simp add: contents_def)
qed

lemma seek_start_ok:
  assumes inv: "buf_inv b" and p: "unat p \<le> unat (b_length b)"
  shows "\<exists>b'. buffer_seek (Ref b) p BUFFER_SEEK_DIRECTION_START = (Ref b', True) \<and> buf_inv b' \<and>
    contents b' = contents b \<and> b_position b' = p \<and> b_length b' = b_length b \<and>
    b_capacity b' = b_capacity b \<and> b_data b' = b_data b \<and> same_buffer_flags b b'"
proof -
  have cap: "unat p \<le> unat (b_capacity b)" "unat (b_capacity b) < 2 ^ 63"
    using inv p by (auto simp: buf_inv_def split: ref.splits)
  then have "\<not> (sint p < 0 \<or> p > b_capacity b)"
    by (simp add: sint_nonneg64 word_less_nat_alt)
  moreover have "\<not> p > b_length b" using p by (simp add: word_less_nat_alt)
  ultimately have "buffer_seek (Ref b) p BUFFER_SEEK_DIRECTION_START =
      (Ref (b\<lparr>b_position := p, b_locked := False\<rparr>), True)"
    by (simp add: buffer_seek_def)
  moreover have "buf_inv (b\<lparr>b_position := p\<rparr>)"
    using inv p by (simp add: buf_inv_def split: ref.splits)
  ultimately show ?thesis
    by (simp add: contents_def same_buffer_flags_def)
qed

lemma nat_upto8_cases:
  assumes "0 < (n :: nat)" "n \<le> 8"
  shows "n = 1 \<or> n = 2 \<or> n = 3 \<or> n = 4 \<or> n = 5 \<or> n = 6 \<or> n = 7 \<or> n = 8"
  using assms by linarith

lemma mask_numerals:
  "mask 8 = (0xFF :: u64)" "mask 16 = (0xFFFF :: u64)" "mask 24 = (0xFFFFFF :: u64)"
  "mask 32 = (0xFFFFFFFF :: u64)" "mask 40 = (0xFFFFFFFFFF :: u64)"
  "mask 48 = (0xFFFFFFFFFFFF :: u64)" "mask 56 = (0xFFFFFFFFFFFFFF :: u64)"
  by (simp_all add: mask_numeral)

lemma peek_mask:
  assumes "length bs = 8"
  shows "(of_nat (le_nat bs) :: u64) AND 0xFF = of_nat (le_nat (take 1 bs))"
    "(of_nat (le_nat bs) :: u64) AND 0xFFFF = of_nat (le_nat (take 2 bs))"
    "(of_nat (le_nat bs) :: u64) AND 0xFFFFFF = of_nat (le_nat (take 3 bs))"
    "(of_nat (le_nat bs) :: u64) AND 0xFFFFFFFF = of_nat (le_nat (take 4 bs))"
    "(of_nat (le_nat bs) :: u64) AND 0xFFFFFFFFFF = of_nat (le_nat (take 5 bs))"
    "(of_nat (le_nat bs) :: u64) AND 0xFFFFFFFFFFFF = of_nat (le_nat (take 6 bs))"
    "(of_nat (le_nat bs) :: u64) AND 0xFFFFFFFFFFFFFF = of_nat (le_nat (take 7 bs))"
  using mask_le_nat [OF assms, of 1] mask_le_nat [OF assms, of 2] mask_le_nat [OF assms, of 3]
    mask_le_nat [OF assms, of 4] mask_le_nat [OF assms, of 5] mask_le_nat [OF assms, of 6]
    mask_le_nat [OF assms, of 7]
  by (simp_all add: mask_numerals)

lemma peek_ints_ok:
  assumes inv: "buf_inv b" and bc: "0 < unat bc" "unat bc \<le> 8"
    and p: "unat p + unat bc \<le> unat (b_length b)" "unat p + 8 \<le> unat (b_capacity b)"
  shows "buffer_peek_ints_at_position (Ref b) p bc =
    Some (of_nat (le_nat (take (unat bc) (drop (unat p) (contents b)))))"
proof -
  obtain d where d: "b_data b = Ref d" "length d = unat (b_capacity b)"
    "unat (b_length b) \<le> length d" "unat (b_capacity b) < 2 ^ 63"
    using inv by (auto simp: buf_inv_def split: ref.splits)
  define bs where "bs = take 8 (drop (unat p) d)"
  have len: "length bs = 8" using p d by (simp add: bs_def)
  have "unat (p + ucast bc) = unat p + unat bc"
    using p d by (subst unat_add_lt) simp_all
  then have guards: "\<not> (bc \<le> 0 \<or> bc > 8)" "\<not> p + ucast bc > b_length b"
    using bc p by (auto simp: word_le_nat_alt word_less_nat_alt)
  have load: "load64 d (unat p) = Some (of_nat (le_nat bs))"
    using p d by (simp add: load64_def bs_def)
  have take: "take (unat bc) (drop (unat p) (contents b)) = take (unat bc) bs"
    using d bc p by (simp add: contents_def drop_take bs_def)
  have "buffer_peek_ints_at_position (Ref b) p bc = Some (of_nat (le_nat (take (unat bc) bs)))"
  proof -
    have eq: "buffer_peek_ints_at_position (Ref b) p bc = Some (
        if bc = 1 then of_nat (le_nat (take 1 bs)) else if bc = 2 then of_nat (le_nat (take 2 bs))
        else if bc = 3 then of_nat (le_nat (take 3 bs)) else if bc = 4 then of_nat (le_nat (take 4 bs))
        else if bc = 5 then of_nat (le_nat (take 5 bs)) else if bc = 6 then of_nat (le_nat (take 6 bs))
        else if bc = 7 then of_nat (le_nat (take 7 bs)) else of_nat (le_nat bs))"
      unfolding buffer_peek_ints_at_position_def
      by (simp only: guards load d(1) peek_mask [OF len] ref.case if_False ref_opt_simps
          Option.bind.simps simp_thms)
    show ?thesis
      using nat_upto8_cases [OF bc] len unfolding eq by (elim disjE) (simp_all add: word_unat_eq_iff)
  qed
  then show ?thesis by (simp only: take)
qed

lemma read_ints_ok:
  assumes "buf_inv b" "0 < unat bc" "unat bc \<le> 8"
    and "unat (b_position b) + unat bc \<le> unat (b_length b)"
    and "unat (b_position b) + 8 \<le> unat (b_capacity b)"
  shows "buffer_read_ints (Ref b) bc =
    Some (Ref (b\<lparr>b_position := b_position b + ucast bc, b_locked := False\<rparr>),
      of_nat (le_nat (take (unat bc) (drop (unat (b_position b)) (contents b)))))"
  using peek_ints_ok [OF assms] by (simp add: buffer_read_ints_def buffer_peek_ints_def)

subsection \<open>Lines\<close>

text \<open>The line at the front of the bytes: its characters and how many bytes it takes.\<close>

fun line_spec :: "u8 \<Rightarrow> u8 \<Rightarrow> bytes \<Rightarrow> bytes \<times> nat" where
  "line_spec cont delim [] = ([], 0)"
| "line_spec cont delim [c] = (if byte_is_char c delim then ([], 1) else ([c], 1))"
| "line_spec cont delim (c # c' # cs) =
     (if byte_is_char c delim then ([], 1)
      else if byte_is_char c cont \<and> c' = 10 then
        (let (l, n) = line_spec cont delim cs in (l, n + 2))
      else (let (l, n) = line_spec cont delim (c' # cs) in (c # l, n + 1)))"

lemma line_spec_length: "length (fst (line_spec cont delim cs)) \<le> length cs"
  by (induction cont delim cs rule: line_spec.induct) (auto simp: case_prod_beta Let_def)

text \<open>A result buffer that is appended to at its end.\<close>

definition res_ok :: "bytes \<Rightarrow> buffer_t \<Rightarrow> bool" where
  "res_ok acc r \<longleftrightarrow> buf_inv r \<and> \<not> b_readonly r \<and> contents r = acc \<and> b_position r = b_length r"

lemma res_append:
  assumes r: "res_ok acc r" and bound: "length acc < 2 ^ 61"
  shows "\<exists>r'. buffer_append_byte True (Ref r) c = Some (Ref r', True) \<and> res_ok (acc @ [c]) r'"
proof -
  have len: "unat (b_position r) = length acc" "unat (b_length r) = length acc"
    using r length_contents [of r] by (auto simp: res_ok_def)
  from append_byte_ok [of r c] r bound len obtain r' where
    r': "buffer_append_byte True (Ref r) c = Some (Ref r', True)" "buf_inv r'"
      "contents r' = overwrite (length acc) [c] acc" "unat (b_position r') = length acc + 1"
      "same_buffer_flags r r'"
    by (auto simp: res_ok_def)
  have "overwrite (length acc) [c] acc = acc @ [c]" by (simp add: overwrite_def)
  with r' length_contents [OF r'(2)] r show ?thesis
    by (auto simp: res_ok_def same_buffer_flags_def word_unat_eq_iff)
qed

text \<open>One round of the loop at position \<open>p\<close>.\<close>

lemma read_line_step:
  assumes inv: "buf_inv b" and p: "p < unat (b_length b)"
  defines "c \<equiv> contents b ! p"
  shows "read_line_loop ok cont delim (b\<lparr>b_position := of_nat p\<rparr>) res =
    (if byte_is_char c delim then Some (b\<lparr>b_position := of_nat (p + 1)\<rparr>, res)
     else if p + 1 < unat (b_length b) \<and> byte_is_char c cont \<and> contents b ! (p + 1) = 10
     then read_line_loop ok cont delim (b\<lparr>b_position := of_nat (p + 2)\<rparr>) res
     else Option.bind (buffer_append_byte ok res c)
       (\<lambda>r. read_line_loop ok cont delim (b\<lparr>b_position := of_nat (p + 1)\<rparr>) (fst r)))"
proof -
  have len: "unat (b_length b) < 9223372036854775808"
    using inv by (auto simp: buf_inv_def split: ref.splits)
  have less: "(of_nat p :: u64) < b_length b"
    "(of_nat p + 1 :: u64) < b_length b \<longleftrightarrow> p + 1 < unat (b_length b)"
    using p len of_nat64_less [of p "unat (b_length b)"] of_nat64_less [of "p + 1" "unat (b_length b)"]
    by (simp_all add: add.commute)
  have c: "read_byte (b_data b) (of_nat p) = Some c"
    using read_byte_ok [OF inv, of "of_nat p"] p len by (simp add: c_def)
  have c': "read_byte (b_data b) (of_nat p + 1) = Some (contents b ! (p + 1))" if "p + 1 < unat (b_length b)"
    using read_byte_ok [OF inv, of "of_nat (p + 1)"] that len unat_of_nat64 [of "p + 1"]
    by (simp add: add.commute)
  have eq: "(of_nat (p + 1) :: u64) = of_nat p + 1" "(of_nat (p + 2) :: u64) = of_nat p + 2"
    by simp_all
  show ?thesis
    unfolding eq by (subst read_line_loop.simps) (auto simp: less c c')
qed

lemma read_line_loop_ok:
  assumes inv: "buf_inv b" and bound: "unat (b_length b) \<le> 2 ^ 60"
  shows "p \<le> unat (b_length b) \<Longrightarrow> res_ok acc r \<Longrightarrow> length acc \<le> p \<Longrightarrow>
    \<exists>r'. read_line_loop True cont delim (b\<lparr>b_position := of_nat p\<rparr>) (Ref r) =
      Some (b\<lparr>b_position := of_nat (p + snd (line_spec cont delim (drop p (contents b))))\<rparr>, Ref r') \<and>
      res_ok (acc @ fst (line_spec cont delim (drop p (contents b)))) r'"
proof (induction "unat (b_length b) - p" arbitrary: p acc r rule: less_induct)
  case less
  let ?n = "unat (b_length b)" and ?c = "contents b ! p"
    and ?j = "line_spec cont delim (drop (p + 2) (contents b))"
    and ?s = "line_spec cont delim (drop (p + 1) (contents b))"
  note len = length_contents [OF inv]
  show ?case
  proof (cases "p < ?n")
    case False
    with less.prems have p: "p = ?n" by simp
    have "read_line_loop True cont delim (b\<lparr>b_position := of_nat p\<rparr>) (Ref r) =
        Some (b\<lparr>b_position := of_nat p\<rparr>, Ref r)"
      by (subst read_line_loop.simps) (simp add: p)
    then show ?thesis using less.prems p len by simp
  next
    case True
    note step = read_line_step [OF inv True, of True cont delim "Ref r"]
    have drop: "drop p (contents b) = ?c # drop (p + 1) (contents b)"
      using True len by (simp add: Cons_nth_drop_Suc)
    consider (delim) "byte_is_char ?c delim"
      | (join) "\<not> byte_is_char ?c delim" "p + 1 < ?n \<and> byte_is_char ?c cont \<and> contents b ! (p + 1) = 10"
      | (char) "\<not> byte_is_char ?c delim" "\<not> (p + 1 < ?n \<and> byte_is_char ?c cont \<and> contents b ! (p + 1) = 10)"
      by blast
    then show ?thesis
    proof cases
      case delim
      then have "line_spec cont delim (drop p (contents b)) = ([], 1)"
        by (cases "drop (p + 1) (contents b)") (simp_all add: drop)
      with step delim less.prems show ?thesis by simp
    next
      case join
      then have "drop (p + 1) (contents b) = 10 # drop (p + 2) (contents b)"
        using len drop_nth [of "p + 1" "contents b"] by simp
      with join have spec: "line_spec cont delim (drop p (contents b)) = (fst ?j, snd ?j + 2)"
        by (simp add: drop case_prod_beta Let_def)
      have "\<exists>r'. read_line_loop True cont delim (b\<lparr>b_position := of_nat (p + 2)\<rparr>) (Ref r) =
          Some (b\<lparr>b_position := of_nat (p + 2 + snd ?j)\<rparr>, Ref r') \<and> res_ok (acc @ fst ?j) r'"
        using True join less.prems by (intro less.hyps) auto
      moreover have "p + (snd ?j + 2) = p + 2 + snd ?j" by simp
      ultimately show ?thesis
        using join by (simp only: step spec if_True if_False fst_conv snd_conv simp_thms)
    next
      case char
      have spec: "line_spec cont delim (drop p (contents b)) = (?c # fst ?s, snd ?s + 1)"
        using char len drop_nth [of "p + 1" "contents b"]
        by (cases "p + 1 < ?n") (auto simp: drop case_prod_beta Let_def)
      from res_append [OF less.prems(2), of ?c] less.prems(3) True bound obtain r' where
        r': "buffer_append_byte True (Ref r) ?c = Some (Ref r', True)" "res_ok (acc @ [?c]) r'"
        by auto
      have "\<exists>r''. read_line_loop True cont delim (b\<lparr>b_position := of_nat (p + 1)\<rparr>) (Ref r') =
          Some (b\<lparr>b_position := of_nat (p + 1 + snd ?s)\<rparr>, Ref r'') \<and> res_ok ((acc @ [?c]) @ fst ?s) r''"
        using True less.prems r'(2) by (intro less.hyps) auto
      moreover have "p + (snd ?s + 1) = p + 1 + snd ?s" "acc @ ?c # fst ?s = (acc @ [?c]) @ fst ?s"
        by simp_all
      ultimately show ?thesis
        using char by (simp only: step spec if_True if_False fst_conv snd_conv simp_thms
            r'(1) Option.bind.simps)
    qed
  qed
qed

lemma new_buffer_ok:
  assumes "buffer_new_with_capacity True True 128 = Ref r"
  shows "res_ok [] r"
  using assms
  by (auto simp: buffer_new_with_capacity_def alloc_def res_ok_def buf_inv_def contents_def)

lemma new_buffer_not_null: "buffer_new_with_capacity True True c \<noteq> NULL"
  by (simp add: buffer_new_with_capacity_def alloc_def)

subsection \<open>A capacity of zero\<close>

lemma resize_loop_zero: "need \<noteq> 0 \<Longrightarrow> resize_loop need 0 = None"
proof (rule ccontr)
  assume need: "need \<noteq> 0" and "resize_loop need 0 \<noteq> None"
  then obtain y where y: "resize_loop need 0 = Some y" by blast
  have "(0 :: u64) = 0 \<longrightarrow> need = 0"
    by (rule resize_loop.raw_induct [where P = "\<lambda>n c y. c = 0 \<longrightarrow> n = 0", OF _ y])
      (auto split: if_splits simp: word_gt_0)
  with need show False by blast
qed

subsection \<open>Properties\<close>

definition sample_buffer :: buffer_t where
  "sample_buffer = \<lparr>b_locked = False, b_capacity = 16, b_length = 5, b_position = 0, b_readonly = False,
     b_mark_position = 0, b_data = Ref ([65, 92, 10, 66, 10] @ replicate 11 0)\<rparr>"

lemma sample_buffer_inv:
  "buf_inv sample_buffer" "\<not> b_readonly sample_buffer" "b_position sample_buffer = 0"
  "b_length sample_buffer = 5" "b_capacity sample_buffer = 16"
  "contents sample_buffer = [65, 92, 10, 66, 10]"
  by (simp_all add: sample_buffer_def buf_inv_def contents_def)

text \<open>
  C20. Appending bytes to a writable buffer, with the allocation succeeding, always returns: the
  bytes overwrite the contents from the position on, whatever the capacity was, the position
  moves behind them, the buffer keeps its invariant and flags and is unlocked.
\<close>

theorem buffer_append_bytes_spec:
  assumes "buf_inv b" "\<not> b_readonly b" "unat n \<le> length bs"
    and "unat (b_position b) + unat n \<le> 2 ^ 61"
  shows "\<exists>b'. buffer_append_bytes True (Ref b) (Ref bs) n = Some (Ref b', True) \<and> buf_inv b' \<and>
    contents b' = overwrite (unat (b_position b)) (take (unat n) bs) (contents b) \<and>
    unat (b_position b') = unat (b_position b) + unat n \<and> same_buffer_flags b b'"
  using append_bytes_ok [OF assms] by blast

theorem buffer_append_bytes_spec_witness:
  "\<exists>b'. buffer_append_bytes True (Ref sample_buffer) (Ref [7, 8, 9, 4]) 3 = Some (Ref b', True) \<and>
     buf_inv b' \<and> contents b' = [7, 8, 9, 66, 10] \<and> unat (b_position b') = 3 \<and>
     same_buffer_flags sample_buffer b'"
  using buffer_append_bytes_spec [of sample_buffer 3 "[7, 8, 9, 4]"]
  by (simp add: sample_buffer_inv overwrite_def)

text \<open>
  C21. Round trip of integers: the \<open>bc\<close> little endian bytes of a number appended at position
  \<open>p\<close> and, after seeking back to \<open>p\<close>, read with \<^verbatim>\<open>buffer_read_ints\<close> give the number back.
  The load needs eight bytes of capacity from \<open>p\<close> on whatever \<open>bc\<close> is.
\<close>

theorem buffer_ints_roundtrip:
  assumes "buf_inv b" "\<not> b_readonly b" "0 < unat bc" "unat bc \<le> 8" "unat v < 256 ^ unat bc"
    and "unat (b_position b) \<le> 2 ^ 60" "unat (b_position b) + 8 \<le> unat (b_capacity b)"
  shows "\<exists>b1 b2 b3. buffer_append_bytes True (Ref b) (Ref (le_bytes (unat bc) (unat v))) (ucast bc) =
      Some (Ref b1, True) \<and>
    buffer_seek (Ref b1) (b_position b) BUFFER_SEEK_DIRECTION_START = (Ref b2, True) \<and>
    buffer_read_ints (Ref b2) bc = Some (Ref b3, v) \<and> b_position b3 = b_position b1"
proof -
  let ?p = "unat (b_position b)" and ?bs = "le_bytes (unat bc) (unat v)"
  have u: "unat (ucast bc :: u64) = unat bc" by simp
  from append_bytes_ok [OF assms(1,2), of "ucast bc" ?bs] assms(4,6) obtain b1 where
    b1: "buffer_append_bytes True (Ref b) (Ref ?bs) (ucast bc) = Some (Ref b1, True)" "buf_inv b1"
      "contents b1 = overwrite ?p ?bs (contents b)" "unat (b_position b1) = ?p + unat bc"
      "unat (b_capacity b) \<le> unat (b_capacity b1)"
    by auto
  have p1: "?p + unat bc \<le> unat (b_length b1)" and pb: "?p \<le> unat (b_length b)"
    using b1(2,4) assms(1) by (auto simp: buf_inv_def split: ref.splits)
  from seek_start_ok [OF b1(2), of "b_position b"] p1 obtain b2 where
    b2: "buffer_seek (Ref b1) (b_position b) BUFFER_SEEK_DIRECTION_START = (Ref b2, True)" "buf_inv b2"
      "contents b2 = contents b1" "b_position b2 = b_position b" "b_length b2 = b_length b1"
      "b_capacity b2 = b_capacity b1"
    by auto
  have "take (unat bc) (drop ?p (contents b2)) = ?bs"
    using b1(3) b2(3) pb assms(1) by (simp add: overwrite_def)
  then have "of_nat (le_nat (take (unat bc) (drop ?p (contents b2)))) = v"
    using assms(5) by (simp add: le_nat_le_bytes)
  then have "buffer_read_ints (Ref b2) bc =
      Some (Ref (b2\<lparr>b_position := b_position b2 + ucast bc, b_locked := False\<rparr>), v)"
    using read_ints_ok [OF b2(2) assms(3,4)] b1(5) b2(4,5,6) p1 assms(7) by simp
  moreover have "b_position b + ucast bc = b_position b1"
    using b1(4) unat_add_lt [of "b_position b" "ucast bc"] assms(4,6)
    by (simp add: word_unat_eq_iff)
  ultimately show ?thesis using b1(1) b2(1,4) by auto
qed

theorem buffer_ints_roundtrip_witness:
  "\<exists>b1 b2 b3. buffer_append_bytes True (Ref sample_buffer) (Ref (le_bytes 3 70000)) 3 =
      Some (Ref b1, True) \<and>
    buffer_seek (Ref b1) 0 BUFFER_SEEK_DIRECTION_START = (Ref b2, True) \<and>
    buffer_read_ints (Ref b2) 3 = Some (Ref b3, 70000) \<and> b_position b3 = b_position b1"
  using buffer_ints_roundtrip [of sample_buffer 3 70000]
  by (simp add: sample_buffer_inv del: le_bytes.simps)

text \<open>
  C23. Reading a line always returns: it gives the bytes up to the delimiter or the end, with
  every continuation character before a newline and that newline left out, followed by a zero
  byte that the returned length counts, and moves the position behind the line.
\<close>

theorem buffer_read_line_spec:
  assumes inv: "buf_inv b" and "unat (b_position b) < unat (b_length b)" "unat (b_length b) \<le> 2 ^ 60"
  shows "\<exists>d n. buffer_read_line_ext True True (Ref b) cont delim =
      Some (Ref (b\<lparr>b_position := of_nat (unat (b_position b) +
          snd (line_spec cont delim (drop (unat (b_position b)) (contents b))))\<rparr>), Ref d, Some n) \<and>
    take (unat n) d = fst (line_spec cont delim (drop (unat (b_position b)) (contents b))) @ [0]"
proof -
  let ?s = "line_spec cont delim (drop (unat (b_position b)) (contents b))"
  obtain res where res: "buffer_new_with_capacity True True 128 = Ref res"
    using new_buffer_not_null [of 128] by (cases "buffer_new_with_capacity True True 128") auto
  have b: "b\<lparr>b_position := of_nat (unat (b_position b))\<rparr> = b" by simp
  from read_line_loop_ok [OF assms(1,3), of "unat (b_position b)" "[]" res] new_buffer_ok [OF res] assms(2)
  obtain r where r: "read_line_loop True cont delim b (Ref res) =
      Some (b\<lparr>b_position := of_nat (unat (b_position b) + snd ?s)\<rparr>, Ref r)" "res_ok (fst ?s) r"
    unfolding b by auto
  have "length (fst ?s) < 2 ^ 61"
    using line_spec_length [of cont delim "drop (unat (b_position b)) (contents b)"] assms
    by simp
  from res_append [OF r(2) this, of 0] obtain r' where
    r': "buffer_append_byte True (Ref r) 0 = Some (Ref r', True)" "res_ok (fst ?s @ [0]) r'"
    by blast
  obtain d where "b_data r' = Ref d"
    using r'(2) by (auto simp: res_ok_def buf_inv_def split: ref.splits)
  then show ?thesis
    using assms(2) res r r'
    by (auto simp: buffer_read_line_ext_def buffer_get_all_bytes_and_destroy_def res_ok_def
        contents_def word_le_nat_alt)
qed

theorem buffer_read_line_spec_witness:
  "\<exists>d n. buffer_read_line_ext True True (Ref sample_buffer) 92 10 =
      Some (Ref (sample_buffer\<lparr>b_position := 5\<rparr>), Ref d, Some n) \<and> take (unat n) d = [65, 66, 0]"
  using buffer_read_line_spec [of sample_buffer 92 10]
  by (simp add: sample_buffer_inv byte_is_char_def)

text \<open>
  C22. The word-at-a-time comparison of memory is the lexicographic comparison of the first
  \<open>n\<close> bytes, whether or not \<open>n\<close> is a multiple of eight.
\<close>

theorem memory_memcompare_spec:
  assumes "n \<le> length m1" "n \<le> length m2"
  shows "memory_memcompare (Ref m1) (Ref m2) n = Some (lex_cmp (take n m1) (take n m2))"
  by (rule memory_memcompare_ok [OF assms])

theorem memory_memcompare_spec_witness:
  "memory_memcompare (Ref [1, 2, 3, 4, 5, 6, 7, 8, 200]) (Ref [1, 2, 3, 4, 5, 6, 7, 8, 100]) 9 = Some 1"
  using memory_memcompare_spec [of 9 "[1, 2, 3, 4, 5, 6, 7, 8, 200]" "[1, 2, 3, 4, 5, 6, 7, 8, 100]"]
  by simp

end
