(* ===== verification/HashMap.thy ===== *)
theory HashMap
  imports Prelude
begin

text \<open>
  The hash map of \<open>cc/lib/hashmap.64.c\<close>: segments of equally many slots, a key having two
  neighbouring slots in each segment. The segments, a singly linked chain that only the map
  refers to, are a list. Key and value pointers are null or the key or value pointed to. An
  access to a slot that does not exist has no value.
\<close>

subsection \<open>Data\<close>

record ('k, 'v) hashmap_item_t =
  hi_exists :: bool
  hi_key :: "'k ref"
  hi_value :: "'v ref"

record ('k, 'v) hashmap_segment_t =
  hs_size :: u64
  hs_items :: "('k, 'v) hashmap_item_t list"

record ('k, 'v) hashmap_t =
  hm_segment_capacity :: u64
  hm_total_capacity :: u64
  hm_total_size :: u64
  hm_hkg :: "'k ref \<Rightarrow> u64"
  hm_hkc :: "'k ref \<Rightarrow> 'k ref \<Rightarrow> int"
  hm_segments :: "('k, 'v) hashmap_segment_t list"
  hm_locked :: bool

definition empty_item :: "('k, 'v) hashmap_item_t" where
  "empty_item = \<lparr>hi_exists = False, hi_key = NULL, hi_value = NULL\<rparr>"

text \<open>
  A segment as allocated, cleared. The size of its slots in bytes is computed with 64 bits, so a huge
  capacity wraps around and leaves few slots; the allocator returns NULL for size 0. A freed segment
  has no slots: no access to it has a value.
\<close>

definition slots_size :: "u64 \<Rightarrow> u64" where
  "slots_size cap = 24 * cap"

definition new_segment :: "u64 \<Rightarrow> ('k, 'v) hashmap_segment_t" where
  "new_segment cap = \<lparr>hs_size = 0, hs_items = replicate (unat (slots_size cap) div 24) empty_item\<rparr>"

definition freed_segment :: "('k, 'v) hashmap_segment_t" where
  "freed_segment = \<lparr>hs_size = 0, hs_items = []\<rparr>"

definition slot :: "('k, 'v) hashmap_segment_t \<Rightarrow> u64 \<Rightarrow> ('k, 'v) hashmap_item_t option" where
  "slot seg i = (if unat i < length (hs_items seg) then Some (hs_items seg ! unat i) else None)"

definition set_slot ::
  "('k, 'v) hashmap_segment_t \<Rightarrow> u64 \<Rightarrow> ('k, 'v) hashmap_item_t \<Rightarrow> ('k, 'v) hashmap_segment_t" where
  "set_slot seg i it = seg\<lparr>hs_items := (hs_items seg)[unat i := it]\<rparr>"

definition full_item :: "'k ref \<Rightarrow> 'v ref \<Rightarrow> ('k, 'v) hashmap_item_t" where
  "full_item key item = \<lparr>hi_exists = True, hi_key = key, hi_value = item\<rparr>"

subsection \<open>Keys\<close>

text \<open>The default keys are the pointers themselves, so a key is a 64 bit word.\<close>

definition key_word :: "u64 ref \<Rightarrow> u64" where
  "key_word p = (case p of NULL \<Rightarrow> 0 | Ref w \<Rightarrow> w)"

definition hashmap_default_kg :: "u64 ref \<Rightarrow> u64" where
  "hashmap_default_kg key = key_word key"

definition hashmap_default_kc :: "u64 ref \<Rightarrow> u64 ref \<Rightarrow> int" where
  "hashmap_default_kc item1 item2 =
     (if key_word item1 < key_word item2 then - 1
      else if key_word item1 > key_word item2 then 1
      else 0)"

subsection \<open>Creation and destruction\<close>

text \<open>The three flags say whether the allocations of the map, a segment and its slots succeed.\<close>

definition hashmap_new_with_hkg_with_hkc ::
  "('k ref \<Rightarrow> u64) \<Rightarrow> ('k ref \<Rightarrow> 'k ref \<Rightarrow> int) \<Rightarrow> bool \<Rightarrow> bool \<Rightarrow> bool \<Rightarrow> u64 \<Rightarrow>
   ('k ref \<Rightarrow> u64) option \<Rightarrow> ('k ref \<Rightarrow> 'k ref \<Rightarrow> int) option \<Rightarrow> ('k, 'v) hashmap_t ref" where
  "hashmap_new_with_hkg_with_hkc default_kg default_kc ok seg_ok items_ok capacity hkg hkc =
     (if capacity = 0 then NULL
      else if \<not> ok then NULL
      else if \<not> seg_ok then NULL
      else if \<not> items_ok \<or> slots_size capacity = 0 then NULL
      else Ref \<lparr>hm_segment_capacity = capacity, hm_total_capacity = capacity, hm_total_size = 0,
        hm_hkg = (case hkg of None \<Rightarrow> default_kg | Some g \<Rightarrow> g),
        hm_hkc = (case hkc of None \<Rightarrow> default_kc | Some c \<Rightarrow> c),
        hm_segments = [new_segment capacity], hm_locked = False\<rparr>)"

text \<open>
  The values handed to the item destroyer: only the first \<open>size\<close> slots of a segment are
  looked at, \<open>size\<close> being the number of its items.
\<close>

definition destroyed_values :: "('k, 'v) hashmap_segment_t \<Rightarrow> 'v ref list option" where
  "destroyed_values seg =
     (if unat (hs_size seg) \<le> length (hs_items seg)
      then Some (map hi_value (filter hi_exists (take (unat (hs_size seg)) (hs_items seg))))
      else None)"

fun destroy_segments :: "bool \<Rightarrow> ('k, 'v) hashmap_segment_t list \<Rightarrow> 'v ref list option" where
  "destroy_segments item_destroyer [] = Some []"
| "destroy_segments item_destroyer (seg # segs) = do {
     vs \<leftarrow> (if item_destroyer then destroyed_values seg else Some []);
     ws \<leftarrow> destroy_segments item_destroyer segs;
     Some (vs @ ws)
   }"

text \<open>The function ends with \<^verbatim>\<open>return NULL\<close>, which is \<^verbatim>\<open>false\<close>.\<close>

definition hashmap_destroy_with_item_destroyer ::
  "('k, 'v) hashmap_t ref \<Rightarrow> bool \<Rightarrow> ('v ref list \<times> bool) option" where
  "hashmap_destroy_with_item_destroyer hm item_destroyer =
     (case hm of NULL \<Rightarrow> Some ([], False)
      | Ref m \<Rightarrow> do {
          vs \<leftarrow> destroy_segments item_destroyer (hm_segments m);
          Some (vs, False)
        })"

subsection \<open>Insertion\<close>

text \<open>
  The new segment behind the last one. When the allocation of the slots fails the segment
  is freed, but the pointer of the last segment to it stays.
\<close>

datatype ('k, 'v) new_seg = No_Segment | Dangling_Segment | New_Segment "('k, 'v) hashmap_segment_t"

definition hashmap_segment_next_new :: "bool \<Rightarrow> bool \<Rightarrow> u64 \<Rightarrow> ('k, 'v) new_seg" where
  "hashmap_segment_next_new seg_ok items_ok cap =
     (if \<not> seg_ok then No_Segment
      else if \<not> items_ok \<or> slots_size cap = 0 then Dangling_Segment
      else New_Segment (new_segment cap))"

text \<open>
  The loop of \<^verbatim>\<open>hashmap_put\<close> over the segments, with the write it ends in. The result is the
  segments, the returned pointer, whether an item was added and whether a segment was.
\<close>

datatype put_kind = Put_Replaced | Put_Added | Put_Failed

fun put_loop ::
  "('k ref \<Rightarrow> 'k ref \<Rightarrow> int) \<Rightarrow> u64 \<Rightarrow> bool \<Rightarrow> bool \<Rightarrow> 'k ref \<Rightarrow> 'v ref \<Rightarrow> u64 \<Rightarrow>
   ('k, 'v) hashmap_segment_t list \<Rightarrow>
   (('k, 'v) hashmap_segment_t list \<times> 'v ref \<times> put_kind \<times> bool) option" where
  "put_loop hkc cap seg_ok items_ok key item h_key [] = None"
| "put_loop hkc cap seg_ok items_ok key item h_key (seg # segs) = do {
     it \<leftarrow> slot seg h_key;
     (if hi_exists it then
        (if hkc key (hi_key it) = 0 then
           Some (set_slot seg h_key (full_item key item) # segs, hi_value it, Put_Replaced, False)
         else do {
           it' \<leftarrow> slot seg ((h_key + 1) mod cap);
           (if hi_exists it' then
              (if hkc key (hi_key it') = 0 then
                 Some (set_slot seg ((h_key + 1) mod cap) (full_item key item) # segs, hi_value it',
                   Put_Replaced, False)
               else if segs \<noteq> [] then do {
                 r \<leftarrow> put_loop hkc cap seg_ok items_ok key item h_key segs;
                 Some (seg # fst r, snd r)
               } else
                 (case hashmap_segment_next_new seg_ok items_ok cap of
                    No_Segment \<Rightarrow> Some ([seg], NULL, Put_Failed, False)
                  | Dangling_Segment \<Rightarrow> Some ([seg, freed_segment], NULL, Put_Failed, False)
                  | New_Segment seg' \<Rightarrow>
                      (if unat h_key < length (hs_items seg') then
                         Some ([seg, (set_slot seg' h_key (full_item key item))\<lparr>hs_size := hs_size seg' + 1\<rparr>],
                           NULL, Put_Added, True)
                       else None)))
            else
              Some ((set_slot seg ((h_key + 1) mod cap) (full_item key item))\<lparr>hs_size := hs_size seg + 1\<rparr> # segs,
                NULL, Put_Added, False))
         })
      else
        Some ((set_slot seg h_key (full_item key item))\<lparr>hs_size := hs_size seg + 1\<rparr> # segs,
          NULL, Put_Added, False))
   }"

definition hash_slot :: "('k, 'v) hashmap_t \<Rightarrow> 'k ref \<Rightarrow> u64" where
  "hash_slot m key = hm_hkg m key mod hm_segment_capacity m"

definition hashmap_put ::
  "bool \<Rightarrow> bool \<Rightarrow> ('k, 'v) hashmap_t ref \<Rightarrow> 'k ref \<Rightarrow> 'v ref \<Rightarrow>
   (('k, 'v) hashmap_t ref \<times> 'v ref) option" where
  "hashmap_put seg_ok items_ok hm key item =
     (case hm of NULL \<Rightarrow> Some (NULL, NULL)
      | Ref m \<Rightarrow> do {
          r \<leftarrow> put_loop (hm_hkc m) (hm_segment_capacity m) seg_ok items_ok key item (hash_slot m key)
                (hm_segments m);
          (let (segs, old, kind, grown) = r in
           Some (Ref (m\<lparr>hm_total_capacity :=
                     (if grown then hm_total_capacity m + hm_segment_capacity m else hm_total_capacity m),
                   hm_total_size := (if kind = Put_Added then hm_total_size m + 1 else hm_total_size m),
                   hm_segments := segs, hm_locked := False\<rparr>), old))
        })"

subsection \<open>Lookup\<close>

text \<open>The loop that \<^verbatim>\<open>hashmap_get\<close>, \<^verbatim>\<open>hashmap_get_key\<close> and \<^verbatim>\<open>hashmap_exists\<close> share: the item found.\<close>

fun find_loop ::
  "('k ref \<Rightarrow> 'k ref \<Rightarrow> int) \<Rightarrow> u64 \<Rightarrow> 'k ref \<Rightarrow> u64 \<Rightarrow> ('k, 'v) hashmap_segment_t list \<Rightarrow>
   ('k, 'v) hashmap_item_t ref option" where
  "find_loop hkc cap key h_key [] = Some NULL"
| "find_loop hkc cap key h_key (seg # segs) = do {
     it \<leftarrow> slot seg h_key;
     (if hi_exists it then
        (if hkc key (hi_key it) = 0 then Some (Ref it)
         else do {
           it' \<leftarrow> slot seg ((h_key + 1) mod cap);
           (if hi_exists it' \<and> hkc key (hi_key it') = 0 then Some (Ref it')
            else find_loop hkc cap key h_key segs)
         })
      else find_loop hkc cap key h_key segs)
   }"

definition hashmap_find :: "('k, 'v) hashmap_t \<Rightarrow> 'k ref \<Rightarrow> ('k, 'v) hashmap_item_t ref option" where
  "hashmap_find m key =
     find_loop (hm_hkc m) (hm_segment_capacity m) key (hash_slot m key) (hm_segments m)"

definition hashmap_get_key :: "('k, 'v) hashmap_t ref \<Rightarrow> 'k ref \<Rightarrow> 'k ref option" where
  "hashmap_get_key hm key =
     (case hm of NULL \<Rightarrow> Some NULL
      | Ref m \<Rightarrow> do {
          r \<leftarrow> hashmap_find m key;
          Some (case r of NULL \<Rightarrow> NULL | Ref it \<Rightarrow> hi_key it)
        })"

definition hashmap_exists :: "('k, 'v) hashmap_t ref \<Rightarrow> 'k ref \<Rightarrow> bool option" where
  "hashmap_exists hm key =
     (case hm of NULL \<Rightarrow> Some False
      | Ref m \<Rightarrow> do {
          r \<leftarrow> hashmap_find m key;
          Some (r \<noteq> NULL)
        })"

definition hashmap_get :: "('k, 'v) hashmap_t ref \<Rightarrow> 'k ref \<Rightarrow> 'v ref option" where
  "hashmap_get hm key =
     (case hm of NULL \<Rightarrow> Some NULL
      | Ref m \<Rightarrow> do {
          r \<leftarrow> hashmap_find m key;
          Some (case r of NULL \<Rightarrow> NULL | Ref it \<Rightarrow> hi_value it)
        })"

definition hashmap_size :: "('k, 'v) hashmap_t ref \<Rightarrow> u64" where
  "hashmap_size hm = (case hm of NULL \<Rightarrow> 0 | Ref m \<Rightarrow> hm_total_size m)"

subsection \<open>Deletion\<close>

text \<open>The result is the segments and whether an item was deleted.\<close>

fun delete_loop ::
  "('k ref \<Rightarrow> 'k ref \<Rightarrow> int) \<Rightarrow> u64 \<Rightarrow> 'k ref \<Rightarrow> u64 \<Rightarrow> ('k, 'v) hashmap_segment_t list \<Rightarrow>
   (('k, 'v) hashmap_segment_t list \<times> bool) option" where
  "delete_loop hkc cap key h_key [] = Some ([], False)"
| "delete_loop hkc cap key h_key (seg # segs) = do {
     it \<leftarrow> slot seg h_key;
     (if hi_exists it \<and> hkc key (hi_key it) = 0 then
        Some ((set_slot seg h_key empty_item)\<lparr>hs_size := hs_size seg - 1\<rparr> # segs, True)
      else do {
        hit \<leftarrow> (if hi_exists it then do {
                 it' \<leftarrow> slot seg ((h_key + 1) mod cap);
                 Some (hi_exists it' \<and> hkc key (hi_key it') = 0)
               } else Some False);
        (if hit then
           Some ((set_slot seg ((h_key + 1) mod cap) empty_item)\<lparr>hs_size := hs_size seg - 1\<rparr> # segs, True)
         else do {
           r \<leftarrow> delete_loop hkc cap key h_key segs;
           Some (seg # fst r, snd r)
         })
      })
   }"

definition hashmap_delete ::
  "('k, 'v) hashmap_t ref \<Rightarrow> 'k ref \<Rightarrow> (('k, 'v) hashmap_t ref \<times> bool) option" where
  "hashmap_delete hm key =
     (case hm of NULL \<Rightarrow> Some (NULL, False)
      | Ref m \<Rightarrow> do {
          r \<leftarrow> delete_loop (hm_hkc m) (hm_segment_capacity m) key (hash_slot m key) (hm_segments m);
          Some (Ref (m\<lparr>hm_total_size := (if snd r then hm_total_size m - 1 else hm_total_size m),
                       hm_segments := fst r, hm_locked := False\<rparr>), True)
        })"

subsection \<open>Iteration\<close>

text \<open>The current segment of an iterator is the chain from that segment on, empty at the end.\<close>

record ('k, 'v) hashmap_iterator_metadata_t =
  hi_current_segment :: "('k, 'v) hashmap_segment_t list"
  hi_segment_capacity :: u64
  hi_current_index :: u64

definition current_item ::
  "('k, 'v) hashmap_iterator_metadata_t \<Rightarrow> ('k, 'v) hashmap_item_t option" where
  "current_item iter =
     (case hi_current_segment iter of [] \<Rightarrow> None | seg # _ \<Rightarrow> slot seg (hi_current_index iter))"

definition hashmap_iterator_get_item :: "('k, 'v) hashmap_iterator_metadata_t \<Rightarrow> 'v ref option" where
  "hashmap_iterator_get_item iter = do { it \<leftarrow> current_item iter; Some (hi_value it) }"

definition hashmap_iterator_get_extra_data :: "('k, 'v) hashmap_iterator_metadata_t \<Rightarrow> 'k ref option" where
  "hashmap_iterator_get_extra_data iter = do { it \<leftarrow> current_item iter; Some (hi_key it) }"

partial_function (option) iterator_next_loop ::
  "('k, 'v) hashmap_iterator_metadata_t \<Rightarrow> ('k, 'v) hashmap_iterator_metadata_t option" where
  "iterator_next_loop iter =
     (let iter1 = iter\<lparr>hi_current_index := hi_current_index iter + 1\<rparr>;
          iter2 = (if hi_current_index iter1 = hi_segment_capacity iter1
                   then iter1\<lparr>hi_current_segment := tl (hi_current_segment iter1), hi_current_index := 0\<rparr>
                   else iter1) in
      if hi_current_segment iter2 = [] then Some iter2
      else do {
        it \<leftarrow> current_item iter2;
        (if hi_exists it then Some iter2 else iterator_next_loop iter2)
      })"

definition hashmap_iterator_next ::
  "('k, 'v) hashmap_iterator_metadata_t \<Rightarrow> ('k, 'v) hashmap_iterator_metadata_t option" where
  "hashmap_iterator_next iter =
     (if hi_current_segment iter = [] then Some iter else iterator_next_loop iter)"

definition hashmap_iterator_end_of_iterator :: "('k, 'v) hashmap_iterator_metadata_t \<Rightarrow> int" where
  "hashmap_iterator_end_of_iterator iter = (if hi_current_segment iter = [] then 0 else 1)"

text \<open>
  The search for the first item. At the end of a segment it steps two segments ahead, which
  has no value when there is only one more to step to, and keeps the index.
\<close>

partial_function (option) iterator_first_loop ::
  "('k, 'v) hashmap_iterator_metadata_t \<Rightarrow> ('k, 'v) hashmap_iterator_metadata_t option" where
  "iterator_first_loop iter =
     (if hi_current_segment iter = [] then Some iter
      else do {
        it \<leftarrow> current_item iter;
        (if hi_exists it then Some iter
         else
           (let iter1 = iter\<lparr>hi_current_index := hi_current_index iter + 1\<rparr> in
            if hi_current_index iter1 = hi_segment_capacity iter1 then
              (if tl (hi_current_segment iter1) = [] then None
               else iterator_first_loop (iter1\<lparr>hi_current_segment := tl (tl (hi_current_segment iter1))\<rparr>))
            else iterator_first_loop iter1))
      })"

definition hashmap_iterator_create ::
  "bool \<Rightarrow> bool \<Rightarrow> ('k, 'v) hashmap_t ref \<Rightarrow> ('k, 'v) hashmap_iterator_metadata_t ref option" where
  "hashmap_iterator_create md_ok ok hm =
     (case hm of NULL \<Rightarrow> Some NULL
      | Ref m \<Rightarrow>
          (if \<not> md_ok \<or> \<not> ok then Some NULL
           else
             (let iter = \<lparr>hi_current_segment = hm_segments m,
                          hi_segment_capacity = hm_segment_capacity m, hi_current_index = 0\<rparr> in
              if hm_total_size m = 0 then Some (Ref (iter\<lparr>hi_current_segment := []\<rparr>))
              else do {
                iter' \<leftarrow> iterator_first_loop iter;
                Some (Ref iter')
              })))"

declare iterator_next_loop.simps [code] iterator_first_loop.simps [code]

end
