(* ===== verification/HashMap_Props.thy ===== *)
theory HashMap_Props
  imports HashMap
begin

text \<open>
  What a hash map holds, its invariant, and that insertion and lookup refine a finite map as
  long as nothing is deleted. The laws of the key functions are the locale \<open>hash_keys\<close>.
\<close>

subsection \<open>Invariant\<close>

definition slot1 :: "('k ref \<Rightarrow> u64) \<Rightarrow> u64 \<Rightarrow> 'k ref \<Rightarrow> nat" where
  "slot1 hkg cap key = unat (hkg key mod cap)"

definition slot2 :: "('k ref \<Rightarrow> u64) \<Rightarrow> u64 \<Rightarrow> 'k ref \<Rightarrow> nat" where
  "slot2 hkg cap key = unat ((hkg key mod cap + 1) mod cap)"

definition seg_items :: "('k, 'v) hashmap_segment_t \<Rightarrow> ('k, 'v) hashmap_item_t set" where
  "seg_items seg = {it \<in> set (hs_items seg). hi_exists it}"

definition chain_items :: "('k, 'v) hashmap_segment_t list \<Rightarrow> ('k, 'v) hashmap_item_t set" where
  "chain_items segs = \<Union> (seg_items ` set segs)"

text \<open>
  An item sits in the first of its slots, or in the second with the first taken; no two
  slots hold equal keys.
\<close>

definition seg_inv ::
  "('k ref \<Rightarrow> u64) \<Rightarrow> ('k ref \<Rightarrow> 'k ref \<Rightarrow> int) \<Rightarrow> u64 \<Rightarrow> ('k, 'v) hashmap_segment_t \<Rightarrow> bool" where
  "seg_inv hkg hkc cap seg \<longleftrightarrow>
     length (hs_items seg) = unat cap \<and>
     (\<forall>s < unat cap. hi_exists (hs_items seg ! s) \<longrightarrow>
        (let k = hi_key (hs_items seg ! s) in
         s = slot1 hkg cap k \<or> s = slot2 hkg cap k \<and> hi_exists (hs_items seg ! slot1 hkg cap k))) \<and>
     (\<forall>s < unat cap. \<forall>t < unat cap. hi_exists (hs_items seg ! s) \<and> hi_exists (hs_items seg ! t) \<and>
        hkc (hi_key (hs_items seg ! s)) (hi_key (hs_items seg ! t)) = 0 \<longrightarrow> s = t)"

definition taken :: "('k ref \<Rightarrow> u64) \<Rightarrow> u64 \<Rightarrow> ('k, 'v) hashmap_segment_t \<Rightarrow> 'k ref \<Rightarrow> bool" where
  "taken hkg cap seg k \<longleftrightarrow>
     hi_exists (hs_items seg ! slot1 hkg cap k) \<and> hi_exists (hs_items seg ! slot2 hkg cap k)"

text \<open>An item of a later segment has both slots taken, by other keys, in every earlier one.\<close>

fun chain_inv ::
  "('k ref \<Rightarrow> u64) \<Rightarrow> ('k ref \<Rightarrow> 'k ref \<Rightarrow> int) \<Rightarrow> u64 \<Rightarrow> ('k, 'v) hashmap_segment_t list \<Rightarrow> bool" where
  "chain_inv hkg hkc cap [] = True"
| "chain_inv hkg hkc cap (seg # segs) \<longleftrightarrow>
     seg_inv hkg hkc cap seg \<and> chain_inv hkg hkc cap segs \<and>
     (\<forall>it \<in> chain_items segs. taken hkg cap seg (hi_key it) \<and>
        (\<forall>it' \<in> seg_items seg. hkc (hi_key it) (hi_key it') \<noteq> 0))"

text \<open>The size of the slots of a segment in bytes fits into 64 bits.\<close>

definition capacity_ok :: "u64 \<Rightarrow> bool" where
  "capacity_ok cap \<longleftrightarrow> cap \<noteq> 0 \<and> 24 * unat cap < 2 ^ 64"

definition hm_inv :: "('k, 'v) hashmap_t \<Rightarrow> bool" where
  "hm_inv m \<longleftrightarrow> capacity_ok (hm_segment_capacity m) \<and> hm_segments m \<noteq> [] \<and> \<not> hm_locked m \<and>
     chain_inv (hm_hkg m) (hm_hkc m) (hm_segment_capacity m) (hm_segments m)"

text \<open>What a lookup returns, given the items of the map.\<close>

definition found ::
  "('k ref \<Rightarrow> 'k ref \<Rightarrow> int) \<Rightarrow> 'k ref \<Rightarrow> ('k, 'v) hashmap_item_t set \<Rightarrow> ('k, 'v) hashmap_item_t ref \<Rightarrow> bool"
  where
  "found hkc key A r \<longleftrightarrow>
     (case r of NULL \<Rightarrow> \<forall>it \<in> A. hkc key (hi_key it) \<noteq> 0
      | Ref it \<Rightarrow> it \<in> A \<and> hkc key (hi_key it) = 0)"

lemma slots_size_ok: "capacity_ok cap \<Longrightarrow> unat (slots_size cap) = 24 * unat cap" "capacity_ok cap \<Longrightarrow> slots_size cap \<noteq> 0"
proof -
  show u: "unat (slots_size cap) = 24 * unat cap" if "capacity_ok cap" using that by (simp add: slots_size_def capacity_ok_def unat_word_ariths)
  show "slots_size cap \<noteq> 0" if "capacity_ok cap" using u [OF that] that by (auto simp: capacity_ok_def unat_eq_zero)
qed

lemma slots_less: "cap \<noteq> 0 \<Longrightarrow> slot1 hkg cap k < unat cap" "cap \<noteq> 0 \<Longrightarrow> slot2 hkg cap k < unat cap"
  by (simp_all add: slot1_def slot2_def unat_mod word_gt_0 unat_gt_0)

lemma slot_Some:
  "unat i < length (hs_items seg) \<Longrightarrow> slot seg i = Some (hs_items seg ! unat i)"
  by (simp add: slot_def)

lemma chain_items_simps [simp]:
  "chain_items [] = {}" "chain_items (seg # segs) = seg_items seg \<union> chain_items segs"
  by (simp_all add: chain_items_def)

lemma seg_items_nth:
  "it \<in> seg_items seg \<longleftrightarrow> (\<exists>s < length (hs_items seg). hs_items seg ! s = it \<and> hi_exists it)"
  by (auto simp: seg_items_def in_set_conv_nth)

lemma seg_items_size [simp]: "seg_items (seg\<lparr>hs_size := n\<rparr>) = seg_items seg"
  by (simp add: seg_items_def)

lemma seg_inv_size [simp]: "seg_inv hkg hkc cap (seg\<lparr>hs_size := n\<rparr>) \<longleftrightarrow> seg_inv hkg hkc cap seg"
  by (simp add: seg_inv_def)

lemma taken_size [simp]: "taken hkg cap (seg\<lparr>hs_size := n\<rparr>) k \<longleftrightarrow> taken hkg cap seg k"
  by (simp add: taken_def)

subsection \<open>The laws of keys\<close>

locale hash_keys =
  fixes hkg :: "'k ref \<Rightarrow> u64" and hkc :: "'k ref \<Rightarrow> 'k ref \<Rightarrow> int"
  assumes kc_refl: "hkc a a = 0"
    and kc_sym: "hkc a b = 0 \<Longrightarrow> hkc b a = 0"
    and kc_trans: "hkc a b = 0 \<Longrightarrow> hkc b c = 0 \<Longrightarrow> hkc a c = 0"
    and kg_cong: "hkc a b = 0 \<Longrightarrow> hkg a = hkg b"
begin

lemma slot_cong: "hkc a b = 0 \<Longrightarrow> slot1 hkg cap a = slot1 hkg cap b" "hkc a b = 0 \<Longrightarrow> slot2 hkg cap a = slot2 hkg cap b"
  using kg_cong [of a b] by (simp_all add: slot1_def slot2_def)

text \<open>Where a key can be in a segment.\<close>

lemma seg_match:
  assumes inv: "seg_inv hkg hkc cap seg" and it: "it \<in> seg_items seg" "hkc key (hi_key it) = 0"
  shows "hi_exists (hs_items seg ! slot1 hkg cap key) \<and>
    (hs_items seg ! slot1 hkg cap key = it \<or> hs_items seg ! slot2 hkg cap key = it)"
proof -
  obtain s where s: "s < unat cap" "hs_items seg ! s = it" "hi_exists it"
    using it inv by (auto simp: seg_items_nth seg_inv_def)
  with inv have "s = slot1 hkg cap (hi_key it) \<or>
      s = slot2 hkg cap (hi_key it) \<and> hi_exists (hs_items seg ! slot1 hkg cap (hi_key it))"
    by (auto simp: seg_inv_def Let_def)
  with s slot_cong [OF it(2)] show ?thesis by auto
qed

lemma seg_unique:
  assumes inv: "seg_inv hkg hkc cap seg" and "it \<in> seg_items seg" "it' \<in> seg_items seg"
    and "hkc key (hi_key it) = 0" "hkc key (hi_key it') = 0"
  shows "it = it'"
proof -
  have "hkc (hi_key it) (hi_key it') = 0" using assms(4,5) kc_sym kc_trans by blast
  with assms(1-3) show ?thesis by (auto simp: seg_items_nth seg_inv_def)
qed

lemma find_loop_ok:
  assumes cap: "cap \<noteq> 0"
  shows "chain_inv hkg hkc cap segs \<Longrightarrow>
    \<exists>r. find_loop hkc cap key (hkg key mod cap) segs = Some r \<and> found hkc key (chain_items segs) r"
proof (induction segs)
  case Nil
  then show ?case by (simp add: found_def)
next
  case (Cons seg segs)
  let ?a = "hs_items seg ! slot1 hkg cap key" and ?b = "hs_items seg ! slot2 hkg cap key"
  have inv: "seg_inv hkg hkc cap seg" and len: "length (hs_items seg) = unat cap"
    using Cons.prems by (simp_all add: seg_inv_def)
  have a: "slot seg (hkg key mod cap) = Some ?a" and b: "slot seg ((hkg key mod cap + 1) mod cap) = Some ?b"
    using slots_less [OF cap, of hkg key] len by (simp_all add: slot_Some slot1_def slot2_def)
  have mem: "hi_exists ?a \<Longrightarrow> ?a \<in> seg_items seg" "hi_exists ?b \<Longrightarrow> ?b \<in> seg_items seg"
    using slots_less [OF cap, of hkg key] len by (auto simp: seg_items_nth)
  from Cons obtain r where r: "find_loop hkc cap key (hkg key mod cap) segs = Some r"
    "found hkc key (chain_items segs) r"
    by auto
  consider (a) "hi_exists ?a" "hkc key (hi_key ?a) = 0"
    | (b) "hi_exists ?a" "hkc key (hi_key ?a) \<noteq> 0" "hi_exists ?b" "hkc key (hi_key ?b) = 0"
    | (none) "\<not> (hi_exists ?a \<and> hkc key (hi_key ?a) = 0)"
        "\<not> (hi_exists ?a \<and> hi_exists ?b \<and> hkc key (hi_key ?b) = 0)"
    by blast
  then show ?case
  proof cases
    case none
    then have "\<forall>it \<in> seg_items seg. hkc key (hi_key it) \<noteq> 0"
      using seg_match [OF inv, of _ key] by (auto simp: seg_items_def)
    with r have "found hkc key (chain_items (seg # segs)) r"
      by (auto simp: found_def split: ref.splits)
    with none r show ?thesis by (auto simp: a b)
  qed (use mem in \<open>auto simp: a b found_def\<close>)
qed

lemma found_unique:
  assumes "chain_inv hkg hkc cap segs"
  shows "it \<in> chain_items segs \<Longrightarrow> it' \<in> chain_items segs \<Longrightarrow> hkc key (hi_key it) = 0 \<Longrightarrow>
    hkc key (hi_key it') = 0 \<Longrightarrow> it = it'"
  using assms
proof (induction segs)
  case (Cons seg segs)
  have ne: "hkc (hi_key x) (hi_key y) \<noteq> 0" if "x \<in> chain_items segs" "y \<in> seg_items seg" for x y
    using Cons.prems that by simp
  have eq: "hkc (hi_key it) (hi_key it') = 0" "hkc (hi_key it') (hi_key it) = 0"
    using Cons.prems(3,4) kc_sym kc_trans by blast+
  show ?case
    using Cons ne [of it it'] ne [of it' it] eq seg_unique [of cap seg it it' key] by auto
qed simp

text \<open>Writing an item into one of the slots of its key, when no other slot holds the key.\<close>

lemma seg_write:
  fixes item :: "'v ref" and seg :: "('k, 'v) hashmap_segment_t"
  assumes inv: "seg_inv hkg hkc cap seg" and s: "unat i < unat cap"
    and place: "unat i = slot1 hkg cap key \<or>
      unat i = slot2 hkg cap key \<and> hi_exists (hs_items seg ! slot1 hkg cap key)"
    and other: "\<And>t. t < unat cap \<Longrightarrow> t \<noteq> unat i \<Longrightarrow> hi_exists (hs_items seg ! t) \<Longrightarrow>
      hkc key (hi_key (hs_items seg ! t)) \<noteq> 0"
    and old: "hi_exists (hs_items seg ! unat i) \<Longrightarrow> hkc key (hi_key (hs_items seg ! unat i)) = 0"
  defines "seg' \<equiv> set_slot seg i (full_item key item)"
  shows "seg_inv hkg hkc cap seg'"
    and "seg_items seg' = insert (full_item key item) {it \<in> seg_items seg. hkc key (hi_key it) \<noteq> 0}"
    and "taken hkg cap seg k \<Longrightarrow> taken hkg cap seg' k"
proof -
  let ?n = "full_item key item" and ?is = "hs_items seg"
  have len: "length ?is = unat cap" using inv by (simp add: seg_inv_def)
  have nth: "hs_items seg' ! t = (if t = unat i then ?n else ?is ! t)" if "t < unat cap" for t
    using that len s by (simp add: seg'_def set_slot_def nth_list_update)
  have new: "hi_exists ?n" "hi_key ?n = key" by (simp_all add: full_item_def)
  have cap: "cap \<noteq> 0" using s by auto
  have mono: "hi_exists (hs_items seg' ! t)" if "t < unat cap" "hi_exists (?is ! t)" for t
    using that nth new by simp
  show "taken hkg cap seg' k" if "taken hkg cap seg k"
    using that mono slots_less [OF cap, of hkg k] by (simp add: taken_def)
  show "seg_inv hkg hkc cap seg'"
    unfolding seg_inv_def Let_def
  proof (intro conjI allI impI)
    show "length (hs_items seg') = unat cap" using len by (simp add: seg'_def set_slot_def)
  next
    fix t assume t: "t < unat cap" and ex: "hi_exists (hs_items seg' ! t)"
    show "t = slot1 hkg cap (hi_key (hs_items seg' ! t)) \<or> t = slot2 hkg cap (hi_key (hs_items seg' ! t)) \<and>
        hi_exists (hs_items seg' ! slot1 hkg cap (hi_key (hs_items seg' ! t)))"
    proof (cases "t = unat i")
      case True
      then show ?thesis
        using place t nth [OF t] new mono [OF slots_less(1) [OF cap], of hkg key] by auto
    next
      case False
      then have k: "hs_items seg' ! t = ?is ! t" using nth [OF t] by simp
      with ex inv t have "t = slot1 hkg cap (hi_key (?is ! t)) \<or> t = slot2 hkg cap (hi_key (?is ! t)) \<and>
          hi_exists (?is ! slot1 hkg cap (hi_key (?is ! t)))"
        by (auto simp: seg_inv_def Let_def)
      then show ?thesis
        using mono [OF slots_less(1) [OF cap], of hkg "hi_key (?is ! t)"] unfolding k by auto
    qed
  next
    fix t u assume t: "t < unat cap" and u: "u < unat cap"
      and eq: "hi_exists (hs_items seg' ! t) \<and> hi_exists (hs_items seg' ! u) \<and>
        hkc (hi_key (hs_items seg' ! t)) (hi_key (hs_items seg' ! u)) = 0"
    show "t = u"
    proof (cases "t = unat i \<or> u = unat i")
      case True
      have no: "\<not> (hi_exists (?is ! v) \<and> (hkc key (hi_key (?is ! v)) = 0 \<or> hkc (hi_key (?is ! v)) key = 0))"
        if "v < unat cap" "v \<noteq> unat i" for v
        using other [OF that] kc_sym by blast
      show ?thesis
      proof (rule ccontr)
        assume "t \<noteq> u"
        with True no [OF t] no [OF u] eq nth [OF t] nth [OF u] new show False by (elim disjE) simp_all
      qed
    next
      case False
      then show ?thesis using inv t u eq nth [OF t] nth [OF u] unfolding seg_inv_def by simp
    qed
  qed
  have len': "length (hs_items seg') = unat cap" using len by (simp add: seg'_def set_slot_def)
  show "seg_items seg' = insert ?n {it \<in> seg_items seg. hkc key (hi_key it) \<noteq> 0}"
  proof (intro set_eqI iffI)
    fix it assume "it \<in> seg_items seg'"
    then obtain t where t: "t < unat cap" "hs_items seg' ! t = it" "hi_exists it"
      unfolding seg_items_nth len' by blast
    show "it \<in> insert ?n {it \<in> seg_items seg. hkc key (hi_key it) \<noteq> 0}"
    proof (cases "t = unat i")
      case False
      then have "?is ! t = it" using t nth [of t] by simp
      then have "it \<in> seg_items seg" "hkc key (hi_key it) \<noteq> 0"
        using t other [of t] False unfolding seg_items_nth len by blast+
      then show ?thesis by simp
    qed (use t nth [of t] in simp)
  next
    fix it assume it: "it \<in> insert ?n {it \<in> seg_items seg. hkc key (hi_key it) \<noteq> 0}"
    show "it \<in> seg_items seg'"
    proof (cases "it = ?n")
      case True
      then show ?thesis using nth [of "unat i"] s new unfolding seg_items_nth len' by metis
    next
      case False
      with it obtain t where t: "t < unat cap" "?is ! t = it" "hi_exists it" "hkc key (hi_key it) \<noteq> 0"
        unfolding seg_items_nth len by blast
      with old have "t \<noteq> unat i" by auto
      with t nth [of t] have "hs_items seg' ! t = it" by simp
      with t show ?thesis unfolding seg_items_nth len' by blast
    qed
  qed
qed

text \<open>A write into the head of a chain that holds the key nowhere else keeps the chain.\<close>

lemma chain_write:
  fixes item :: "'v ref" and seg :: "('k, 'v) hashmap_segment_t"
  assumes inv: "chain_inv hkg hkc cap (seg # segs)" and s: "unat i < unat cap"
    and place: "unat i = slot1 hkg cap key \<or>
      unat i = slot2 hkg cap key \<and> hi_exists (hs_items seg ! slot1 hkg cap key)"
    and other: "\<And>t. t < unat cap \<Longrightarrow> t \<noteq> unat i \<Longrightarrow> hi_exists (hs_items seg ! t) \<Longrightarrow>
      hkc key (hi_key (hs_items seg ! t)) \<noteq> 0"
    and old: "hi_exists (hs_items seg ! unat i) \<Longrightarrow> hkc key (hi_key (hs_items seg ! unat i)) = 0"
    and rest: "\<And>it. it \<in> chain_items segs \<Longrightarrow> hkc key (hi_key it) \<noteq> 0"
  shows "chain_inv hkg hkc cap ((set_slot seg i (full_item key item))\<lparr>hs_size := n\<rparr> # segs)"
    and "chain_items ((set_slot seg i (full_item key item))\<lparr>hs_size := n\<rparr> # segs) =
      insert (full_item key item) {it \<in> chain_items (seg # segs). hkc key (hi_key it) \<noteq> 0}"
proof -
  have "seg_inv hkg hkc cap seg" using inv by simp
  note w = seg_write [OF this s place other old, where item = item]
  have "hkc (hi_key it) key \<noteq> 0" if "it \<in> chain_items segs" for it
    using rest [OF that] kc_sym by blast
  with inv w show "chain_inv hkg hkc cap ((set_slot seg i (full_item key item))\<lparr>hs_size := n\<rparr> # segs)"
    by (auto simp: full_item_def)
  show "chain_items ((set_slot seg i (full_item key item))\<lparr>hs_size := n\<rparr> # segs) =
      insert (full_item key item) {it \<in> chain_items (seg # segs). hkc key (hi_key it) \<noteq> 0}"
    using w(2) rest by auto
qed

lemma new_segment_inv:
  "capacity_ok cap \<Longrightarrow> seg_inv hkg hkc cap (new_segment cap)" "seg_items (new_segment cap) = {}"
  "capacity_ok cap \<Longrightarrow> hs_items (new_segment cap) = replicate (unat cap) empty_item"
  using slots_size_ok [of cap] by (auto simp: seg_inv_def new_segment_def empty_item_def seg_items_def)

text \<open>What \<^verbatim>\<open>hashmap_put\<close> does to a chain.\<close>

definition put_result ::
  "'k ref \<Rightarrow> 'v ref \<Rightarrow> u64 \<Rightarrow> ('k, 'v) hashmap_segment_t list \<Rightarrow>
   (('k, 'v) hashmap_segment_t list \<times> 'v ref \<times> put_kind \<times> bool) \<Rightarrow> bool" where
  "put_result key item cap segs r \<longleftrightarrow>
     (case r of (segs', old, kind, grown) \<Rightarrow>
        segs' \<noteq> [] \<and> chain_inv hkg hkc cap segs' \<and>
        chain_items segs' = insert (full_item key item) {it \<in> chain_items segs. hkc key (hi_key it) \<noteq> 0} \<and>
        (\<exists>f. found hkc key (chain_items segs) f \<and>
           old = (case f of NULL \<Rightarrow> NULL | Ref it \<Rightarrow> hi_value it) \<and>
           kind = (case f of NULL \<Rightarrow> Put_Added | Ref it \<Rightarrow> Put_Replaced)))"

lemma put_result_here:
  fixes item :: "'v ref" and seg :: "('k, 'v) hashmap_segment_t"
  assumes inv: "chain_inv hkg hkc cap (seg # segs)" and s: "unat i < unat cap"
    and place: "unat i = slot1 hkg cap key \<or>
      unat i = slot2 hkg cap key \<and> hi_exists (hs_items seg ! slot1 hkg cap key)"
    and f: "found hkc key (chain_items (seg # segs)) f"
    and at: "case f of NULL \<Rightarrow> \<not> hi_exists (hs_items seg ! unat i)
      | Ref it \<Rightarrow> hi_exists it \<and> it = hs_items seg ! unat i"
  shows "put_result key item cap (seg # segs)
    ((set_slot seg i (full_item key item))\<lparr>hs_size := n\<rparr> # segs,
     case f of NULL \<Rightarrow> NULL | Ref it \<Rightarrow> hi_value it,
     case f of NULL \<Rightarrow> Put_Added | Ref it \<Rightarrow> Put_Replaced, g)"
proof -
  have sinv: "seg_inv hkg hkc cap seg" and len: "length (hs_items seg) = unat cap"
    using inv by (simp_all add: seg_inv_def)
  have mem: "hs_items seg ! t \<in> seg_items seg" if "t < unat cap" "hi_exists (hs_items seg ! t)" for t
    using that len by (auto simp: seg_items_nth)
  have other: "hkc key (hi_key (hs_items seg ! t)) \<noteq> 0"
    if t: "t < unat cap" "t \<noteq> unat i" "hi_exists (hs_items seg ! t)" for t
  proof (cases f)
    case NULL
    then show ?thesis using f mem [OF t(1,3)] by (simp add: found_def)
  next
    case (Ref it)
    show ?thesis
    proof
      assume "hkc key (hi_key (hs_items seg ! t)) = 0"
      moreover have "hkc key (hi_key (hs_items seg ! unat i)) = 0"
        using f at Ref by (simp add: found_def)
      ultimately have "hkc (hi_key (hs_items seg ! t)) (hi_key (hs_items seg ! unat i)) = 0"
        using kc_sym kc_trans by blast
      moreover have "hi_exists (hs_items seg ! unat i)" using at Ref by auto
      ultimately show False using sinv t s unfolding seg_inv_def by blast
    qed
  qed
  have old: "hkc key (hi_key (hs_items seg ! unat i)) = 0" if "hi_exists (hs_items seg ! unat i)"
    using that at f by (auto simp: found_def split: ref.splits)
  have rest: "hkc key (hi_key it) \<noteq> 0" if it: "it \<in> chain_items segs" for it
  proof (cases f)
    case NULL
    then show ?thesis using f it by (simp add: found_def)
  next
    case (Ref x)
    then have x: "x \<in> seg_items seg" "hkc key (hi_key x) = 0"
      using f at mem [OF s] by (auto simp: found_def)
    have "hkc (hi_key it) (hi_key x) \<noteq> 0" using inv it x(1) by simp
    with x(2) show ?thesis using kc_sym kc_trans by blast
  qed
  note w = chain_write [OF inv s place other old rest, where item = item and n = n]
  show ?thesis using w f unfolding put_result_def by blast
qed

lemma found_head:
  assumes inv: "chain_inv hkg hkc cap (seg # segs)" and f: "found hkc key (chain_items (seg # segs)) f"
  shows "f = NULL \<or> hi_exists (hs_items seg ! slot1 hkg cap key) \<and>
    (taken hkg cap seg key \<or> (\<exists>it. it \<in> seg_items seg \<and> hkc key (hi_key it) = 0 \<and>
      (hs_items seg ! slot1 hkg cap key = it \<or> hs_items seg ! slot2 hkg cap key = it)))"
proof (cases f)
  case (Ref it)
  then have key: "hkc key (hi_key it) = 0" and it: "it \<in> seg_items seg \<or> it \<in> chain_items segs"
    using f by (auto simp: found_def)
  from it show ?thesis
  proof
    assume "it \<in> seg_items seg"
    with seg_match [of cap seg it key] inv key show ?thesis by auto
  next
    assume "it \<in> chain_items segs"
    with inv have "taken hkg cap seg (hi_key it)" by simp
    with slot_cong [OF key, of cap] show ?thesis by (simp add: taken_def)
  qed
qed simp

lemma put_result_cons:
  assumes inv: "chain_inv hkg hkc cap (seg # segs)" and tk: "taken hkg cap seg key"
    and ne: "\<And>it. it \<in> seg_items seg \<Longrightarrow> hkc key (hi_key it) \<noteq> 0"
    and r: "put_result key item cap segs (segs', old, kind, grown)"
  shows "put_result key item cap (seg # segs) (seg # segs', old, kind, grown)"
proof -
  from r obtain f where f: "found hkc key (chain_items segs) f"
    "old = (case f of NULL \<Rightarrow> NULL | Ref it \<Rightarrow> hi_value it)"
    "kind = (case f of NULL \<Rightarrow> Put_Added | Ref it \<Rightarrow> Put_Replaced)"
    by (auto simp: put_result_def)
  have "found hkc key (chain_items (seg # segs)) f"
    using f(1) ne by (auto simp: found_def split: ref.splits)
  moreover have "chain_inv hkg hkc cap (seg # segs')"
    using r inv tk ne by (auto simp: put_result_def full_item_def)
  moreover have "chain_items (seg # segs') =
      insert (full_item key item) {it \<in> chain_items (seg # segs). hkc key (hi_key it) \<noteq> 0}"
    using r ne by (auto simp: put_result_def)
  ultimately show ?thesis using f(2,3) unfolding put_result_def by blast
qed

lemma put_loop_ok:
  assumes fits: "capacity_ok cap"
  shows "chain_inv hkg hkc cap segs \<Longrightarrow> segs \<noteq> [] \<Longrightarrow>
    \<exists>r. put_loop hkc cap True True key item (hkg key mod cap) segs = Some r \<and>
      put_result key item cap segs r"
proof (induction segs)
  case (Cons seg segs)
  have cap: "cap \<noteq> 0" using fits by (simp add: capacity_ok_def)
  let ?i = "hkg key mod cap" and ?j = "(hkg key mod cap + 1) mod cap"
  let ?a = "hs_items seg ! unat ?i" and ?b = "hs_items seg ! unat ?j"
  have inv: "seg_inv hkg hkc cap seg" and len: "length (hs_items seg) = unat cap"
    using Cons.prems by (simp_all add: seg_inv_def)
  have ij: "unat ?i = slot1 hkg cap key" "unat ?j = slot2 hkg cap key" "unat ?i < unat cap" "unat ?j < unat cap"
    using slots_less [OF cap, of hkg key] by (simp_all add: slot1_def slot2_def)
  have ab: "slot seg ?i = Some ?a" "slot seg ?j = Some ?b"
    using ij len by (simp_all add: slot_Some)
  have mem: "hi_exists ?a \<Longrightarrow> ?a \<in> seg_items seg" "hi_exists ?b \<Longrightarrow> ?b \<in> seg_items seg"
    using ij len by (auto simp: seg_items_nth)
  have size: "set_slot seg k it = (set_slot seg k it)\<lparr>hs_size := hs_size seg\<rparr>" for k it
    by (simp add: set_slot_def)
  note here = put_result_here [OF Cons.prems(1), where item = item]
  obtain f where f: "find_loop hkc cap key ?i (seg # segs) = Some f" "found hkc key (chain_items (seg # segs)) f"
    using find_loop_ok [OF cap Cons.prems(1)] by blast
  note absent = found_head [OF Cons.prems(1)]
  consider (free) "\<not> hi_exists ?a"
    | (a) "hi_exists ?a" "hkc key (hi_key ?a) = 0"
    | (free2) "hi_exists ?a" "hkc key (hi_key ?a) \<noteq> 0" "\<not> hi_exists ?b"
    | (b) "hi_exists ?a" "hkc key (hi_key ?a) \<noteq> 0" "hi_exists ?b" "hkc key (hi_key ?b) = 0"
    | (on) "hi_exists ?a" "hkc key (hi_key ?a) \<noteq> 0" "hi_exists ?b" "hkc key (hi_key ?b) \<noteq> 0"
    by blast
  then show ?case
  proof cases
    case free
    have "f = NULL" using absent [OF f(2)] free ij by auto
    with free f here [of ?i key f "hs_size seg + 1" False] ij show ?thesis by (simp add: ab)
  next
    case a
    then have "found hkc key (chain_items (seg # segs)) (Ref ?a)" using mem by (simp add: found_def)
    with a here [of ?i key "Ref ?a" "hs_size seg" False] ij show ?thesis
      by (simp add: ab flip: size)
  next
    case free2
    have "f = NULL" using absent [OF f(2)] free2 ij by (auto simp: taken_def seg_items_def)
    with free2 f here [of ?j key f "hs_size seg + 1" False] ij show ?thesis by (simp add: ab)
  next
    case b
    then have "found hkc key (chain_items (seg # segs)) (Ref ?b)" using mem by (simp add: found_def)
    with b here [of ?j key "Ref ?b" "hs_size seg" False] ij show ?thesis
      by (simp add: ab flip: size)
  next
    case on
    have tk: "taken hkg cap seg key" using on ij by (simp add: taken_def)
    have ne: "hkc key (hi_key it) \<noteq> 0" if "it \<in> seg_items seg" for it
      using seg_match [OF inv that] on ij by auto
    show ?thesis
    proof (cases "segs = []")
      case False
      with Cons.IH Cons.prems(1) obtain r where
        "put_loop hkc cap True True key item ?i segs = Some r" "put_result key item cap segs r"
        by auto
      with put_result_cons [OF Cons.prems(1) tk ne] on False show ?thesis
        by (cases r) (auto simp: ab)
    next
      case True
      let ?n = "new_segment cap :: ('k, 'v) hashmap_segment_t"
      have "chain_inv hkg hkc cap [?n]" "chain_inv hkg hkc cap (seg # [?n])"
        using Cons.prems(1) fits by (simp_all add: new_segment_inv)
      have "found hkc key (chain_items [?n]) NULL" "\<not> hi_exists (hs_items ?n ! unat ?i)"
        using ij fits by (simp_all add: new_segment_inv found_def) (simp add: empty_item_def)
      with put_result_here [OF \<open>chain_inv hkg hkc cap [?n]\<close> ij(3), where item = item and key = key and f = NULL] ij
      have "put_result key item cap [?n]
          ([(set_slot ?n ?i (full_item key item))\<lparr>hs_size := hs_size ?n + 1\<rparr>], NULL, Put_Added, True)"
        by simp
      from put_result_cons [OF \<open>chain_inv hkg hkc cap (seg # [?n])\<close> tk ne this]
      have "put_result key item cap [seg]
          ([seg, (set_slot ?n ?i (full_item key item))\<lparr>hs_size := hs_size ?n + 1\<rparr>], NULL, Put_Added, True)"
        by (simp add: put_result_def new_segment_inv)
      moreover have "unat ?i < length (hs_items ?n)" using ij fits by (simp add: new_segment_inv)
      ultimately show ?thesis
        using on True slots_size_ok(2) [OF fits] by (auto simp: ab hashmap_segment_next_new_def)
    qed
  qed
qed simp

text \<open>Lookup and insertion on a map whose key functions are these.\<close>

lemma hashmap_put_get:
  assumes inv: "hm_inv m" and keys: "hm_hkg m = hkg" "hm_hkc m = hkc"
  shows "\<exists>m' old. hashmap_put True True (Ref m) key item = Some (Ref m', old) \<and>
    hashmap_get (Ref m) key = Some old \<and> hm_inv m' \<and> hm_hkg m' = hkg \<and> hm_hkc m' = hkc \<and>
    (\<forall>k. hashmap_get (Ref m') k = (if hkc k key = 0 then Some item else hashmap_get (Ref m) k)) \<and>
    (\<forall>k. hashmap_exists (Ref m') k = (if hkc k key = 0 then Some True else hashmap_exists (Ref m) k)) \<and>
    hashmap_size (Ref m') = hashmap_size (Ref m) + (if hashmap_exists (Ref m) key = Some True then 0 else 1)"
proof -
  let ?cap = "hm_segment_capacity m" and ?segs = "hm_segments m"
  have fits: "capacity_ok ?cap" and ch: "chain_inv hkg hkc ?cap ?segs" "?segs \<noteq> []"
    using inv keys by (auto simp: hm_inv_def)
  then have cap: "?cap \<noteq> 0" by (simp add: capacity_ok_def)
  from put_loop_ok [OF fits ch, of key item] obtain segs' old kind grown f where
    r: "put_loop hkc ?cap True True key item (hkg key mod ?cap) ?segs = Some (segs', old, kind, grown)"
      "segs' \<noteq> []" "chain_inv hkg hkc ?cap segs'"
      "chain_items segs' = insert (full_item key item) {it \<in> chain_items ?segs. hkc key (hi_key it) \<noteq> 0}"
      "found hkc key (chain_items ?segs) f"
      "old = (case f of NULL \<Rightarrow> NULL | Ref it \<Rightarrow> hi_value it)"
      "kind = (case f of NULL \<Rightarrow> Put_Added | Ref it \<Rightarrow> Put_Replaced)"
    by (auto simp: put_result_def)
  define m' where "m' = m\<lparr>hm_total_capacity := (if grown then hm_total_capacity m + ?cap else hm_total_capacity m),
      hm_total_size := (if kind = Put_Added then hm_total_size m + 1 else hm_total_size m),
      hm_segments := segs', hm_locked := False\<rparr>"
  have put: "hashmap_put True True (Ref m) key item = Some (Ref m', old)"
    using r(1) keys by (simp add: hashmap_put_def hash_slot_def m'_def)
  have inv': "hm_inv m'" "hm_hkg m' = hkg" "hm_hkc m' = hkc" "hm_segments m' = segs'"
    "hm_segment_capacity m' = ?cap"
    using fits r(2,3) keys by (simp_all add: hm_inv_def m'_def)
  have find: "\<exists>g. hashmap_find x k = Some g \<and> found hkc k (chain_items (hm_segments x)) g"
    if "x = m \<or> x = m'" for x k
    using that find_loop_ok [OF cap ch(1), of k] find_loop_ok [OF cap r(3), of k] keys inv'
    by (auto simp: hashmap_find_def hash_slot_def)
  have uniq: "g = g'" if "found hkc k (chain_items ss) g" "found hkc k (chain_items ss) g'"
    "chain_inv hkg hkc ?cap ss" for g g' k ss
    using that found_unique [OF that(3)] by (auto simp: found_def split: ref.splits)
  have same: "hashmap_find m' k = (if hkc k key = 0 then Some (Ref (full_item key item)) else hashmap_find m k)" for k
  proof -
    obtain g g' where g: "hashmap_find m k = Some g" "found hkc k (chain_items ?segs) g"
      "hashmap_find m' k = Some g'" "found hkc k (chain_items segs') g'"
      using find [of m k] find [of m' k] inv' by auto
    have "found hkc k (chain_items segs') (if hkc k key = 0 then Ref (full_item key item) else g)"
    proof (cases "hkc k key = 0")
      case False
      have "hkc key (hi_key it) \<noteq> 0" if "hkc k (hi_key it) = 0" for it
        using False that kc_sym kc_trans by blast
      with False g(2) r(4) show ?thesis
        by (auto simp: found_def full_item_def split: ref.splits)
    qed (use r(4) in \<open>simp add: found_def full_item_def\<close>)
    from uniq [OF g(4) this r(3)] g(1,3) show ?thesis by simp
  qed
  obtain g where g: "hashmap_find m key = Some g" "found hkc key (chain_items ?segs) g"
    using find [of m key] by blast
  with uniq [OF r(5) g(2) ch(1)] have "hashmap_find m key = Some f" by simp
  with put inv' same r(6,7) show ?thesis
    by (intro exI [of _ m'] exI [of _ old])
      (auto simp: hashmap_get_def hashmap_exists_def hashmap_size_def full_item_def m'_def split: ref.splits)
qed

end

interpretation default_keys: hash_keys hashmap_default_kg hashmap_default_kc
  by unfold_locales (auto simp: hashmap_default_kg_def hashmap_default_kc_def split: if_splits)

lemma default_kc_0: "hashmap_default_kc a b = 0 \<longleftrightarrow> key_word a = key_word b"
  by (auto simp: hashmap_default_kc_def)

subsection \<open>Sequences of insertions\<close>

fun put_all ::
  "('k, 'v) hashmap_t ref \<Rightarrow> ('k ref \<times> 'v ref) list \<Rightarrow> ('k, 'v) hashmap_t ref option" where
  "put_all hm [] = Some hm"
| "put_all hm ((key, item) # kvs) = do {
     r \<leftarrow> hashmap_put True True hm key item;
     put_all (fst r) kvs
   }"

text \<open>The abstract map: the value put last under an equal key.\<close>

definition last_put :: "(u64 ref \<times> 'v ref) list \<Rightarrow> (u64 \<rightharpoonup> 'v ref)" where
  "last_put kvs = map_of (rev (map (\<lambda>(k, v). (key_word k, v)) kvs))"

lemma last_put_Nil [simp]: "last_put [] = Map.empty"
  by (simp add: last_put_def)

lemma last_put_Cons: "last_put ((k, v) # kvs) = (\<lambda>x. case last_put kvs x of None \<Rightarrow>
    (if x = key_word k then Some v else None) | Some w \<Rightarrow> Some w)"
  by (auto simp: last_put_def map_add_def split: option.splits)

definition holds_map :: "(u64, 'v) hashmap_t \<Rightarrow> (u64 \<rightharpoonup> 'v ref) \<Rightarrow> bool" where
  "holds_map m f \<longleftrightarrow> hm_inv m \<and> hm_hkg m = hashmap_default_kg \<and> hm_hkc m = hashmap_default_kc \<and>
     (\<forall>k. hashmap_exists (Ref m) k = Some (f (key_word k) \<noteq> None)) \<and>
     (\<forall>k. hashmap_get (Ref m) k = Some (case f (key_word k) of None \<Rightarrow> NULL | Some v \<Rightarrow> v)) \<and>
     finite (dom f) \<and> hashmap_size (Ref m) = of_nat (card (dom f))"

lemma holds_map_put:
  assumes m: "holds_map m f"
  shows "\<exists>m' old. hashmap_put True True (Ref m) key item = Some (Ref m', old) \<and>
    holds_map m' (f(key_word key \<mapsto> item)) \<and> old = (case f (key_word key) of None \<Rightarrow> NULL | Some v \<Rightarrow> v)"
proof -
  from m have inv: "hm_inv m" "hm_hkg m = hashmap_default_kg" "hm_hkc m = hashmap_default_kc"
    by (auto simp: holds_map_def)
  from default_keys.hashmap_put_get [OF inv, of key item] obtain m' old where
    p: "hashmap_put True True (Ref m) key item = Some (Ref m', old)" "hashmap_get (Ref m) key = Some old"
      "hm_inv m'" "hm_hkg m' = hashmap_default_kg" "hm_hkc m' = hashmap_default_kc"
      "\<And>k. hashmap_get (Ref m') k =
         (if hashmap_default_kc k key = 0 then Some item else hashmap_get (Ref m) k)"
      "\<And>k. hashmap_exists (Ref m') k =
         (if hashmap_default_kc k key = 0 then Some True else hashmap_exists (Ref m) k)"
      "hashmap_size (Ref m') =
         hashmap_size (Ref m) + (if hashmap_exists (Ref m) key = Some True then 0 else 1)"
    by blast
  have "card (dom (f(key_word key \<mapsto> item))) = card (dom f) + (if key_word key \<in> dom f then 0 else 1)"
    using m by (simp add: holds_map_def card_insert_if)
  then have size: "hashmap_size (Ref m') = of_nat (card (dom (f(key_word key \<mapsto> item))))"
    using m p(8) by (auto simp: holds_map_def)
  show ?thesis
    using m p size by (intro exI [of _ m'] exI [of _ old])
      (auto simp: holds_map_def default_kc_0)
qed

lemma holds_map_new:
  "capacity_ok capacity \<Longrightarrow> \<exists>m :: (u64, 'v) hashmap_t. hashmap_new_with_hkg_with_hkc hashmap_default_kg hashmap_default_kc True True True
     capacity None None = Ref m \<and> holds_map m Map.empty"
proof -
  assume fits: "capacity_ok capacity"
  then have cap: "capacity \<noteq> 0" by (simp add: capacity_ok_def)
  let ?n = "new_segment capacity :: (u64, 'v) hashmap_segment_t"
  let ?m = "\<lparr>hm_segment_capacity = capacity, hm_total_capacity = capacity, hm_total_size = 0,
    hm_hkg = hashmap_default_kg, hm_hkc = hashmap_default_kc, hm_segments = [?n], hm_locked = False\<rparr>"
  have inv: "hm_inv ?m" using fits by (simp add: hm_inv_def default_keys.new_segment_inv)
  have "hashmap_find ?m k = Some NULL" for k
  proof -
    from default_keys.find_loop_ok [OF cap, of "[?n]" k] obtain r where
      "hashmap_find ?m k = Some r" "found hashmap_default_kc k {} r"
      using fits by (auto simp: hashmap_find_def hash_slot_def default_keys.new_segment_inv)
    then show ?thesis by (auto simp: found_def split: ref.splits)
  qed
  with inv have "holds_map ?m Map.empty"
    by (simp add: holds_map_def hashmap_exists_def hashmap_get_def hashmap_size_def)
  with cap slots_size_ok(2) [OF fits] show ?thesis by (simp add: hashmap_new_with_hkg_with_hkc_def)
qed

lemma put_all_ok:
  "holds_map m f \<Longrightarrow> \<exists>m'. put_all (Ref m) kvs = Some (Ref m') \<and> holds_map m' (f ++ last_put kvs)"
proof (induction kvs arbitrary: m f)
  case (Cons kv kvs)
  obtain k v where kv: "kv = (k, v)" by (cases kv)
  from holds_map_put [OF Cons.prems, of k v] obtain m1 old where
    m1: "hashmap_put True True (Ref m) k v = Some (Ref m1, old)" "holds_map m1 (f(key_word k \<mapsto> v))"
    by blast
  have "f(key_word k \<mapsto> v) ++ last_put kvs = f ++ last_put (kv # kvs)"
    by (auto simp: kv last_put_Cons map_add_def split: option.splits)
  then show ?case
    using Cons.IH [OF m1(2)] m1(1) by (simp only: kv put_all.simps bind.bind_lunit fst_conv)
qed simp

subsection \<open>Iteration\<close>

text \<open>The items from an iterator's place on, and the run of an iterator to its end.\<close>

definition seg_list :: "('k, 'v) hashmap_segment_t \<Rightarrow> ('k, 'v) hashmap_item_t list" where
  "seg_list seg = filter hi_exists (hs_items seg)"

fun items_from :: "('k, 'v) hashmap_segment_t list \<Rightarrow> nat \<Rightarrow> ('k, 'v) hashmap_item_t list" where
  "items_from [] i = []"
| "items_from (seg # segs) i = filter hi_exists (drop i (hs_items seg)) @ concat (map seg_list segs)"

partial_function (option) iterate_all ::
  "('k, 'v) hashmap_iterator_metadata_t \<Rightarrow> ('k ref \<times> 'v ref) list option" where
  "iterate_all iter =
     (if hashmap_iterator_end_of_iterator iter = 0 then Some []
      else do {
        v \<leftarrow> hashmap_iterator_get_item iter;
        k \<leftarrow> hashmap_iterator_get_extra_data iter;
        iter' \<leftarrow> hashmap_iterator_next iter;
        rest \<leftarrow> iterate_all iter';
        Some ((k, v) # rest)
      })"

definition iter_inv :: "('k, 'v) hashmap_iterator_metadata_t \<Rightarrow> bool" where
  "iter_inv iter \<longleftrightarrow> unat (hi_current_index iter) < unat (hi_segment_capacity iter) \<and>
     (\<forall>seg \<in> set (hi_current_segment iter). length (hs_items seg) = unat (hi_segment_capacity iter))"

abbreviation left :: "('k, 'v) hashmap_iterator_metadata_t \<Rightarrow> ('k, 'v) hashmap_item_t list" where
  "left iter \<equiv> items_from (hi_current_segment iter) (unat (hi_current_index iter))"

text \<open>The place after the current one, and how far the end is.\<close>

definition step_iter ::
  "('k, 'v) hashmap_iterator_metadata_t \<Rightarrow> ('k, 'v) hashmap_iterator_metadata_t" where
  "step_iter iter =
     (if hi_current_index iter + 1 = hi_segment_capacity iter
      then iter\<lparr>hi_current_segment := tl (hi_current_segment iter), hi_current_index := 0\<rparr>
      else iter\<lparr>hi_current_index := hi_current_index iter + 1\<rparr>)"

definition places :: "('k, 'v) hashmap_iterator_metadata_t \<Rightarrow> nat" where
  "places iter = length (hi_current_segment iter) * unat (hi_segment_capacity iter) - unat (hi_current_index iter)"

lemma step_iter_eq:
  "(if hi_current_index (iter\<lparr>hi_current_index := hi_current_index iter + 1\<rparr>) =
       hi_segment_capacity (iter\<lparr>hi_current_index := hi_current_index iter + 1\<rparr>)
    then iter\<lparr>hi_current_index := hi_current_index iter + 1,
      hi_current_segment := tl (hi_current_segment (iter\<lparr>hi_current_index := hi_current_index iter + 1\<rparr>)),
      hi_current_index := 0\<rparr>
    else iter\<lparr>hi_current_index := hi_current_index iter + 1\<rparr>) = step_iter iter"
  by (cases iter) (simp add: step_iter_def)

lemma current_item_ok:
  assumes "iter_inv iter" "hi_current_segment iter = seg # segs"
  shows "current_item iter = Some (hs_items seg ! unat (hi_current_index iter))"
  using assms by (simp add: current_item_def iter_inv_def slot_Some)

lemma step_iter_ok:
  assumes inv: "iter_inv iter" and seg: "hi_current_segment iter = seg # segs"
  shows "iter_inv (step_iter iter)"
    and "left iter = (let it = hs_items seg ! unat (hi_current_index iter) in
      if hi_exists it then [it] else []) @ left (step_iter iter)"
    and "places (step_iter iter) < places iter"
proof -
  let ?i = "unat (hi_current_index iter)" and ?cap = "unat (hi_segment_capacity iter)"
  have i: "?i < ?cap" and len: "length (hs_items seg) = ?cap" "\<forall>s \<in> set segs. length (hs_items s) = ?cap"
    using inv seg by (auto simp: iter_inv_def)
  have suc: "unat (hi_current_index iter + 1) = ?i + 1" using i by (rule unat_add_one_less)
  have last: "hi_current_index iter + 1 = hi_segment_capacity iter \<longleftrightarrow> ?i + 1 = ?cap"
    unfolding word_unat_eq_iff suc ..
  have drop: "drop ?i (hs_items seg) = hs_items seg ! ?i # drop (?i + 1) (hs_items seg)"
    using i len by (simp add: Cons_nth_drop_Suc)
  show "iter_inv (step_iter iter)"
    using i len suc last seg by (auto simp: step_iter_def iter_inv_def)
  show "places (step_iter iter) < places iter"
    using i suc last seg by (auto simp: step_iter_def places_def diff_less_mono2)
  show "left iter = (let it = hs_items seg ! ?i in if hi_exists it then [it] else []) @ left (step_iter iter)"
  proof (cases "?i + 1 = ?cap")
    case True
    then have "drop (?i + 1) (hs_items seg) = []" using len by simp
    with True last seg drop show ?thesis
      by (cases segs) (simp_all add: step_iter_def seg_list_def)
  next
    case False
    with last seg drop suc show ?thesis by (simp add: step_iter_def)
  qed
qed

lemma chain_inv_length:
  "chain_inv hkg hkc cap segs \<Longrightarrow> \<forall>seg \<in> set segs. length (hs_items seg) = unat cap"
  by (induction segs) (auto simp: seg_inv_def)

lemma next_loop_ok:
  assumes "iter_inv iter" "hi_current_segment iter \<noteq> []"
  shows "\<exists>iter'. iterator_next_loop iter = Some iter' \<and> iter_inv iter' \<and> places iter' < places iter \<and>
    left (step_iter iter) = left iter' \<and>
    (case hi_current_segment iter' of [] \<Rightarrow> True
     | seg # _ \<Rightarrow> hi_exists (hs_items seg ! unat (hi_current_index iter')))"
  using assms
proof (induction "places iter" arbitrary: iter rule: less_induct)
  case less
  from less.prems obtain seg segs where seg: "hi_current_segment iter = seg # segs"
    by (cases "hi_current_segment iter") auto
  note st = step_iter_ok [OF less.prems(1) seg]
  have unf: "iterator_next_loop iter =
      (if hi_current_segment (step_iter iter) = [] then Some (step_iter iter)
       else Option.bind (current_item (step_iter iter))
         (\<lambda>it. if hi_exists it then Some (step_iter iter) else iterator_next_loop (step_iter iter)))"
    by (subst iterator_next_loop.simps) (simp only: Let_def step_iter_eq)
  show ?case
  proof (cases "hi_current_segment (step_iter iter)")
    case Nil
    then show ?thesis using unf st by auto
  next
    case (Cons seg' segs')
    note cur = current_item_ok [OF st(1) Cons]
    show ?thesis
    proof (cases "hi_exists (hs_items seg' ! unat (hi_current_index (step_iter iter)))")
      case True
      then show ?thesis using unf st cur Cons by auto
    next
      case False
      from less.hyps [OF st(3) st(1)] Cons obtain iter' where
        i: "iterator_next_loop (step_iter iter) = Some iter'" "iter_inv iter'"
          "places iter' < places (step_iter iter)" "left (step_iter (step_iter iter)) = left iter'"
          "(case hi_current_segment iter' of [] \<Rightarrow> True
            | seg # _ \<Rightarrow> hi_exists (hs_items seg ! unat (hi_current_index iter')))"
        by auto
      have "left (step_iter iter) = left (step_iter (step_iter iter))"
        using step_iter_ok(2) [OF st(1) Cons] False by simp
      with i unf cur False Cons st(3) show ?thesis by auto
    qed
  qed
qed

lemma iterate_all_ok:
  assumes "iter_inv iter"
    and "case hi_current_segment iter of [] \<Rightarrow> True
      | seg # _ \<Rightarrow> hi_exists (hs_items seg ! unat (hi_current_index iter))"
  shows "iterate_all iter = Some (map (\<lambda>it. (hi_key it, hi_value it)) (left iter))"
  using assms
proof (induction "places iter" arbitrary: iter rule: less_induct)
  case less
  show ?case
  proof (cases "hi_current_segment iter")
    case Nil
    then show ?thesis
      by (subst iterate_all.simps) (simp add: hashmap_iterator_end_of_iterator_def)
  next
    case (Cons seg segs)
    from next_loop_ok [OF less.prems(1)] Cons obtain iter' where
      i: "iterator_next_loop iter = Some iter'" "iter_inv iter'" "places iter' < places iter"
        "left (step_iter iter) = left iter'"
        "(case hi_current_segment iter' of [] \<Rightarrow> True
          | seg # _ \<Rightarrow> hi_exists (hs_items seg ! unat (hi_current_index iter')))"
      by auto
    have "iterate_all iter' = Some (map (\<lambda>it. (hi_key it, hi_value it)) (left iter'))"
      by (rule less.hyps [OF i(3,2,5)])
    moreover have "left iter = hs_items seg ! unat (hi_current_index iter) # left iter'"
      using step_iter_ok(2) [OF less.prems(1) Cons] less.prems(2) i(4) Cons by simp
    ultimately show ?thesis
      using i(1) current_item_ok [OF less.prems(1) Cons] Cons
      by (subst iterate_all.simps) (simp add: hashmap_iterator_end_of_iterator_def
          hashmap_iterator_get_item_def hashmap_iterator_get_extra_data_def hashmap_iterator_next_def)
  qed
qed

text \<open>The search for the first item stays in the first segment when that has one.\<close>

lemma first_loop_ok:
  assumes "iter_inv iter" "hi_current_segment iter = seg # segs"
    and "\<exists>s < length (hs_items seg). unat (hi_current_index iter) \<le> s \<and> hi_exists (hs_items seg ! s)"
  shows "\<exists>iter'. iterator_first_loop iter = Some iter' \<and> iter_inv iter' \<and> left iter' = left iter \<and>
    hi_current_segment iter' = seg # segs \<and> hi_exists (hs_items seg ! unat (hi_current_index iter'))"
  using assms
proof (induction "places iter" arbitrary: iter rule: less_induct)
  case less
  let ?i = "unat (hi_current_index iter)"
  note st = step_iter_ok [OF less.prems(1,2)] and cur = current_item_ok [OF less.prems(1,2)]
  show ?case
  proof (cases "hi_exists (hs_items seg ! ?i)")
    case True
    then have "iterator_first_loop iter = Some iter"
      using cur less.prems(2) by (subst iterator_first_loop.simps) simp
    with True less.prems(1,2) show ?thesis by blast
  next
    case False
    obtain s where s: "s < length (hs_items seg)" "?i \<le> s" "hi_exists (hs_items seg ! s)"
      using less.prems(3) by blast
    with False have lt: "?i < s" by (metis le_neq_implies_less)
    have cap: "length (hs_items seg) = unat (hi_segment_capacity iter)"
      using less.prems(1,2) by (simp add: iter_inv_def)
    have "?i < unat (hi_segment_capacity iter)" using lt s cap by simp
    then have suc: "unat (hi_current_index iter + 1) = ?i + 1" by (rule unat_add_one_less)
    have ne: "hi_current_index iter + 1 \<noteq> hi_segment_capacity iter"
      using suc lt s(1) cap by (auto simp: word_unat_eq_iff)
    have step: "step_iter iter = iter\<lparr>hi_current_index := hi_current_index iter + 1\<rparr>"
      using ne by (simp add: step_iter_def)
    have "iterator_first_loop iter = iterator_first_loop (step_iter iter)"
      using cur False less.prems(2) ne by (subst iterator_first_loop.simps) (simp add: step)
    moreover have "left (step_iter iter) = left iter" using st(2) False by simp
    moreover have "\<exists>iter'. iterator_first_loop (step_iter iter) = Some iter' \<and> iter_inv iter' \<and>
        left iter' = left (step_iter iter) \<and> hi_current_segment iter' = seg # segs \<and>
        hi_exists (hs_items seg ! unat (hi_current_index iter'))"
      using less.prems(2) s lt suc by (intro less.hyps [OF st(3) st(1)]) (auto simp: step)
    ultimately show ?thesis by simp
  qed
qed

declare iterate_all.simps [code]

subsection \<open>Properties\<close>

text \<open>
  C16. A hash map with the default key functions refines a finite map: creating a map of a capacity
  whose slots fit into 64 bits of size and putting any sequence of items, with all allocations
  succeeding, always returns, and afterwards every key looks up the item put
  last under it, or null, exists exactly if it was put, and the size is the number of
  different keys. Colliding keys spill into further segments without being lost.
\<close>

theorem hashmap_puts_refine_map:
  assumes "capacity \<noteq> 0" "24 * unat capacity < 2 ^ 64"
  shows "\<exists>m :: (u64, 'v) hashmap_t. put_all (hashmap_new_with_hkg_with_hkc hashmap_default_kg
      hashmap_default_kc True True True capacity None None) kvs = Some (Ref m) \<and>
    (\<forall>k. hashmap_get (Ref m) k = Some (case last_put kvs (key_word k) of None \<Rightarrow> NULL | Some v \<Rightarrow> v)) \<and>
    (\<forall>k. hashmap_exists (Ref m) k = Some (last_put kvs (key_word k) \<noteq> None)) \<and>
    hashmap_size (Ref m) = of_nat (card (dom (last_put kvs)))"
proof -
  obtain m :: "(u64, 'v) hashmap_t" where "hashmap_new_with_hkg_with_hkc hashmap_default_kg hashmap_default_kc True True True
      capacity None None = Ref m" "holds_map m Map.empty"
    using holds_map_new [of capacity] assms by (auto simp: capacity_ok_def)
  with put_all_ok [of m Map.empty kvs] show ?thesis by (auto simp: holds_map_def)
qed

theorem hashmap_puts_refine_map_witness:
  "\<exists>m. put_all (hashmap_new_with_hkg_with_hkc hashmap_default_kg hashmap_default_kc True True True
      2 None None) [(Ref 3, Ref (10 :: u64)), (Ref 5, Ref 20), (Ref 7, Ref 30), (Ref 3, Ref 40)] = Some (Ref m) \<and>
    hashmap_get (Ref m) (Ref 3) = Some (Ref 40) \<and> hashmap_get (Ref m) (Ref 7) = Some (Ref 30) \<and>
    hashmap_get (Ref m) (Ref 9) = Some NULL \<and> hashmap_size (Ref m) = 3"
proof -
  have "dom (last_put [(Ref 3, Ref (10 :: u64)), (Ref 5, Ref 20), (Ref 7, Ref 30), (Ref 3, Ref 40)]) = {3, 5, 7}"
    by (auto simp: last_put_def key_word_def split: if_splits)
  with hashmap_puts_refine_map [of 2 "[(Ref 3, Ref (10 :: u64)), (Ref 5, Ref 20), (Ref 7, Ref 30), (Ref 3, Ref 40)]"]
  show ?thesis by (auto simp: last_put_def key_word_def)
qed

text \<open>What is in later segments has its slots taken in the first one, so that one is not empty.\<close>

lemma iteration_from_first:
  assumes "hm_inv m" "hm_total_size m \<noteq> 0" "hm_segments m = seg # segs" "seg_items seg \<noteq> {}"
  shows "\<exists>iter. hashmap_iterator_create True True (Ref m) = Some (Ref iter) \<and>
    iterate_all iter = Some (map (\<lambda>it. (hi_key it, hi_value it)) (concat (map seg_list (hm_segments m))))"
proof -
  let ?it = "\<lparr>hi_current_segment = hm_segments m, hi_segment_capacity = hm_segment_capacity m,
    hi_current_index = 0\<rparr>"
  have cap: "unat (hm_segment_capacity m) \<noteq> 0" using assms(1) by (simp add: hm_inv_def capacity_ok_def unat_eq_zero)
  have inv: "iter_inv ?it"
    using assms(1) cap chain_inv_length [of "hm_hkg m" "hm_hkc m" "hm_segment_capacity m" "hm_segments m"]
    by (simp add: iter_inv_def hm_inv_def)
  moreover have "\<exists>s < length (hs_items seg). unat (hi_current_index ?it) \<le> s \<and> hi_exists (hs_items seg ! s)"
    using assms(4) by (auto simp: seg_items_def in_set_conv_nth)
  ultimately obtain iter where
    i: "iterator_first_loop ?it = Some iter" "iter_inv iter" "left iter = left ?it"
      "hi_current_segment iter = seg # segs" "hi_exists (hs_items seg ! unat (hi_current_index iter))"
    using first_loop_ok [of ?it seg segs] assms(3) by auto
  have "iterate_all iter = Some (map (\<lambda>it. (hi_key it, hi_value it)) (left iter))"
    using i by (intro iterate_all_ok) simp_all
  then show ?thesis
    using i assms(2,3) by (simp add: hashmap_iterator_create_def seg_list_def)
qed

lemma first_not_empty:
  assumes "chain_inv hkg hkc cap (seg # segs)" "cap \<noteq> 0" "chain_items (seg # segs) \<noteq> {}"
  shows "seg_items seg \<noteq> {}"
proof -
  have "seg_items seg \<noteq> {}" if "it \<in> chain_items segs" for it
  proof -
    have "hi_exists (hs_items seg ! slot1 hkg cap (hi_key it))" "length (hs_items seg) = unat cap"
      using assms(1) that by (auto simp: taken_def seg_inv_def)
    then have "hs_items seg ! slot1 hkg cap (hi_key it) \<in> seg_items seg"
      using slots_less(1) [OF assms(2), of hkg "hi_key it"] by (auto simp: seg_items_nth)
    then show ?thesis by blast
  qed
  then show ?thesis using assms(3) by auto
qed

lemma distinct_filter_nth:
  "(\<And>s t. s < length xs \<Longrightarrow> t < length xs \<Longrightarrow> P (xs ! s) \<Longrightarrow> P (xs ! t) \<Longrightarrow> f (xs ! s) = f (xs ! t) \<Longrightarrow> s = t) \<Longrightarrow>
   distinct (map f (filter P xs))"
proof (induction xs)
  case (Cons x xs)
  have "distinct (map f (filter P xs))" using Cons.prems [of "Suc _" "Suc _"] by (intro Cons.IH) simp
  moreover have "f x \<notin> f ` {y \<in> set xs. P y}" if "P x"
    using that Cons.prems [of 0 "Suc _"] by (auto simp: in_set_conv_nth)
  ultimately show ?case by simp
qed simp

lemma chain_keys_distinct:
  "chain_inv hkg hashmap_default_kc cap segs \<Longrightarrow> distinct (map (key_word \<circ> hi_key) (concat (map seg_list segs)))"
proof (induction segs)
  case (Cons seg segs)
  have "distinct (map (key_word \<circ> hi_key) (seg_list seg))"
    unfolding seg_list_def using Cons.prems by (intro distinct_filter_nth) (auto simp: seg_inv_def default_kc_0)
  moreover have "set (concat (map seg_list segs)) = chain_items segs" "set (seg_list seg) = seg_items seg"
    by (auto simp: chain_items_def seg_items_def seg_list_def)
  moreover have "key_word (hi_key it) \<noteq> key_word (hi_key it')" if "it \<in> chain_items segs" "it' \<in> seg_items seg" for it it'
    using Cons.prems that by (auto simp: default_kc_0)
  ultimately show ?case using Cons by (fastforce simp: o_def)
qed simp

lemma holds_map_items:
  fixes m :: "(u64, 'v) hashmap_t"
  assumes m: "holds_map m f"
  defines "its \<equiv> concat (map seg_list (hm_segments m))"
  shows "distinct (map (key_word \<circ> hi_key) its)" "map_of (map (\<lambda>it. (key_word (hi_key it), hi_value it)) its) = f"
proof -
  have inv: "hm_inv m" "hm_hkg m = hashmap_default_kg" "hm_hkc m = hashmap_default_kc" using m by (auto simp: holds_map_def)
  then have ch: "chain_inv hashmap_default_kg hashmap_default_kc (hm_segment_capacity m) (hm_segments m)" "hm_segment_capacity m \<noteq> 0"
    by (auto simp: hm_inv_def capacity_ok_def)
  show d: "distinct (map (key_word \<circ> hi_key) its)" using chain_keys_distinct [OF ch(1)] by (simp add: its_def)
  have its: "set its = chain_items (hm_segments m)" by (auto simp: its_def chain_items_def seg_items_def seg_list_def)
  show "map_of (map (\<lambda>it. (key_word (hi_key it), hi_value it)) its) = f"
  proof
    fix w
    obtain g where g: "hashmap_find m (Ref w) = Some g" "found hashmap_default_kc (Ref w) (chain_items (hm_segments m)) g"
      using default_keys.find_loop_ok [OF ch(2,1), of "Ref w"] inv by (auto simp: hashmap_find_def hash_slot_def)
    have f: "hashmap_exists (Ref m) (Ref w) = Some (f w \<noteq> None)"
      "hashmap_get (Ref m) (Ref w) = Some (case f w of None \<Rightarrow> NULL | Some v \<Rightarrow> v)"
      using m by (auto simp: holds_map_def key_word_def)
    show "map_of (map (\<lambda>it. (key_word (hi_key it), hi_value it)) its) w = f w"
    proof (cases g)
      case NULL
      then have "w \<notin> (key_word \<circ> hi_key) ` set its" using g(2) by (auto simp: its found_def default_kc_0 key_word_def)
      then show ?thesis using f(1) g(1) NULL by (auto simp: map_of_eq_None_iff hashmap_exists_def)
    next
      case (Ref it)
      then have "it \<in> set its" "key_word (hi_key it) = w" using g(2) by (auto simp: its found_def default_kc_0 key_word_def)
      then have "map_of (map (\<lambda>it. (key_word (hi_key it), hi_value it)) its) w = Some (hi_value it)"
        using d by (intro map_of_is_SomeI) (auto simp: o_def)
      then show ?thesis using f g(1) Ref by (auto simp: hashmap_exists_def hashmap_get_def)
    qed
  qed
qed

lemma last_put_card:
  assumes "kvs \<noteq> []"
  shows "last_put kvs \<noteq> Map.empty" "card (dom (last_put kvs)) \<noteq> 0" "card (dom (last_put kvs)) \<le> length kvs"
proof -
  have d: "dom (last_put kvs) = set (map (\<lambda>(k, v). key_word k) kvs)" by (force simp: last_put_def dom_map_of_conv_image_fst)
  then show "last_put kvs \<noteq> Map.empty" "card (dom (last_put kvs)) \<noteq> 0" using assms by auto
  show "card (dom (last_put kvs)) \<le> length kvs" unfolding d using card_length [of "map (\<lambda>(k, v). key_word k) kvs"] by simp
qed

text \<open>
  C34. Iterating over a map with the default key functions, built by any sequence of less than
  \<open>2 ^ 64\<close> puts but at least one, with all allocations succeeding and slots that fit into 64 bits of
  size, ends and yields every key once, with the item put last under it.
\<close>

theorem hashmap_iteration_complete:
  assumes "capacity \<noteq> 0" "24 * unat capacity < 2 ^ 64" "kvs \<noteq> []" "length kvs < 2 ^ 64"
  shows "\<exists>(m :: (u64, 'v) hashmap_t) iter ps. put_all (hashmap_new_with_hkg_with_hkc hashmap_default_kg
      hashmap_default_kc True True True capacity None None) kvs = Some (Ref m) \<and>
    hashmap_iterator_create True True (Ref m) = Some (Ref iter) \<and> iterate_all iter = Some ps \<and>
    distinct (map (key_word \<circ> fst) ps) \<and> map_of (map (\<lambda>(k, v). (key_word k, v)) ps) = last_put kvs"
proof -
  obtain m :: "(u64, 'v) hashmap_t" where m: "put_all (hashmap_new_with_hkg_with_hkc hashmap_default_kg hashmap_default_kc True True True
      capacity None None) kvs = Some (Ref m)" "holds_map m (last_put kvs)"
    using holds_map_new [of capacity] put_all_ok [of _ Map.empty kvs] assms(1,2) by (fastforce simp: capacity_ok_def)
  have inv: "hm_inv m" "hm_hkg m = hashmap_default_kg" "hm_hkc m = hashmap_default_kc" using m(2) by (auto simp: holds_map_def)
  obtain seg segs where segs: "hm_segments m = seg # segs" using inv(1) by (cases "hm_segments m") (auto simp: hm_inv_def)
  have ch: "chain_inv hashmap_default_kg hashmap_default_kc (hm_segment_capacity m) (hm_segments m)" "hm_segment_capacity m \<noteq> 0"
    using inv by (auto simp: hm_inv_def capacity_ok_def)
  have "chain_items (hm_segments m) \<noteq> {}"
  proof
    assume "chain_items (hm_segments m) = {}"
    then have "concat (map seg_list (hm_segments m)) = []" by (auto simp: chain_items_def seg_items_def seg_list_def filter_empty_conv)
    with holds_map_items(2) [OF m(2)] last_put_card(1) [OF assms(3)] show False by (metis list.simps(8) map_of.simps(1))
  qed
  then have first: "seg_items seg \<noteq> {}" using first_not_empty [of _ _ _ seg segs] ch segs by simp
  have "unat (hm_total_size m) = card (dom (last_put kvs))"
    using m(2) last_put_card [OF assms(3)] assms(4) by (simp add: holds_map_def hashmap_size_def unat_of_nat)
  then have "hm_total_size m \<noteq> 0" using last_put_card(2) [OF assms(3)] by force
  then obtain iter where "hashmap_iterator_create True True (Ref m) = Some (Ref iter)"
      "iterate_all iter = Some (map (\<lambda>it. (hi_key it, hi_value it)) (concat (map seg_list (hm_segments m))))"
    using iteration_from_first [OF inv(1) _ segs first] by blast
  with m(1) show ?thesis
    using holds_map_items [OF m(2)]
    by (intro exI [of _ m] exI [of _ iter] exI [of _ "map (\<lambda>it. (hi_key it, hi_value it)) (concat (map seg_list (hm_segments m)))"])
      (simp only: map_map o_def fst_conv prod.case simp_thms)
qed

text \<open>Two keys of which one was put twice.\<close>

theorem hashmap_iteration_complete_witness:
  "\<exists>(m :: (u64, u64) hashmap_t) iter ps. put_all (hashmap_new_with_hkg_with_hkc hashmap_default_kg
      hashmap_default_kc True True True 2 None None) [(Ref 7, Ref 10), (Ref 3, Ref 20), (Ref 7, Ref 30)] = Some (Ref m) \<and>
    hashmap_iterator_create True True (Ref m) = Some (Ref iter) \<and> iterate_all iter = Some ps \<and>
    distinct (map (key_word \<circ> fst) ps) \<and> map_of (map (\<lambda>(k, v). (key_word k, v)) ps) = [7 \<mapsto> Ref 30, 3 \<mapsto> Ref 20]"
proof -
  have "last_put [(Ref 7, Ref 10), (Ref 3, Ref 20), (Ref 7, Ref (30 :: u64))] = [7 \<mapsto> Ref 30, 3 \<mapsto> Ref 20]"
    by (auto simp: last_put_def key_word_def)
  then show ?thesis
    using hashmap_iteration_complete [of 2 "[(Ref 7, Ref 10), (Ref 3, Ref 20), (Ref 7, Ref (30 :: u64))]"] by simp
qed

subsection \<open>Counterexamples\<close>

text \<open>
  Deleting a key can hide another: of two keys with the same first slot, the second is no
  longer found once the first is deleted, although the map still counts it.
\<close>

lemma hashmap_delete_hides_other:
  "(case put_all (hashmap_new_with_hkg_with_hkc hashmap_default_kg hashmap_default_kc True True True
      4 None None) [(Ref 4, Ref (10 :: u64)), (Ref 8, Ref 20)] of
      None \<Rightarrow> False
    | Some hm \<Rightarrow> hashmap_get hm (Ref 8) = Some (Ref 20) \<and>
        (case hashmap_delete hm (Ref 4) of
           None \<Rightarrow> False
         | Some (hm', ok) \<Rightarrow> ok \<and> hashmap_size hm' = 1 \<and> hashmap_get hm' (Ref 8) = Some NULL))"
  by code_simp

text \<open>
  Destroying a map does not hand every value to the item destroyer: it looks at as many
  slots of a segment as the segment has items, not at all of them.
\<close>

lemma hashmap_destroy_misses_item:
  "(case put_all (hashmap_new_with_hkg_with_hkc hashmap_default_kg hashmap_default_kc True True True
      4 None None) [(Ref 3, Ref (10 :: u64))] of
      None \<Rightarrow> False
    | Some hm \<Rightarrow> hashmap_size hm = 1 \<and> hashmap_destroy_with_item_destroyer hm True = Some ([], False))"
  by code_simp

text \<open>
  Iterating over a map whose first segment became empty misses items: the iterator is
  created at its end although the map still has an item.
\<close>

lemma hashmap_iterator_misses_item:
  "(case put_all (hashmap_new_with_hkg_with_hkc hashmap_default_kg hashmap_default_kc True True True
      1 None None) [(Ref 3, Ref (10 :: u64)), (Ref 4, Ref 20)] of
      None \<Rightarrow> False
    | Some hm \<Rightarrow>
        (case hashmap_delete hm (Ref 3) of
           None \<Rightarrow> False
         | Some (hm', ok) \<Rightarrow> hashmap_get hm' (Ref 4) = Some (Ref 20) \<and>
             (case hashmap_iterator_create True True hm' of
                Some (Ref iter) \<Rightarrow> hashmap_iterator_end_of_iterator iter = 0
              | _ \<Rightarrow> False)))"
  by code_simp

end
