(* ===== verification/Strings.thy ===== *)
theory Strings
  imports Buffer
begin

text \<open>
  The string library \<open>cc/lib/strings.xx.c\<close> and the number formatting of
  \<open>cc/lib/utils.xx.c\<close>. A \<^verbatim>\<open>char_t*\<close> is null or the bytes from the pointer to the end of its
  object, as in \<open>Memory_Bytes\<close>; a string that is not terminated in its object has no length.
  A \<^verbatim>\<open>char_t\<close> is signed: comparisons of characters read the byte with \<open>sint\<close>. A
  \<^verbatim>\<open>number_t\<close> is a 64 bit integer whose arithmetic wraps around.
\<close>

subsection \<open>Length and comparison\<close>

function strlen_loop :: "bytes \<Rightarrow> nat \<Rightarrow> nat option" where
  "strlen_loop m ret = do {
     c \<leftarrow> byte_at m ret;
     (if c \<noteq> 0 then strlen_loop m (Suc ret) else Some ret)
   }"
  by pat_completeness auto
termination by (relation "measure (\<lambda>(m, ret). length m - ret)") (auto simp: byte_at_def split: if_splits)

declare strlen_loop.simps [simp del]

definition strlen :: "bytes ref \<Rightarrow> nat option" where
  "strlen string = (case string of NULL \<Rightarrow> Some 0 | Ref m \<Rightarrow> strlen_loop m 0)"

definition strcmp :: "bytes ref \<Rightarrow> bytes ref \<Rightarrow> int option" where
  "strcmp string1 string2 = do {
     len1 \<leftarrow> strlen string1;
     len2 \<leftarrow> strlen string2;
     (let minlen = (if len1 < len2 then len1 else len2) in do {
       res \<leftarrow> memory_memcompare string1 string2 minlen;
       Some (if res \<noteq> 0 then res
             else if len1 = len2 then 0
             else if minlen = len1 then - 1 else 1)
     })
   }"

function strncmp_loop :: "bytes \<Rightarrow> bytes \<Rightarrow> nat \<Rightarrow> nat \<Rightarrow> int option" where
  "strncmp_loop m1 m2 i n =
     (if i < n then do {
        a \<leftarrow> byte_at m1 i;
        b \<leftarrow> byte_at m2 i;
        (if sint a < sint b then Some (- 1)
         else if sint a > sint b then Some 1
         else strncmp_loop m1 m2 (Suc i) n)
      } else Some 0)"
  by pat_completeness auto
termination by (relation "measure (\<lambda>(m1, m2, i, n). n - i)") auto

declare strncmp_loop.simps [simp del]

definition strncmp :: "bytes ref \<Rightarrow> bytes ref \<Rightarrow> nat \<Rightarrow> int option" where
  "strncmp string1 string2 n = do {
     len1 \<leftarrow> strlen string1;
     len2 \<leftarrow> strlen string2;
     (if n \<le> (if len1 < len2 then len1 else len2) then
        (if n = 0 then Some 0
         else do {
           m1 \<leftarrow> ref_opt string1;
           m2 \<leftarrow> ref_opt string2;
           strncmp_loop m1 m2 0 n
         })
      else strcmp string1 string2)
   }"

text \<open>The comparator of \<open>cc/lib/list.64.c\<close> for lists of strings.\<close>

definition list_string_comprator :: "bytes ref \<Rightarrow> bytes ref \<Rightarrow> int option" where
  "list_string_comprator data1 data2 = strcmp data1 data2"

definition strstarts :: "bytes ref \<Rightarrow> bytes ref \<Rightarrow> int option" where
  "strstarts str prefix = do {
     l \<leftarrow> strlen str;
     lp \<leftarrow> strlen prefix;
     (if l < lp then Some (- 1)
      else do {
        r \<leftarrow> memory_memcompare str prefix lp;
        Some (if r = 0 then 0 else - 1)
      })
   }"

definition strends :: "bytes ref \<Rightarrow> bytes ref \<Rightarrow> int option" where
  "strends str suffix = do {
     l \<leftarrow> strlen str;
     ls \<leftarrow> strlen suffix;
     (if l < ls then Some (- 1)
      else do {
        p \<leftarrow> ptr_add str (l - ls);
        r \<leftarrow> memory_memcompare p suffix ls;
        Some (if r = 0 then 0 else - 1)
      })
   }"

subsection \<open>Copying\<close>

text \<open>Copies return the destination as well; \<open>ok\<close> says whether an allocation succeeds.\<close>

definition strcopy :: "bytes ref \<Rightarrow> bytes ref \<Rightarrow> (bytes ref \<times> int) option" where
  "strcopy source destination =
     (if source = NULL \<or> destination = NULL then Some (destination, - 1)
      else do {
        l \<leftarrow> strlen source;
        r \<leftarrow> memory_memcopy source destination (l + 1);
        Some (fst r, 0)
      })"

function strrev_loop :: "bytes \<Rightarrow> bytes \<Rightarrow> nat \<Rightarrow> nat \<Rightarrow> bytes option" where
  "strrev_loop source dest i len =
     (if i < len then do {
        c \<leftarrow> byte_at source (len - i - 1);
        dest' \<leftarrow> set_byte dest i c;
        strrev_loop source dest' (Suc i) len
      } else Some dest)"
  by pat_completeness auto
termination by (relation "measure (\<lambda>(source, dest, i, len). len - i)") auto

declare strrev_loop.simps [simp del]

definition strrev :: "bool \<Rightarrow> bytes ref \<Rightarrow> bytes ref option" where
  "strrev ok source = do {
     len \<leftarrow> strlen source;
     (if len = 0 then Some NULL
      else if \<not> ok then Some NULL
      else do {
        m \<leftarrow> ref_opt source;
        d \<leftarrow> strrev_loop m (replicate len 0) 0 len;
        Some (Ref d)
      })
   }"

definition strndup_at_heap :: "bool \<Rightarrow> bytes ref \<Rightarrow> nat \<Rightarrow> bytes ref option" where
  "strndup_at_heap ok src l =
     (if src = NULL then Some NULL
      else do {
        len \<leftarrow> strlen src;
        (let l' = (if l < len then l else len) in
         if \<not> ok then Some NULL
         else do {
           r \<leftarrow> memory_memcopy src (Ref (replicate (l' + 1) 0)) l';
           Some (fst r)
         })
      })"

definition strdup :: "bool \<Rightarrow> bytes ref \<Rightarrow> bytes ref option" where
  "strdup ok src = do { l \<leftarrow> strlen src; strndup_at_heap ok src l }"

definition strcat_at_heap :: "bool \<Rightarrow> bytes ref \<Rightarrow> bytes ref \<Rightarrow> bytes ref option" where
  "strcat_at_heap ok string1 string2 = do {
     l1 \<leftarrow> strlen string1;
     l2 \<leftarrow> strlen string2;
     (if \<not> ok then Some NULL
      else do {
        r1 \<leftarrow> strcopy string1 (Ref (replicate (l1 + l2 + 1) 0));
        res \<leftarrow> ref_opt (fst r1);
        r2 \<leftarrow> strcopy string2 (Ref (drop l1 res));
        tl \<leftarrow> ref_opt (fst r2);
        Some (Ref (take l1 res @ tl))
      })
   }"

subsection \<open>Searching\<close>

text \<open>The searches take \<^verbatim>\<open>*s\<close> before any null check.\<close>

fun strchr_loop :: "bytes \<Rightarrow> int \<Rightarrow> bytes ref option" where
  "strchr_loop [] c = None"
| "strchr_loop (x # xs) c =
     (if x = 0 then Some NULL
      else if sint x = c then Some (Ref (x # xs))
      else strchr_loop xs c)"

definition strchr :: "bytes ref \<Rightarrow> int \<Rightarrow> bytes ref option" where
  "strchr s c = do { m \<leftarrow> ref_opt s; strchr_loop m c }"

fun strrchr_loop :: "bytes \<Rightarrow> int \<Rightarrow> bytes ref \<Rightarrow> bytes ref option" where
  "strrchr_loop [] c lst = None"
| "strrchr_loop (x # xs) c lst =
     (if x = 0 then Some lst
      else strrchr_loop xs c (if sint x = c then Ref (x # xs) else lst))"

definition strrchr :: "bytes ref \<Rightarrow> int \<Rightarrow> bytes ref option" where
  "strrchr s c = do { m \<leftarrow> ref_opt s; strrchr_loop m c NULL }"

fun strstr_loop :: "bytes \<Rightarrow> bytes ref \<Rightarrow> nat \<Rightarrow> bytes ref option" where
  "strstr_loop [] needle n = None"
| "strstr_loop (x # xs) needle n =
     (if x \<noteq> 0 then do {
        r \<leftarrow> strncmp (Ref (x # xs)) needle n;
        (if r = 0 then Some (Ref (x # xs)) else strstr_loop xs needle n)
      } else Some NULL)"

definition strstr :: "bytes ref \<Rightarrow> bytes ref \<Rightarrow> bytes ref option" where
  "strstr haystack needle = do {
     n \<leftarrow> strlen needle;
     h \<leftarrow> ref_opt haystack;
     strstr_loop h needle n
   }"

subsection \<open>Splitting\<close>

fun count_tokens :: "bytes \<Rightarrow> u8 \<Rightarrow> nat option" where
  "count_tokens [] token = None"
| "count_tokens (x # xs) token =
     (if x \<noteq> 0 then do {
        n \<leftarrow> count_tokens xs token;
        Some (if x = token then Suc n else n)
      } else Some 0)"

definition set_at :: "'a list \<Rightarrow> nat \<Rightarrow> 'a \<Rightarrow> 'a list option" where
  "set_at xs i x = (if i < length xs then Some (xs[i := x]) else None)"

text \<open>
  The second loop of \<^verbatim>\<open>strsplit\<close>; \<open>ri\<close> and \<open>li\<close> are the places of \<^verbatim>\<open>result\<close> and
  \<^verbatim>\<open>tmp_lengths\<close> in their arrays.
\<close>

fun strsplit_loop ::
  "u8 \<Rightarrow> bytes \<Rightarrow> nat \<Rightarrow> nat \<Rightarrow> nat \<Rightarrow> bytes ref list \<Rightarrow> nat list \<Rightarrow> (bytes ref list \<times> nat list) option" where
  "strsplit_loop token [] ri li len result lengths = None"
| "strsplit_loop token (x # xs) ri li len result lengths =
     (if x \<noteq> 0 then
        (if x = token then
           (case xs of [] \<Rightarrow> None
            | y # _ \<Rightarrow>
                (if y = 0 then do {
                   lengths' \<leftarrow> set_at lengths li len;
                   Some (result, lengths')
                 } else do {
                   result' \<leftarrow> set_at result (Suc ri) (Ref xs);
                   lengths' \<leftarrow> set_at lengths li len;
                   strsplit_loop token xs (Suc ri) (Suc li) 0 result' lengths'
                 }))
         else strsplit_loop token xs ri li (Suc len) result lengths)
      else do {
        lengths' \<leftarrow> set_at lengths li len;
        Some (result, lengths')
      })"

text \<open>The pieces, their lengths and their number; the two flags are the allocations.\<close>

definition strsplit ::
  "bool \<Rightarrow> bool \<Rightarrow> bytes ref \<Rightarrow> u8 \<Rightarrow> (bytes ref list ref \<times> nat list ref \<times> nat) option" where
  "strsplit lengths_ok ok str token =
     (case str of NULL \<Rightarrow> Some (NULL, NULL, 0)
      | Ref m \<Rightarrow> do {
          n \<leftarrow> count_tokens m token;
          (if \<not> lengths_ok then Some (NULL, NULL, Suc n)
           else if \<not> ok then Some (NULL, NULL, Suc n)
           else do {
             r \<leftarrow> strsplit_loop token m 0 0 0 ((replicate (Suc n) NULL)[0 := str]) (replicate (Suc n) 0);
             Some (Ref (fst r), Ref (snd r), Suc n)
           })
        })"

subsection \<open>Case and trimming\<close>

text \<open>The loops over the characters of a string in place.\<close>

fun map_string :: "(u8 \<Rightarrow> u8) \<Rightarrow> bytes \<Rightarrow> bytes option" where
  "map_string f [] = None"
| "map_string f (x # xs) =
     (if x \<noteq> 0 then do { ys \<leftarrow> map_string f xs; Some (f x # ys) } else Some (x # xs))"

definition upper_char :: "u8 \<Rightarrow> u8" where
  "upper_char c = (if sint c \<ge> 97 \<and> sint c \<le> 122 then c - 0x20 else c)"

definition lower_char :: "u8 \<Rightarrow> u8" where
  "lower_char c = (if sint c \<ge> 65 \<and> sint c \<le> 90 then c + 0x20 else c)"

definition strupper :: "bytes ref \<Rightarrow> bytes ref option" where
  "strupper str =
     (case str of NULL \<Rightarrow> Some NULL | Ref m \<Rightarrow> do { r \<leftarrow> map_string upper_char m; Some (Ref r) })"

definition strlower :: "bytes ref \<Rightarrow> bytes ref option" where
  "strlower str =
     (case str of NULL \<Rightarrow> Some NULL | Ref m \<Rightarrow> do { r \<leftarrow> map_string lower_char m; Some (Ref r) })"

definition struppercopy :: "bool \<Rightarrow> bytes ref \<Rightarrow> bytes ref option" where
  "struppercopy ok str = do { s \<leftarrow> strdup ok str; strupper s }"

definition strlowercopy :: "bool \<Rightarrow> bytes ref \<Rightarrow> bytes ref option" where
  "strlowercopy ok str = do { s \<leftarrow> strdup ok str; strlower s }"

fun str_is_upper_loop :: "bytes \<Rightarrow> int option" where
  "str_is_upper_loop [] = None"
| "str_is_upper_loop (x # xs) =
     (if x \<noteq> 0 then (if sint x \<ge> 97 \<and> sint x \<le> 122 then Some (- 1) else str_is_upper_loop xs)
      else Some 0)"

definition str_is_upper :: "bytes ref \<Rightarrow> int option" where
  "str_is_upper str = (case str of NULL \<Rightarrow> Some 0 | Ref m \<Rightarrow> str_is_upper_loop m)"

text \<open>\<open>n\<close> is \<^verbatim>\<open>i + 1\<close>: the loop counts down from the last character.\<close>

fun trim_loop :: "bytes \<Rightarrow> nat \<Rightarrow> bytes option" where
  "trim_loop m 0 = Some m"
| "trim_loop m (Suc i) = do {
     c \<leftarrow> byte_at m i;
     (if c = 10 \<or> c = 13 \<or> c = 9 \<or> c = 32 then do {
        m' \<leftarrow> set_byte m i 0;
        trim_loop m' i
      } else Some m)
   }"

definition strtrim_right :: "bytes ref \<Rightarrow> bytes ref option" where
  "strtrim_right str =
     (case str of NULL \<Rightarrow> Some NULL
      | Ref m \<Rightarrow> do {
          n \<leftarrow> strlen str;
          r \<leftarrow> trim_loop m n;
          Some (Ref r)
        })"

text \<open>
  The loop of the hash tests the pointer, not the character. The pointer behind an item of an object
  is never null, and the object has no item behind its end.
\<close>

partial_function (option) strhash_loop :: "bytes ref \<Rightarrow> u64 \<Rightarrow> u64 option" where
  "strhash_loop tmp res =
     (if tmp \<noteq> NULL then do {
        m \<leftarrow> ref_opt tmp;
        c \<leftarrow> byte_at m 0;
        strhash_loop (Ref (drop 1 m)) ((push_bit 5 res + res) + scast c)
      } else Some res)"

definition strhash :: "bytes ref \<Rightarrow> u64 option" where
  "strhash input = (if input = NULL then Some 0 else strhash_loop input 5381)"

end
