(* ===== verification/Numbers.thy ===== *)
theory Numbers
  imports Strings
begin

text \<open>
  Numbers as text and the conversions between character widths: \<open>power\<close> and the
  \<open>*to_base\<close> functions of \<open>cc/lib/utils.xx.c\<close>, the \<open>ato*\<close> functions and the UTF conversions
  of \<open>cc/lib/strings.xx.c\<close>. A \<^verbatim>\<open>number_t\<close> is a 64 bit word, read with \<open>sint\<close> where its sign
  matters; its arithmetic wraps around.
\<close>

subsection \<open>Powers\<close>

text \<open>C division truncates towards zero.\<close>

definition trunc_div :: "int \<Rightarrow> int \<Rightarrow> int" where
  "trunc_div a b = sgn a * sgn b * (\<bar>a\<bar> div \<bar>b\<bar>)"

definition trunc_mod :: "int \<Rightarrow> int \<Rightarrow> int" where
  "trunc_mod a b = a - trunc_div a b * b"

lemma trunc_div_abs_less: "a \<noteq> 0 \<Longrightarrow> 2 \<le> b \<Longrightarrow> \<bar>trunc_div a b\<bar> < \<bar>a\<bar>"
proof -
  assume "a \<noteq> 0" "2 \<le> b"
  then have "\<bar>trunc_div a b\<bar> = \<bar>a\<bar> div b" by (auto simp: trunc_div_def abs_mult sgn_if pos_imp_zdiv_nonneg_iff)
  also have "\<dots> < \<bar>a\<bar>" using \<open>a \<noteq> 0\<close> \<open>2 \<le> b\<close> by (intro int_div_less_self) auto
  finally show ?thesis .
qed

function power_loop :: "u64 \<Rightarrow> u64 \<Rightarrow> int \<Rightarrow> u64" where
  "power_loop ret base p =
     (if p \<noteq> 0 then power_loop (if odd p then ret * base else ret) (base * base) (trunc_div p 2) else ret)"
  by pat_completeness auto
termination
  by (relation "measure (\<lambda>(ret, base, p). nat \<bar>p\<bar>)") (auto simp: trunc_div_abs_less nat_mono_iff)

declare power_loop.simps [simp del]

definition power_number :: "u64 \<Rightarrow> u64 \<Rightarrow> u64" where
  "power_number base p = (if p = 0 then 1 else power_loop 1 base (sint p))"

subsection \<open>Numbers to text\<close>

definition DIGIT_TO_HEX :: "u64 \<Rightarrow> u8" where
  "DIGIT_TO_HEX r = (if r < 10 then ucast (r + 48) else ucast (r + 55))"

text \<open>The digit counting loop and the loop that writes the digits from the last to the first.\<close>

partial_function (option) digit_count :: "u64 \<Rightarrow> u64 \<Rightarrow> nat \<Rightarrow> nat option" where
  "digit_count temp base len =
     (if temp \<noteq> 0 then digit_count (temp div base) base (Suc len) else Some len)"

partial_function (option) write_digits :: "bytes \<Rightarrow> u64 \<Rightarrow> u64 \<Rightarrow> nat \<Rightarrow> nat \<Rightarrow> bytes option" where
  "write_digits buffer number base len i =
     (if number \<noteq> 0 then do {
        buffer' \<leftarrow> set_byte buffer (len - i) (DIGIT_TO_HEX (number mod base));
        write_digits buffer' (number div base) base len (Suc i)
      } else Some buffer)"

definition uto_base_with_buffer :: "bytes ref \<Rightarrow> u64 \<Rightarrow> u64 \<Rightarrow> (bytes ref \<times> int) option" where
  "uto_base_with_buffer buffer number base =
     (case buffer of NULL \<Rightarrow> Some (NULL, - 1)
      | Ref b \<Rightarrow>
          (if sint base < 2 \<or> sint base > 36 then Some (buffer, - 1)
           else if number = 0 then do {
             b1 \<leftarrow> set_byte b 0 48;
             b2 \<leftarrow> set_byte b1 1 0;
             Some (Ref b2, 0)
           } else do {
             len \<leftarrow> digit_count number base 0;
             b1 \<leftarrow> write_digits b number base len 1;
             b2 \<leftarrow> set_byte b1 len 0;
             Some (Ref b2, 0)
           }))"

definition uto_base :: "bool \<Rightarrow> u64 \<Rightarrow> u64 \<Rightarrow> bytes ref option" where
  "uto_base ok number base = do {
     r \<leftarrow> uto_base_with_buffer (Ref (replicate 64 0)) number base;
     (if snd r \<noteq> 0 then Some NULL
      else do {
        len \<leftarrow> strlen (fst r);
        (if \<not> ok then Some NULL
         else do {
           c \<leftarrow> strcopy (fst r) (Ref (replicate (len + 1) 0));
           Some (fst c)
         })
      })
   }"

text \<open>
  The signed version; \<open>number\<close> and \<open>temp\<close> are signed values. Negating the smallest number
  gives itself, and then the remainders are negative.
\<close>

partial_function (option) signed_digit_count :: "int \<Rightarrow> int \<Rightarrow> nat \<Rightarrow> nat option" where
  "signed_digit_count temp base len =
     (if temp \<noteq> 0 then signed_digit_count (trunc_div temp base) base (Suc len) else Some len)"

partial_function (option) write_signed_digits ::
  "bytes \<Rightarrow> int \<Rightarrow> int \<Rightarrow> nat \<Rightarrow> nat \<Rightarrow> nat \<Rightarrow> bytes option" where
  "write_signed_digits buffer number base len i sign =
     (if number \<noteq> 0 then
        (let r = trunc_mod number base in do {
           buffer' \<leftarrow> set_byte buffer (len - i + sign) (if r < 10 then of_int (48 + r) else of_int (55 + r));
           write_signed_digits buffer' (trunc_div number base) base len (Suc i) sign
         })
      else Some buffer)"

definition ito_base_with_buffer :: "bytes ref \<Rightarrow> u64 \<Rightarrow> u64 \<Rightarrow> (bytes ref \<times> int) option" where
  "ito_base_with_buffer buffer number base =
     (case buffer of NULL \<Rightarrow> Some (NULL, - 1)
      | Ref b \<Rightarrow>
          (if sint base < 2 \<or> sint base > 36 then Some (buffer, - 1)
           else if number = 0 then do {
             b1 \<leftarrow> set_byte b 0 48;
             b2 \<leftarrow> set_byte b1 1 0;
             Some (Ref b2, 0)
           } else do {
             b0 \<leftarrow> (if sint number < 0 then set_byte b 0 45 else Some b);
             (let sign = (if sint number < 0 then 1 else 0);
                  number' = (if sint number < 0 then sint (- number) else sint number) in do {
               len \<leftarrow> signed_digit_count number' (sint base) 0;
               b1 \<leftarrow> write_signed_digits b0 number' (sint base) len 1 sign;
               b2 \<leftarrow> set_byte b1 (len + sign) 0;
               Some (Ref b2, 0)
             })
           }))"

definition ito_base :: "bool \<Rightarrow> u64 \<Rightarrow> u64 \<Rightarrow> bytes ref option" where
  "ito_base ok number base = do {
     r \<leftarrow> ito_base_with_buffer (Ref (replicate 64 0)) number base;
     (if snd r \<noteq> 0 then Some NULL
      else do {
        len \<leftarrow> strlen (fst r);
        (if \<not> ok then Some NULL
         else do {
           c \<leftarrow> strcopy (fst r) (Ref (replicate (len + 1) 0));
           Some (fst c)
         })
      })
   }"

subsection \<open>Text to numbers\<close>

text \<open>The value a character stands for in the two parsers, as a signed number.\<close>

definition signed_digit :: "u8 \<Rightarrow> u64" where
  "signed_digit c = (if sint c \<le> 57 then of_int (sint c - 48) else of_int (sint c - 55))"

definition unsigned_digit :: "u8 \<Rightarrow> u64" where
  "unsigned_digit c =
     (if sint c \<le> 57 then of_int (sint c - 48)
      else if sint c \<le> 90 then of_int (sint c - 65) + 10
      else of_int (sint c - 97) + 10)"

text \<open>The loop over the digits from the last to the first; \<^verbatim>\<open>p\<close> is \<^verbatim>\<open>i - 1\<close>.\<close>

function ato_loop :: "(u8 \<Rightarrow> u64) \<Rightarrow> bytes \<Rightarrow> u64 \<Rightarrow> nat \<Rightarrow> nat \<Rightarrow> u64 \<Rightarrow> u64 option" where
  "ato_loop digit source base l i ret =
     (if i \<le> l then do {
        c \<leftarrow> byte_at source (l - i);
        ato_loop digit source base l (Suc i) (ret + digit c * power_number base (of_nat (i - 1)))
      } else Some ret)"
  by pat_completeness auto
termination by (relation "measure (\<lambda>(digit, source, base, l, i, ret). Suc l - i)") auto

declare ato_loop.simps [simp del]

definition atou_base :: "bytes ref \<Rightarrow> u64 \<Rightarrow> u64 option" where
  "atou_base source base =
     (case source of NULL \<Rightarrow> Some 0
      | Ref m \<Rightarrow> do {
          l \<leftarrow> strlen source;
          ato_loop unsigned_digit m base l 1 0
        })"

text \<open>A plus sign may be followed by a minus sign.\<close>

definition ato_base :: "bytes ref \<Rightarrow> u64 \<Rightarrow> u64 option" where
  "ato_base source base =
     (case source of NULL \<Rightarrow> Some 0
      | Ref m \<Rightarrow> do {
          c0 \<leftarrow> byte_at m 0;
          (let m1 = (if c0 = 43 then drop 1 m else m) in do {
            c1 \<leftarrow> byte_at m1 0;
            (let sign = (if c1 = 45 then - 1 else 1);
                 m2 = (if c1 = 45 then drop 1 m1 else m1) in do {
              l \<leftarrow> strlen (Ref m2);
              ret \<leftarrow> ato_loop signed_digit m2 base l 1 0;
              Some (sign * ret)
            })
          })
        })"

subsection \<open>UTF conversions\<close>

fun wide_size :: "'a::zero list \<Rightarrow> nat option" where
  "wide_size [] = None"
| "wide_size (c # cs) = (if c \<noteq> 0 then do { n \<leftarrow> wide_size cs; Some (Suc n) } else Some 0)"

definition wchar_size :: "u16 list ref \<Rightarrow> nat option" where
  "wchar_size str = (case str of NULL \<Rightarrow> Some 0 | Ref m \<Rightarrow> wide_size m)"

definition lchar_size :: "u32 list ref \<Rightarrow> nat option" where
  "lchar_size str = do { m \<leftarrow> ref_opt str; wide_size m }"

text \<open>Writing the bytes of one character at place \<open>j\<close>.\<close>

fun put_bytes :: "bytes \<Rightarrow> nat \<Rightarrow> bytes \<Rightarrow> bytes option" where
  "put_bytes dst j [] = Some dst"
| "put_bytes dst j (b # bs) = do {
     dst' \<leftarrow> set_byte dst j b;
     put_bytes dst' (Suc j) bs
   }"

definition encode16 :: "u16 \<Rightarrow> bytes" where
  "encode16 c =
     (if c \<ge> 0x800 then
        [ucast ((drop_bit 12 c AND 0xF) OR 0xE0), ucast ((drop_bit 6 c AND 0x3F) OR 0x80),
         ucast ((c AND 0x3F) OR 0x80)]
      else if c \<ge> 0x80 then
        [ucast ((drop_bit 6 c AND 0x1F) OR 0xC0), ucast ((c AND 0x3F) OR 0x80)]
      else [ucast (c AND 0x7F)])"

definition encode32 :: "u32 \<Rightarrow> bytes" where
  "encode32 c =
     (if c \<ge> 10000 then
        [ucast ((drop_bit 18 c AND 0x7) OR 0xF0), ucast ((drop_bit 12 c AND 0x3F) OR 0x80),
         ucast ((drop_bit 6 c AND 0x3F) OR 0x80), ucast ((c AND 0x3F) OR 0x80)]
      else if c \<ge> 0x800 then
        [ucast ((drop_bit 12 c AND 0xF) OR 0xE0), ucast ((drop_bit 6 c AND 0x3F) OR 0x80),
         ucast ((c AND 0x3F) OR 0x80)]
      else if c \<ge> 0x80 then
        [ucast ((drop_bit 6 c AND 0x1F) OR 0xC0), ucast ((c AND 0x3F) OR 0x80)]
      else [ucast (c AND 0x7F)])"

fun encode_loop :: "('a::zero \<Rightarrow> bytes) \<Rightarrow> 'a list \<Rightarrow> bytes \<Rightarrow> nat \<Rightarrow> bytes option" where
  "encode_loop enc [] dst j = None"
| "encode_loop enc (c # cs) dst j =
     (if c \<noteq> 0 then do {
        dst' \<leftarrow> put_bytes dst j (enc c);
        encode_loop enc cs dst' (j + length (enc c))
      } else Some dst)"

definition char16_to_char :: "bool \<Rightarrow> u16 list ref \<Rightarrow> bytes ref option" where
  "char16_to_char ok src =
     (case src of NULL \<Rightarrow> Some NULL
      | Ref s \<Rightarrow> do {
          len \<leftarrow> wchar_size src;
          (if \<not> ok then Some NULL
           else do {
             d \<leftarrow> encode_loop encode16 s (replicate (len * 4 + 1) 0) 0;
             Some (Ref d)
           })
        })"

definition char32_to_char :: "bool \<Rightarrow> u32 list ref \<Rightarrow> bytes ref option" where
  "char32_to_char ok src =
     (case src of NULL \<Rightarrow> Some NULL
      | Ref s \<Rightarrow> do {
          len \<leftarrow> lchar_size src;
          (if \<not> ok then Some NULL
           else do {
             d \<leftarrow> encode_loop encode32 s (replicate (len * 4 + 1) 0) 0;
             Some (Ref d)
           })
        })"

text \<open>
  One character read at place \<open>i\<close>, truncated to 16 bits as the variable \<^verbatim>\<open>wc\<close> is, and the place
  after it.
\<close>

definition bits_at :: "bytes \<Rightarrow> nat \<Rightarrow> u32 \<Rightarrow> u32 option" where
  "bits_at m i bits = do { c \<leftarrow> byte_at m i; Some (ucast c AND bits) }"

definition decode_char :: "bytes \<Rightarrow> nat \<Rightarrow> (u16 \<times> nat) option" where
  "decode_char m i = do {
     c \<leftarrow> byte_at m i;
     (let wc = scast c :: u16 in
      if wc AND 128 \<noteq> 0 then
        (if wc AND 32 = 0 then do {
           a \<leftarrow> bits_at m i 0x1F;
           b \<leftarrow> bits_at m (i + 1) 0x3F;
           Some (ucast (push_bit 6 a + b), i + 2)
         } else if wc AND 16 = 0 then do {
           a \<leftarrow> bits_at m i 0xF;
           b \<leftarrow> bits_at m (i + 1) 0x3F;
           c \<leftarrow> bits_at m (i + 2) 0x3F;
           Some (ucast (push_bit 6 (push_bit 6 a + b) + c), i + 3)
         } else if wc AND 8 = 0 then do {
           a \<leftarrow> bits_at m i 0x7;
           b \<leftarrow> bits_at m (i + 1) 0x3F;
           c \<leftarrow> bits_at m (i + 2) 0x3F;
           d \<leftarrow> bits_at m (i + 3) 0x3F;
           Some (ucast (push_bit 6 (push_bit 6 (push_bit 6 a + b) + c) + d), i + 4)
         } else Some (0, i + 1))
      else Some (wc, i + 1))
   }"

text \<open>The loop over the characters, writing units of \<open>'a\<close> into \<open>res\<close>.\<close>

partial_function (option) decode_loop ::
  "(u16 \<Rightarrow> 'a) \<Rightarrow> bytes \<Rightarrow> nat \<Rightarrow> 'a list \<Rightarrow> nat \<Rightarrow> 'a list option" where
  "decode_loop widen m i res j = do {
     c \<leftarrow> byte_at m i;
     (if c \<noteq> 0 then do {
        r \<leftarrow> decode_char m i;
        res' \<leftarrow> set_at res j (widen (fst r));
        decode_loop widen m (snd r) res' (Suc j)
      } else Some res)
   }"

text \<open>
  The arrays have \<^verbatim>\<open>2 * len + 1\<close> bytes in both conversions: room for \<open>(2 * len + 1) div 2\<close>
  units of two bytes and \<open>(2 * len + 1) div 4\<close> units of four. What the allocator adds to round the
  size up is not counted.
\<close>

definition char_to_wchar :: "bool \<Rightarrow> bytes ref \<Rightarrow> u16 list ref option" where
  "char_to_wchar ok str =
     (case str of NULL \<Rightarrow> Some NULL
      | Ref m \<Rightarrow> do {
          len \<leftarrow> strlen str;
          (if \<not> ok then Some NULL
           else do {
             r \<leftarrow> decode_loop (\<lambda>w. w) m 0 (replicate ((2 * len + 1) div 2) 0) 0;
             Some (Ref r)
           })
        })"

definition char_to_lchar :: "bool \<Rightarrow> bytes ref \<Rightarrow> u32 list ref option" where
  "char_to_lchar ok str =
     (case str of NULL \<Rightarrow> Some NULL
      | Ref m \<Rightarrow> do {
          len \<leftarrow> strlen str;
          (if \<not> ok then Some NULL
           else do {
             r \<leftarrow> decode_loop ucast m 0 (replicate ((2 * len + 1) div 4) 0) 0;
             Some (Ref r)
           })
        })"

subsection \<open>Character classes\<close>

text \<open>A character is a signed byte.\<close>

definition isalpha :: "u8 \<Rightarrow> bool" where
  "isalpha c \<longleftrightarrow> (sint c \<ge> 97 \<and> sint c \<le> 122) \<or> (sint c \<ge> 65 \<and> sint c \<le> 90)"

definition isdigit :: "u8 \<Rightarrow> bool" where
  "isdigit c \<longleftrightarrow> sint c \<ge> 48 \<and> sint c \<le> 57"

definition isalnum :: "u8 \<Rightarrow> bool" where
  "isalnum c \<longleftrightarrow> isalpha c \<or> isdigit c"

definition isxdigit :: "u8 \<Rightarrow> bool" where
  "isxdigit c \<longleftrightarrow> isdigit c \<or> (sint c \<ge> 97 \<and> sint c \<le> 102) \<or> (sint c \<ge> 65 \<and> sint c \<le> 70)"

definition islower :: "u8 \<Rightarrow> bool" where
  "islower c \<longleftrightarrow> sint c \<ge> 97 \<and> sint c \<le> 122"

definition isupper :: "u8 \<Rightarrow> bool" where
  "isupper c \<longleftrightarrow> sint c \<ge> 65 \<and> sint c \<le> 90"

definition isspace :: "u8 \<Rightarrow> bool" where
  "isspace c \<longleftrightarrow> c = 32 \<or> c = 9 \<or> c = 10 \<or> c = 13 \<or> c = 11 \<or> c = 12"

definition isprint :: "u8 \<Rightarrow> bool" where
  "isprint c \<longleftrightarrow> sint c \<ge> 0x20 \<and> sint c \<le> 0x7E"

definition isgraph :: "u8 \<Rightarrow> bool" where
  "isgraph c \<longleftrightarrow> sint c \<ge> 0x21 \<and> sint c \<le> 0x7E"

definition iscntrl :: "u8 \<Rightarrow> bool" where
  "iscntrl c \<longleftrightarrow> sint c \<le> 0x1F \<or> sint c = 0x7F"

definition ispunct :: "u8 \<Rightarrow> bool" where
  "ispunct c \<longleftrightarrow> (sint c \<ge> 0x21 \<and> sint c \<le> 0x2F) \<or> (sint c \<ge> 0x3A \<and> sint c \<le> 0x40) \<or>
     (sint c \<ge> 0x5B \<and> sint c \<le> 0x60) \<or> (sint c \<ge> 0x7B \<and> sint c \<le> 0x7E)"

definition isblank :: "u8 \<Rightarrow> bool" where
  "isblank c \<longleftrightarrow> c = 32 \<or> c = 9"

definition isascii :: "u8 \<Rightarrow> bool" where
  "isascii c \<longleftrightarrow> sint c \<ge> 0 \<and> uint c \<le> 0x7F"

definition isalnumw :: "u8 \<Rightarrow> bool" where
  "isalnumw c \<longleftrightarrow> isalnum c \<or> c = 95"

declare digit_count.simps [code] write_digits.simps [code] signed_digit_count.simps [code]
  write_signed_digits.simps [code] decode_loop.simps [code]

end
