(* ===== verification/Strings_Props.thy ===== *)
theory Strings_Props
  imports Numbers LinkedList_Sorted "HOL-Library.Sublist"
begin

text \<open>
  What the string functions compute on terminated strings, the string order as a comparator
  of sorted lists, and the round trips between numbers and text and between UTF-16 and UTF-8.
\<close>

subsection \<open>Terminated strings\<close>

definition cstr :: "bytes \<Rightarrow> bytes" where
  "cstr m = takeWhile (\<lambda>c. c \<noteq> 0) m"

definition terminated :: "bytes \<Rightarrow> bool" where
  "terminated m \<longleftrightarrow> 0 \<in> set m"

lemma cstr_simps [simp]: "cstr [] = []" "cstr (c # m) = (if c = 0 then [] else c # cstr m)"
  by (simp_all add: cstr_def)

lemma terminated_simps [simp]: "\<not> terminated []" "terminated (c # m) \<longleftrightarrow> c = 0 \<or> terminated m"
  by (auto simp: terminated_def)

lemma cstr_length: "terminated m \<Longrightarrow> length (cstr m) < length m"
  by (induction m) auto

lemma take_cstr: "take (length (cstr m)) m = cstr m"
  by (induction m) auto

lemma cstr_end: "terminated m \<Longrightarrow> m ! length (cstr m) = 0"
  by (induction m) auto

lemma cstr_nonzero: "c \<in> set (cstr m) \<Longrightarrow> c \<noteq> 0"
  by (auto simp: cstr_def dest: set_takeWhileD)

lemma cstr_append [simp]: "\<forall>c \<in> set s. c \<noteq> 0 \<Longrightarrow> cstr (s @ 0 # m) = s"
  by (induction s) auto

lemma terminated_append [simp]: "terminated (s @ m) \<longleftrightarrow> terminated s \<or> terminated m"
  by (auto simp: terminated_def)

lemma terminated_split: "terminated m \<Longrightarrow> m = cstr m @ 0 # drop (Suc (length (cstr m))) m"
  by (induction m) auto

lemma strlen_loop_ok:
  "terminated (drop i m) \<Longrightarrow> strlen_loop m i = Some (i + length (cstr (drop i m)))"
proof (induction m i rule: strlen_loop.induct)
  case (1 m i)
  have i: "i < length m" using "1.prems" by (cases "i < length m") auto
  then have drop: "drop i m = m ! i # drop (Suc i) m" by (simp add: Cons_nth_drop_Suc)
  show ?case
    using 1 i unfolding drop by (subst strlen_loop.simps) (auto simp: byte_at_def)
qed

lemma strlen_ok [simp]: "terminated m \<Longrightarrow> strlen (Ref m) = Some (length (cstr m))"
  using strlen_loop_ok [of 0 m] by (simp add: strlen_def)

subsection \<open>The order of strings\<close>

fun str_order :: "bytes \<Rightarrow> bytes \<Rightarrow> int" where
  "str_order [] [] = 0"
| "str_order [] (y # ys) = - 1"
| "str_order (x # xs) [] = 1"
| "str_order (x # xs) (y # ys) = (if x < y then - 1 else if x > y then 1 else str_order xs ys)"

lemma str_order_lex_cmp:
  "(let k = min (length xs) (length ys); r = lex_cmp (take k xs) (take k ys) in
    if r \<noteq> 0 then r else if length xs = length ys then 0 else if k = length xs then - 1 else 1) =
   str_order xs ys"
  by (induction xs ys rule: str_order.induct) (auto simp: Let_def min_def)

lemma strcmp_ok:
  assumes "terminated m1" "terminated m2"
  shows "strcmp (Ref m1) (Ref m2) = Some (str_order (cstr m1) (cstr m2))"
proof -
  let ?a = "length (cstr m1)" and ?b = "length (cstr m2)"
  let ?k = "min ?a ?b"
  have le: "?k \<le> length m1" "?k \<le> length m2"
    using cstr_length [OF assms(1)] cstr_length [OF assms(2)] by simp_all
  have tk: "take ?k m = take ?k (cstr m)" if "?k \<le> length (cstr m)" for m
    using take_cstr [of m] that by (metis min_absorb1 take_take)
  have "memory_memcompare (Ref m1) (Ref m2) ?k = Some (lex_cmp (take ?k (cstr m1)) (take ?k (cstr m2)))"
    using memory_memcompare_ok [OF le] tk [of m1] tk [of m2] by simp
  moreover have "(if ?a < ?b then ?a else ?b) = ?k" by (simp add: min_def)
  ultimately show ?thesis
    using str_order_lex_cmp [of "cstr m1" "cstr m2"]
    by (simp only: strcmp_def strlen_ok [OF assms(1)] strlen_ok [OF assms(2)] bind.bind_lunit Let_def)
qed

lemma str_order_range: "str_order a b = - 1 \<or> str_order a b = 0 \<or> str_order a b = 1"
  by (induction a b rule: str_order.induct) auto

lemma str_order_flip: "str_order b a = - str_order a b"
  by (induction a b rule: str_order.induct) auto

lemma str_order_0 [simp]: "str_order a b = 0 \<longleftrightarrow> a = b"
  by (induction a b rule: str_order.induct) auto

lemma str_order_trans: "str_order a b \<le> 0 \<Longrightarrow> str_order b c \<le> 0 \<Longrightarrow> str_order a c \<le> 0"
proof (induction a b arbitrary: c rule: str_order.induct)
  case (2 y ys)
  then show ?case by (cases c) auto
next
  case (4 x xs y ys)
  then show ?case by (cases c) (auto split: if_splits)
qed auto

text \<open>
  The comparator of lists of strings: payloads are strings, null being the empty one, and
  \<^verbatim>\<open>list_string_comprator\<close> computes it on terminated strings.
\<close>

definition string_comparator :: "bytes comparator" where
  "string_comparator data1 data2 =
     str_order (case data1 of NULL \<Rightarrow> [] | Ref m \<Rightarrow> cstr m) (case data2 of NULL \<Rightarrow> [] | Ref m \<Rightarrow> cstr m)"

interpretation string_order: comparator_order string_comparator
  unfolding string_comparator_def
  by unfold_locales (rule str_order_range, rule str_order_flip, rule str_order_trans)

subsection \<open>Searching\<close>

lemma strncmp_loop_ok:
  "i \<le> n \<Longrightarrow> n \<le> length m1 \<Longrightarrow> n \<le> length m2 \<Longrightarrow>
   \<exists>r. strncmp_loop m1 m2 i n = Some r \<and> (r = 0 \<longleftrightarrow> take (n - i) (drop i m1) = take (n - i) (drop i m2))"
proof (induction "n - i" arbitrary: i)
  case 0
  then show ?case by (subst strncmp_loop.simps) simp
next
  case (Suc k)
  then have i: "i < n" "k = n - Suc i" "n - i = Suc (n - Suc i)" by auto
  from Suc.hyps(1) [OF i(2)] Suc.prems i(1) obtain r where
    r: "strncmp_loop m1 m2 (Suc i) n = Some r"
      "r = 0 \<longleftrightarrow> take (n - Suc i) (drop (Suc i) m1) = take (n - Suc i) (drop (Suc i) m2)"
    by auto
  have "sint (m1 ! i) = sint (m2 ! i) \<longleftrightarrow> m1 ! i = m2 ! i"
    by (rule word_eq_iff_signed [symmetric])
  with i Suc.prems r show ?case
    by (subst strncmp_loop.simps)
      (auto simp: byte_at_def drop_nth [of i m1] drop_nth [of i m2])
qed

text \<open>Comparing a string with another on all of the other's characters tests for a prefix.\<close>

lemma strncmp_prefix:
  assumes t: "terminated m1" "terminated m2"
  shows "\<exists>r. strncmp (Ref m1) (Ref m2) (length (cstr m2)) = Some r \<and> (r = 0 \<longleftrightarrow> prefix (cstr m2) (cstr m1))"
proof (cases "length (cstr m2) \<le> length (cstr m1)")
  case True
  let ?n = "length (cstr m2)"
  have n: "?n \<le> length m1" "?n \<le> length m2"
    using True cstr_length [OF t(1)] cstr_length [OF t(2)] by simp_all
  from strncmp_loop_ok [of 0 ?n m1 m2] n obtain r where
    r: "strncmp_loop m1 m2 0 ?n = Some r" "r = 0 \<longleftrightarrow> take ?n m1 = cstr m2"
    by (auto simp: take_cstr)
  have "take ?n m1 = take ?n (cstr m1)"
    using take_cstr [of m1] True by (metis min_absorb1 take_take)
  then have pre: "take ?n m1 = cstr m2 \<longleftrightarrow> prefix (cstr m2) (cstr m1)"
    by (metis append_take_drop_id prefix_def append_eq_conv_conj)
  have "strncmp (Ref m1) (Ref m2) ?n = (if ?n = 0 then Some 0 else Some r)"
    using t True r(1) by (simp add: strncmp_def)
  with r(2) pre show ?thesis by (cases "?n = 0") auto
next
  case False
  then have "strncmp (Ref m1) (Ref m2) (length (cstr m2)) = Some (str_order (cstr m1) (cstr m2))"
    using t by (simp add: strncmp_def strcmp_ok)
  moreover have "\<not> prefix (cstr m2) (cstr m1)"
    using False by (auto dest: prefix_length_le)
  moreover have "cstr m1 \<noteq> cstr m2" using False by auto
  ultimately show ?thesis by simp
qed

fun first_match :: "bytes \<Rightarrow> bytes \<Rightarrow> nat option" where
  "first_match n [] = None"
| "first_match n (x # xs) = (if prefix n (x # xs) then Some 0 else map_option Suc (first_match n xs))"

lemma first_match_None: "first_match n s = None \<longleftrightarrow> (\<forall>i < length s. \<not> prefix n (drop i s))"
proof (induction s)
  case (Cons x xs)
  then show ?case by (auto simp: less_Suc_eq_0_disj)
qed simp

lemma first_match_Some:
  "first_match n s = Some i \<Longrightarrow> i < length s \<and> prefix n (drop i s) \<and> (\<forall>j < i. \<not> prefix n (drop j s))"
proof (induction s arbitrary: i)
  case (Cons x xs)
  then show ?case by (auto simp: less_Suc_eq_0_disj split: if_splits)
qed simp

lemma strstr_loop_ok:
  assumes "terminated nd"
  shows "terminated h \<Longrightarrow> strstr_loop h (Ref nd) (length (cstr nd)) =
    Some (case first_match (cstr nd) (cstr h) of None \<Rightarrow> NULL | Some i \<Rightarrow> Ref (drop i h))"
proof (induction h)
  case (Cons x xs)
  show ?case
  proof (cases "x = 0")
    case False
    then have "terminated xs" using Cons.prems by simp
    with strncmp_prefix [OF Cons.prems assms] Cons.IH False show ?thesis
      by (auto split: option.splits)
  qed simp
qed simp

subsection \<open>Splitting\<close>

fun pieces :: "u8 \<Rightarrow> bytes \<Rightarrow> bytes list" where
  "pieces token [] = [[]]"
| "pieces token (x # xs) =
     (if x = token then [] # pieces token xs else (x # hd (pieces token xs)) # tl (pieces token xs))"

text \<open>The pointers the loop stores after the first one.\<close>

fun piece_ptrs :: "u8 \<Rightarrow> bytes \<Rightarrow> bytes ref list" where
  "piece_ptrs token [] = []"
| "piece_ptrs token (x # xs) =
     (if x = 0 then []
      else if x = token then (if hd xs = 0 then NULL else Ref xs) # piece_ptrs token xs
      else piece_ptrs token xs)"

lemma pieces_not_Nil [simp]: "pieces token s \<noteq> []"
  by (cases s) auto

lemma count_tokens_ok:
  "terminated m \<Longrightarrow> count_tokens m token = Some (length (pieces token (cstr m)) - 1)"
proof (induction m)
  case (Cons x xs)
  then show ?case
    by (cases "x = 0") (auto simp: Suc_pred' [symmetric] simp del: length_0_conv)
qed simp

lemma length_piece_ptrs: "terminated m \<Longrightarrow> length (piece_ptrs token m) = length (pieces token (cstr m)) - 1"
  by (induction m) auto

lemma set_at_replicate:
  "set_at (xs @ replicate (Suc n) a) (length xs) b = Some ((xs @ [b]) @ replicate n a)"
  by (simp add: set_at_def list_update_append)

lemma strsplit_loop_ok:
  "terminated xs \<Longrightarrow> length result = Suc ri \<Longrightarrow> length lengths = li \<Longrightarrow>
   strsplit_loop token xs ri li len (result @ replicate (length (piece_ptrs token xs)) NULL)
     (lengths @ replicate (Suc (length (piece_ptrs token xs))) 0) =
   Some (result @ piece_ptrs token xs,
     lengths @ (len + length (hd (pieces token (cstr xs)))) # map length (tl (pieces token (cstr xs))))"
proof (induction xs arbitrary: ri li len result lengths)
  case (Cons x xs)
  let ?n = "length (piece_ptrs token xs)"
  show ?case
  proof (cases "x = 0")
    case True
    then show ?thesis using Cons.prems set_at_replicate [of lengths 0 0 len] by simp
  next
    case x: False
    then have xs: "terminated xs" using Cons.prems by simp
    then obtain y ys where y: "xs = y # ys" by (cases xs) auto
    show ?thesis
    proof (cases "x = token")
      case False
      then show ?thesis using Cons.IH [OF xs Cons.prems(2,3), of "Suc len"] x by simp
    next
      case True
      have len: "set_at (lengths @ replicate (Suc (Suc ?n)) 0) li len =
          Some ((lengths @ [len]) @ replicate (Suc ?n) 0)"
        using set_at_replicate [of lengths "Suc ?n" 0 len] Cons.prems(3) by simp
      have res: "set_at (result @ replicate (Suc ?n) NULL) (Suc ri) (Ref xs) =
          Some ((result @ [Ref xs]) @ replicate ?n NULL)"
        using set_at_replicate [of result ?n NULL "Ref xs"] Cons.prems(2) by simp
      show ?thesis
      proof (cases "y = 0")
        case True
        then show ?thesis using x \<open>x = token\<close> y len by (simp add: replicate_app_Cons_same)
      next
        case False
        have IH: "strsplit_loop token xs (Suc ri) (Suc li) 0 ((result @ [Ref xs]) @ replicate ?n NULL)
            ((lengths @ [len]) @ replicate (Suc ?n) 0) = Some ((result @ [Ref xs]) @ piece_ptrs token xs,
            (lengths @ [len]) @ (0 + length (hd (pieces token (cstr xs)))) # map length (tl (pieces token (cstr xs))))"
          using Cons.prems by (intro Cons.IH [OF xs]) simp_all
        have "strsplit_loop token (x # xs) ri li len (result @ replicate (Suc ?n) NULL)
            (lengths @ replicate (Suc (Suc ?n)) 0) =
            strsplit_loop token xs (Suc ri) (Suc li) 0 ((result @ [Ref xs]) @ replicate ?n NULL)
            ((lengths @ [len]) @ replicate (Suc ?n) 0)"
          using x \<open>x = token\<close> False len res
          by (simp only: strsplit_loop.simps y list.case if_False if_True simp_thms bind.bind_lunit)
        moreover have "piece_ptrs token (x # xs) = Ref xs # piece_ptrs token xs"
          "pieces token (cstr (x # xs)) = [] # pieces token (cstr xs)"
          using x \<open>x = token\<close> False y by simp_all
        ultimately show ?thesis
          using IH by (cases "pieces token (cstr xs)") (simp_all del: strsplit_loop.simps piece_ptrs.simps cstr_simps)
      qed
    qed
  qed
qed simp

text \<open>A stored pointer leads to its piece; only an empty last piece has a null pointer.\<close>

definition points_to :: "bytes ref \<Rightarrow> bytes \<Rightarrow> bool" where
  "points_to p piece \<longleftrightarrow> (case p of NULL \<Rightarrow> piece = [] | Ref m \<Rightarrow> take (length piece) m = piece)"

lemma hd_pieces_prefix: "prefix (hd (pieces token s)) s"
  by (induction s) auto

lemma piece_ptrs_ok:
  "terminated m \<Longrightarrow> list_all2 points_to (piece_ptrs token m) (tl (pieces token (cstr m)))"
proof (induction m)
  case (Cons x xs)
  show ?case
  proof (cases "x = 0 \<or> x \<noteq> token")
    case False
    then have xs: "terminated xs" using Cons.prems by auto
    have pre: "prefix (hd (pieces token (cstr xs))) xs"
      using hd_pieces_prefix [of token "cstr xs"] take_cstr [of xs] take_is_prefix prefix_order.trans by metis
    obtain q qs where q: "pieces token (cstr xs) = q # qs" by (cases "pieces token (cstr xs)") auto
    have "points_to (if hd xs = 0 then NULL else Ref xs) q"
    proof (cases "hd xs = 0")
      case True
      then have "cstr xs = []" using xs by (cases xs) auto
      with True q show ?thesis by (simp add: points_to_def)
    next
      case False
      with pre q show ?thesis by (auto simp: points_to_def prefix_def)
    qed
    with Cons.IH [OF xs] False q show ?thesis by simp
  qed (use Cons in auto)
qed simp

lemma strsplit_ok:
  assumes "terminated m"
  shows "strsplit True True (Ref m) token = Some (Ref (Ref m # piece_ptrs token m),
    Ref (map length (pieces token (cstr m))), length (pieces token (cstr m)))"
proof -
  let ?n = "length (piece_ptrs token m)"
  have n: "length (pieces token (cstr m)) = Suc ?n"
    using length_piece_ptrs [OF assms, of token] by simp
  have "strsplit_loop token m 0 0 0 ([Ref m] @ replicate ?n NULL) ([] @ replicate (Suc ?n) 0) =
      Some ([Ref m] @ piece_ptrs token m,
        [] @ (0 + length (hd (pieces token (cstr m)))) # map length (tl (pieces token (cstr m))))"
    using assms by (intro strsplit_loop_ok) simp_all
  moreover have "(replicate (Suc ?n) NULL)[0 := Ref m] = [Ref m] @ replicate ?n NULL" by simp
  ultimately show ?thesis
    using count_tokens_ok [OF assms, of token] n
    by (cases "pieces token (cstr m)") (simp_all add: strsplit_def)
qed

subsection \<open>Trimming and case\<close>

text \<open>The string without the white space at its end.\<close>

definition is_blank :: "u8 \<Rightarrow> bool" where
  "is_blank c \<longleftrightarrow> c = 10 \<or> c = 13 \<or> c = 9 \<or> c = 32"

definition trim_right :: "bytes \<Rightarrow> bytes" where
  "trim_right s = rev (dropWhile is_blank (rev s))"

lemma trim_right_snoc: "trim_right (s @ [c]) = (if is_blank c then trim_right s else s @ [c])"
  by (simp add: trim_right_def)

lemma length_trim_right: "length (trim_right s) \<le> length s"
  using length_dropWhile_le [of is_blank "rev s"] by (simp add: trim_right_def)

lemma trim_loop_ok:
  "\<exists>m'. trim_loop (s @ rest) (length s) = Some m' \<and>
     m' = trim_right s @ replicate (length s - length (trim_right s)) 0 @ rest"
proof (induction s arbitrary: rest rule: rev_induct)
  case (snoc c s)
  note le = length_trim_right [of s]
  show ?case
  proof (cases "is_blank c")
    case True
    then have "trim_loop ((s @ [c]) @ rest) (length (s @ [c])) = trim_loop (s @ 0 # rest) (length s)"
      by (auto simp: is_blank_def byte_at_def set_byte_def nth_append list_update_append)
    with snoc [of "0 # rest"] True le show ?thesis
      by (simp add: trim_right_snoc Suc_diff_le replicate_app_Cons_same)
  next
    case False
    then show ?thesis
      by (simp add: trim_right_snoc) (auto simp: is_blank_def byte_at_def nth_append)
  qed
qed (simp add: trim_right_def)

lemma trim_right_chars: "c \<in> set (trim_right s) \<Longrightarrow> c \<in> set s"
  by (auto simp: trim_right_def dest: set_dropWhileD)

subsection \<open>Properties\<close>

text \<open>
  C26. Comparing two terminated strings is the lexicographic order of their bytes, a proper
  prefix being smaller, although the code compares machine words first and the lengths last.
\<close>

theorem strcmp_spec:
  assumes "terminated m1" "terminated m2"
  shows "strcmp (Ref m1) (Ref m2) = Some (str_order (cstr m1) (cstr m2))"
  by (rule strcmp_ok [OF assms])

theorem strcmp_spec_witness:
  "strcmp (Ref [97, 98, 0]) (Ref [97, 98, 99, 0, 7]) = Some (- 1)"
  using strcmp_spec [of "[97, 98, 0]" "[97, 98, 99, 0, 7]"] by simp

text \<open>
  C27. Searching a string in another one, not both empty, returns the first place where it occurs,
  and null exactly when it is no part of the other.
\<close>

theorem strstr_spec:
  assumes "terminated h" "terminated nd" "cstr h \<noteq> [] \<or> cstr nd \<noteq> []"
  shows "\<exists>r. strstr (Ref h) (Ref nd) = Some r \<and>
    (case r of NULL \<Rightarrow> \<not> sublist (cstr nd) (cstr h)
     | Ref p \<Rightarrow> \<exists>i \<le> length (cstr h). p = drop i h \<and> prefix (cstr nd) (drop i (cstr h)) \<and>
         (\<forall>j < i. \<not> prefix (cstr nd) (drop j (cstr h))))"
proof (cases "first_match (cstr nd) (cstr h)")
  case None
  then have "strstr (Ref h) (Ref nd) = Some NULL"
    using assms strstr_loop_ok [OF assms(2,1)] by (simp add: strstr_def)
  moreover have "\<not> sublist (cstr nd) (cstr h)"
  proof
    assume "sublist (cstr nd) (cstr h)"
    then obtain ps ss where h: "cstr h = ps @ cstr nd @ ss" by (auto simp: sublist_def)
    have none: "\<not> prefix (cstr nd) (drop i (cstr h))" if "i < length (cstr h)" for i
      using first_match_None [THEN iffD1, OF None] that by blast
    show False
    proof (cases "cstr nd")
      case Nil
      then show ?thesis using none [of 0] assms(3) by simp
    next
      case (Cons c cs)
      then show ?thesis using none [of "length ps"] h by simp
    qed
  qed
  ultimately show ?thesis by simp
next
  case (Some i)
  then show ?thesis
    using assms strstr_loop_ok [OF assms(2,1)] first_match_Some [OF Some] by (auto simp: strstr_def intro: less_imp_le)
qed

theorem strstr_spec_witness:
  "\<exists>p. strstr (Ref [97, 99, 98, 0]) (Ref [99, 98, 0]) = Some (Ref p)"
proof -
  let ?h = "[97, 99, 98, 0] :: bytes" and ?n = "[99, 98, 0] :: bytes"
  have t: "terminated ?h" "terminated ?n" "cstr ?h \<noteq> [] \<or> cstr ?n \<noteq> []" by simp_all
  from strstr_spec [OF t] obtain r where r: "strstr (Ref ?h) (Ref ?n) = Some r"
    "case r of NULL \<Rightarrow> \<not> sublist (cstr ?n) (cstr ?h)
     | Ref p \<Rightarrow> \<exists>i \<le> length (cstr ?h). p = drop i ?h \<and> prefix (cstr ?n) (drop i (cstr ?h)) \<and>
         (\<forall>j < i. \<not> prefix (cstr ?n) (drop j (cstr ?h)))" by blast
  have "cstr ?h = [97] @ cstr ?n @ []" by simp
  then have "sublist (cstr ?n) (cstr ?h)" unfolding sublist_def by blast
  with r show ?thesis by (cases r) (simp_all only: ref.case simp_thms, blast)
qed

text \<open>
  C28. Splitting a string at a character returns as many pieces as there are: the lengths are
  those of the pieces between the separators, the first pointer is the string itself, and
  every other one leads to its piece or is null for an empty piece.
\<close>

theorem strsplit_spec:
  assumes "terminated m"
  shows "\<exists>ps. strsplit True True (Ref m) token = Some (Ref (Ref m # ps),
      Ref (map length (pieces token (cstr m))), length (pieces token (cstr m))) \<and>
    list_all2 points_to ps (tl (pieces token (cstr m)))"
  using strsplit_ok [OF assms] piece_ptrs_ok [OF assms] by blast

theorem strsplit_spec_witness:
  "\<exists>ps. strsplit True True (Ref [97, 44, 98, 99, 0]) 44 =
      Some (Ref (Ref [97, 44, 98, 99, 0] # ps), Ref [1, 2], 2) \<and> list_all2 points_to ps [[98, 99]]"
proof -
  have len: "map length [[97 :: u8], [98, 99]] = [1, 2]" "length [[97 :: u8], [98, 99]] = 2" by simp_all
  have "pieces 44 (cstr [97, 44, 98, 99, 0]) = [[97], [98, 99]]" by simp
  with strsplit_spec [of "[97, 44, 98, 99, 0]" 44] len show ?thesis by (simp only:) simp
qed

text \<open>
  C30. Trimming removes exactly the blanks, tabs and line ends at the end of a string and
  leaves its terminator and what follows it alone.
\<close>

theorem strtrim_right_spec:
  assumes "terminated m"
  shows "\<exists>m'. strtrim_right (Ref m) = Some (Ref m') \<and> cstr m' = trim_right (cstr m) \<and> length m' = length m"
proof -
  let ?s = "cstr m" and ?rest = "drop (length (cstr m)) m"
  have split: "m = ?s @ ?rest" using take_cstr [of m] append_take_drop_id [of "length ?s" m] by simp
  obtain m' where m': "trim_loop m (length ?s) = Some m'"
    "m' = trim_right ?s @ replicate (length ?s - length (trim_right ?s)) 0 @ ?rest"
    using trim_loop_ok [of ?s ?rest] split by auto
  have "hd ?rest = 0" "?rest \<noteq> []"
    using cstr_end [OF assms] cstr_length [OF assms] by (simp_all add: hd_drop_conv_nth)
  then obtain r where r: "?rest = 0 # r" by (cases ?rest) auto
  have nz: "\<forall>c \<in> set (trim_right ?s). c \<noteq> 0" using trim_right_chars cstr_nonzero by blast
  have "cstr m' = trim_right ?s"
    using m'(2) nz r by (cases "length ?s - length (trim_right ?s)") simp_all
  moreover have "length m' = length m"
    using m'(2) cstr_length [OF assms] length_trim_right [of ?s] by simp
  ultimately show ?thesis using m'(1) assms by (simp add: strtrim_right_def)
qed

theorem strtrim_right_spec_witness:
  "\<exists>m'. strtrim_right (Ref [97, 32, 98, 10, 32, 0]) = Some (Ref m') \<and> cstr m' = [97, 32, 98]"
  using strtrim_right_spec [of "[97, 32, 98, 10, 32, 0]"] by (auto simp: trim_right_def is_blank_def)

text \<open>
  The two string comparisons order characters differently: one compares bytes, the other
  signed characters.
\<close>

theorem strncmp_disagrees_strcmp:
  "strcmp (Ref [0xE9, 0]) (Ref [0x7A, 0]) = Some 1 \<and> strncmp (Ref [0xE9, 0]) (Ref [0x7A, 0]) 1 = Some (- 1)"
  by code_simp

end
