(* ===== verification/Numbers_Props.thy ===== *)
theory Numbers_Props
  imports Strings_Props
begin

text \<open>
  The round trips between numbers and their text in a base from 2 to 36 and between UTF-16
  and UTF-8, with the bounds of the arrays the code uses.
\<close>

subsection \<open>Powers\<close>

lemma power_loop_ok: "0 \<le> p \<Longrightarrow> power_loop ret base p = ret * base ^ nat p"
proof (induction ret base p rule: power_loop.induct)
  case (1 ret base p)
  show ?case
  proof (cases "p = 0")
    case True
    then show ?thesis by (subst power_loop.simps) simp
  next
    case False
    then have td: "trunc_div p 2 = p div 2" "0 \<le> p div 2"
      using "1.prems" by (auto simp: trunc_div_def sgn_if)
    have n: "nat p = 2 * nat (p div 2) + (if odd p then 1 else 0)"
      using "1.prems" by (auto elim!: evenE oddE simp: nat_add_distrib nat_mult_distrib)
    have "power_loop ret base p =
        (if odd p then ret * base else ret) * (base * base) ^ nat (p div 2)"
      using 1 False td by (subst power_loop.simps) simp
    also have "\<dots> = ret * base ^ nat p"
      unfolding n power_add power_mult power2_eq_square by (simp add: mult.assoc mult.left_commute)
    finally show ?thesis .
  qed
qed

lemma sint_of_nat64: "k < 2 ^ 63 \<Longrightarrow> sint (of_nat k :: u64) = int k"
  using sint_nonneg64 [of "of_nat k"] by simp

lemma power_number_ok: "k < 2 ^ 63 \<Longrightarrow> power_number base (of_nat k) = base ^ k"
proof -
  assume k: "k < 2 ^ 63"
  then have "sint (of_nat k :: u64) = int k" by (rule sint_of_nat64)
  then show ?thesis
    using k power_loop_ok [of "int k" 1 base]
    by (cases "k = 0") (auto simp: power_number_def)
qed

subsection \<open>Digits\<close>

text \<open>The digits of a number, the first one first.\<close>

function hex_digits :: "nat \<Rightarrow> nat \<Rightarrow> bytes" where
  "hex_digits b n =
     (if n = 0 \<or> b < 2 then [] else hex_digits b (n div b) @ [DIGIT_TO_HEX (of_nat (n mod b))])"
  by pat_completeness auto
termination by (relation "measure snd") auto

declare hex_digits.simps [simp del]

lemma hex_digits_0 [simp]: "hex_digits b 0 = []"
  by (simp add: hex_digits.simps)

lemma hex_digits_step:
  "n \<noteq> 0 \<Longrightarrow> 2 \<le> b \<Longrightarrow> hex_digits b n = hex_digits b (n div b) @ [DIGIT_TO_HEX (of_nat (n mod b))]"
  by (subst hex_digits.simps) simp

lemma length_hex_digits: "2 \<le> b \<Longrightarrow> n < b ^ k \<Longrightarrow> length (hex_digits b n) \<le> k"
proof (induction k arbitrary: n)
  case (Suc k)
  show ?case
  proof (cases "n = 0")
    case False
    have "n div b < b ^ k" using Suc.prems by (simp add: less_mult_imp_div_less mult.commute)
    with Suc False show ?thesis by (simp add: hex_digits_step)
  qed simp
qed simp

lemma length_hex_digits_power: "2 \<le> b \<Longrightarrow> length (hex_digits b (b ^ k)) = Suc k"
proof (induction k)
  case 0
  then show ?case by (simp add: hex_digits_step)
next
  case (Suc k)
  then show ?case by (simp add: hex_digits_step)
qed

text \<open>What each of the 36 digits looks like and what it is read as.\<close>

definition digit_ok :: "nat \<Rightarrow> bool" where
  "digit_ok d \<longleftrightarrow> (let c = DIGIT_TO_HEX (of_nat d) in
     unsigned_digit c = of_nat d \<and> signed_digit c = of_nat d \<and> c \<noteq> 0 \<and> c \<noteq> 43 \<and> c \<noteq> 45 \<and>
     (if int d < 10 then of_int (48 + int d) else of_int (55 + int d)) = c)"

lemma digits_ok: "d < 36 \<Longrightarrow> digit_ok d"
proof -
  have "list_all digit_ok [0..<36]" by code_simp
  then show "d < 36 \<Longrightarrow> digit_ok d" by (simp add: list_all_iff)
qed

lemma hex_digits_chars:
  assumes b: "2 \<le> b" "b \<le> 36"
  shows "c \<in> set (hex_digits b n) \<Longrightarrow> c \<noteq> 0 \<and> c \<noteq> 43 \<and> c \<noteq> 45"
proof (induction n rule: less_induct)
  case (less n)
  show ?case
  proof (cases "n = 0")
    case False
    have "n mod b < 36" using b mod_less_divisor [of b n] by linarith
    moreover have "n div b < n" using False b by simp
    ultimately show ?thesis
      using less.IH [of "n div b"] less.prems False b digits_ok [of "n mod b"]
      by (auto simp: hex_digits_step digit_ok_def Let_def)
  qed (use less in simp)
qed

text \<open>The value of digits in a base, as the parsers add it up.\<close>

definition digits_value :: "(u8 \<Rightarrow> u64) \<Rightarrow> u64 \<Rightarrow> bytes \<Rightarrow> u64" where
  "digits_value digit base ds = foldl (\<lambda>v c. v * base + digit c) 0 ds"

lemma digits_value_simps [simp]:
  "digits_value digit base [] = 0"
  "digits_value digit base (ds @ [c]) = digits_value digit base ds * base + digit c"
  by (simp_all add: digits_value_def)

lemma hex_digits_value:
  assumes b: "2 \<le> b" "b \<le> 36" and digit: "digit = unsigned_digit \<or> digit = signed_digit"
  shows "digits_value digit (of_nat b) (hex_digits b n) = of_nat n"
proof (induction n rule: less_induct)
  case (less n)
  show ?case
  proof (cases "n = 0")
    case False
    have "n mod b < 36" using b mod_less_divisor [of b n] by linarith
    then have d: "digit (DIGIT_TO_HEX (of_nat (n mod b))) = of_nat (n mod b)"
      using digits_ok [of "n mod b"] digit by (auto simp: digit_ok_def Let_def)
    have "of_nat (n div b) * of_nat b + of_nat (n mod b) = (of_nat n :: u64)"
      by (metis div_mult_mod_eq of_nat_add of_nat_mult)
    with False b less [of "n div b"] d show ?thesis
      by (simp add: hex_digits_step)
  qed simp
qed

lemma ato_loop_ok:
  assumes l: "l \<le> length source" "l < 2 ^ 63"
  shows "1 \<le> i \<Longrightarrow> i \<le> Suc l \<Longrightarrow> ato_loop digit source base l i ret =
    Some (ret + base ^ (i - 1) * digits_value digit base (take (Suc l - i) source))"
proof (induction "Suc l - i" arbitrary: i ret)
  case 0
  then show ?case by (subst ato_loop.simps) simp
next
  case (Suc k)
  then obtain j where j: "i = Suc j" "j < l" "k = Suc l - Suc i" "Suc l - i = Suc (l - i)"
    by (cases i) auto
  have tk: "take (Suc (l - i)) source = take (l - i) source @ [source ! (l - i)]"
    using j l by (intro take_Suc_conv_app_nth) simp
  have pow: "power_number base (of_nat j) = base ^ j"
    using j l by (intro power_number_ok) simp
  have "l - i < length source" using j l by simp
  with Suc.hyps(1) [OF j(3)] j show ?case
    by (subst ato_loop.simps) (simp add: byte_at_def pow tk [unfolded j(1)] algebra_simps)
qed

lemma atou_base_ok:
  assumes "terminated m" "length (cstr m) < 2 ^ 63"
  shows "atou_base (Ref m) base = Some (digits_value unsigned_digit base (cstr m))"
  using ato_loop_ok [of "length (cstr m)" m 1 unsigned_digit base 0] cstr_length [OF assms(1)] assms
  by (simp add: atou_base_def take_cstr)

subsection \<open>Unsigned numbers\<close>

lemma unat_div_mod:
  "unat (x div y) = unat x div unat y" "x mod y = of_nat (unat x mod unat y)" for x y :: u64
  by (simp_all add: unat_div flip: unat_mod)

lemma digit_count_ok:
  assumes "2 \<le> unat base"
  shows "digit_count n base len = Some (len + length (hex_digits (unat base) (unat n)))"
proof (induction "unat n" arbitrary: n len rule: less_induct)
  case less
  show ?case
  proof (cases "n = 0")
    case True
    then show ?thesis by (subst digit_count.simps) simp
  next
    case False
    then have "unat n \<noteq> 0" by (simp add: unat_eq_zero)
    then have "unat (n div base) < unat n" using assms by (simp add: unat_div_mod)
    with less [of "n div base" "Suc len"] False \<open>unat n \<noteq> 0\<close> assms show ?thesis
      by (subst digit_count.simps) (simp add: hex_digits_step unat_div_mod)
  qed
qed

lemma write_digits_ok:
  assumes "2 \<le> unat base"
  shows "length (hex_digits (unat base) (unat n)) + i = Suc len \<Longrightarrow> 1 \<le> i \<Longrightarrow> len \<le> length buffer \<Longrightarrow>
    write_digits buffer n base len i = Some (hex_digits (unat base) (unat n) @
      drop (length (hex_digits (unat base) (unat n))) buffer)"
proof (induction "unat n" arbitrary: n i buffer rule: less_induct)
  case less
  show ?case
  proof (cases "n = 0")
    case True
    then show ?thesis by (subst write_digits.simps) simp
  next
    case False
    let ?b = "unat base" and ?c = "DIGIT_TO_HEX (n mod base)"
    let ?ds = "hex_digits ?b (unat (n div base))"
    have n0: "unat n \<noteq> 0" using False by (simp add: unat_eq_zero)
    then have lt: "unat (n div base) < unat n" using assms by (simp add: unat_div_mod)
    have ds: "hex_digits ?b (unat n) = ?ds @ [?c]"
      using n0 assms by (simp add: hex_digits_step unat_div_mod)
    have pos: "len - i = length ?ds" "length ?ds < length buffer" using less.prems ds by auto
    have "write_digits (buffer[length ?ds := ?c]) (n div base) base len (Suc i) =
        Some (?ds @ drop (length ?ds) (buffer[length ?ds := ?c]))"
      using less.prems ds by (intro less.hyps [OF lt]) auto
    then show ?thesis
      using False pos unfolding ds
      by (subst write_digits.simps) (simp add: set_byte_def drop_nth [of "length ?ds" "buffer[length ?ds := ?c]"])
  qed
qed

text \<open>The text of a number: its digits, a single zero for zero.\<close>

definition number_text :: "nat \<Rightarrow> nat \<Rightarrow> bytes" where
  "number_text b n = (if n = 0 then [48] else hex_digits b n)"

lemma uto_base_with_buffer_ok:
  assumes base: "2 \<le> unat base" "unat base \<le> 36" and len: "length (number_text (unat base) (unat n)) < length buf"
  shows "uto_base_with_buffer (Ref buf) n base = Some (Ref (number_text (unat base) (unat n) @ 0 #
    drop (Suc (length (number_text (unat base) (unat n)))) buf), 0)"
proof -
  have s: "\<not> (sint base < 2 \<or> sint base > 36)"
    using base sint_nonneg64 [of base] by linarith
  show ?thesis
  proof (cases "n = 0")
    case True
    then obtain x y zs where "buf = x # y # zs"
      using len by (cases buf; cases "tl buf") (auto simp: number_text_def)
    with True base s show ?thesis
      by (simp add: uto_base_with_buffer_def number_text_def set_byte_def)
  next
    case False
    let ?ds = "hex_digits (unat base) (unat n)"
    have nt: "number_text (unat base) (unat n) = ?ds" using False by (simp add: number_text_def unat_eq_zero)
    have l: "length ?ds < length buf" using len nt by simp
    have "write_digits buf n base (length ?ds) 1 = Some (?ds @ drop (length ?ds) buf)"
      using l by (intro write_digits_ok [OF base(1)]) simp_all
    then show ?thesis
      using False base s digit_count_ok [OF base(1), of n 0] l
      by (simp add: uto_base_with_buffer_def nt set_byte_def list_update_append Cons_nth_drop_Suc [symmetric])
  qed
qed

lemma number_text_chars:
  "2 \<le> b \<Longrightarrow> b \<le> 36 \<Longrightarrow> c \<in> set (number_text b n) \<Longrightarrow> c \<noteq> 0 \<and> c \<noteq> 43 \<and> c \<noteq> 45"
  using hex_digits_chars [of b c n] by (auto simp: number_text_def split: if_splits)

lemma number_text_value:
  assumes "2 \<le> b" "b \<le> 36" "digit = unsigned_digit \<or> digit = signed_digit"
  shows "digits_value digit (of_nat b) (number_text b n) = of_nat n"
proof (cases "n = 0")
  case True
  have "digit 48 = 0" using assms(3) by (auto simp: unsigned_digit_def signed_digit_def)
  with True show ?thesis by (simp add: number_text_def digits_value_def)
qed (simp add: number_text_def hex_digits_value [OF assms])

lemma length_number_text: "2 \<le> b \<Longrightarrow> n < b ^ k \<Longrightarrow> 0 < k \<Longrightarrow> length (number_text b n) \<le> k"
  using length_hex_digits [of b n k] by (simp add: number_text_def)

lemma strcopy_exact:
  assumes "\<forall>c \<in> set s. c \<noteq> 0"
  shows "strcopy (Ref (s @ 0 # m)) (Ref (replicate (length s + 1) 0)) = Some (Ref (s @ [0]), 0)"
  using assms by (simp add: strcopy_def memory_memcopy_ok)

lemma uto_base_ok:
  assumes base: "2 \<le> unat base" "unat base \<le> 36" and n: "unat n < unat base ^ 63"
  shows "uto_base True n base = Some (Ref (number_text (unat base) (unat n) @ [0]))"
proof -
  let ?t = "number_text (unat base) (unat n)"
  have len: "length ?t \<le> 63" using length_number_text [OF base(1) n] by simp
  have nz: "\<forall>c \<in> set ?t. c \<noteq> 0" using number_text_chars [OF base] by blast
  have "uto_base_with_buffer (Ref (replicate 64 0)) n base =
      Some (Ref (?t @ 0 # drop (Suc (length ?t)) (replicate 64 0)), 0)"
    using len by (intro uto_base_with_buffer_ok [OF base]) simp
  with nz strcopy_exact [OF nz, of "drop (Suc (length ?t)) (replicate 64 0)"] show ?thesis
    by (simp add: uto_base_def del: drop_replicate)
qed

subsection \<open>Signed numbers\<close>

lemma trunc_nat: "trunc_div (int n) (int b) = int (n div b)" "trunc_mod (int n) (int b) = int (n mod b)"
proof -
  show td: "trunc_div (int n) (int b) = int (n div b)"
    by (simp add: trunc_div_def sgn_if zdiv_int)
  show "trunc_mod (int n) (int b) = int (n mod b)"
    unfolding trunc_mod_def td by (simp add: minus_div_mult_eq_mod [symmetric] zdiv_int)
qed

lemma signed_digit_count_ok:
  assumes "2 \<le> b"
  shows "signed_digit_count (int n) (int b) len = Some (len + length (hex_digits b n))"
proof (induction n arbitrary: len rule: less_induct)
  case (less n)
  show ?case
  proof (cases "n = 0")
    case True
    then show ?thesis by (subst signed_digit_count.simps) simp
  next
    case False
    with less [of "n div b" "Suc len"] assms show ?thesis
      by (subst signed_digit_count.simps) (simp add: hex_digits_step trunc_nat)
  qed
qed

lemma write_signed_digits_ok:
  assumes b: "2 \<le> b" "b \<le> 36"
  shows "length (hex_digits b n) + i = Suc len \<Longrightarrow> 1 \<le> i \<Longrightarrow> len \<le> length rest \<Longrightarrow>
    write_signed_digits (pre @ rest) (int n) (int b) len i (length pre) =
      Some (pre @ hex_digits b n @ drop (length (hex_digits b n)) rest)"
proof (induction n arbitrary: i rest rule: less_induct)
  case (less n)
  show ?case
  proof (cases "n = 0")
    case True
    then show ?thesis by (subst write_signed_digits.simps) simp
  next
    case False
    let ?c = "DIGIT_TO_HEX (of_nat (n mod b))" and ?ds = "hex_digits b (n div b)"
    have "n mod b < 36" using b mod_less_divisor [of b n] by linarith
    then have c: "(if int (n mod b) < 10 then of_int (48 + int (n mod b)) else of_int (55 + int (n mod b))) = ?c"
      using digits_ok [of "n mod b"] by (simp only: digit_ok_def Let_def)
    have ds: "hex_digits b n = ?ds @ [?c]" using False b by (simp add: hex_digits_step)
    have pos: "len - i = length ?ds" "length ?ds < length rest" using less.prems ds by auto
    have "n div b < n" using False b by simp
    then have IH: "write_signed_digits (pre @ rest[length ?ds := ?c]) (int (n div b)) (int b) len (Suc i) (length pre) =
        Some (pre @ ?ds @ drop (length ?ds) (rest[length ?ds := ?c]))"
      using less.prems ds by (intro less.IH) auto
    have st: "set_byte (pre @ rest) (len - i + length pre) ?c = Some (pre @ rest[length ?ds := ?c])"
      using pos by (simp add: set_byte_def list_update_append)
    show ?thesis
      using False pos IH st unfolding ds
      by (subst write_signed_digits.simps) (simp add: Let_def trunc_nat c [simplified]
          drop_nth [of "length ?ds" "rest[length ?ds := ?c]"])
  qed
qed

text \<open>The text of a signed number.\<close>

definition signed_text :: "nat \<Rightarrow> int \<Rightarrow> bytes" where
  "signed_text b n = (if n < 0 then [45] else []) @ number_text b (nat \<bar>n\<bar>)"

lemma sint_minus64: "sint (n :: u64) \<noteq> - (2 ^ 63) \<Longrightarrow> sint (- n) = - sint n"
  using sint_greater_eq [of n] sint_less [of n]
  by (simp add: sint_word_ariths signed_take_bit_int_eq_self)

lemma ito_base_with_buffer_ok:
  assumes base: "2 \<le> unat base" "unat base \<le> 36" and n: "sint n \<noteq> - (2 ^ 63)"
    and len: "length (signed_text (unat base) (sint n)) < length buf"
  shows "ito_base_with_buffer (Ref buf) n base = Some (Ref (signed_text (unat base) (sint n) @ 0 #
    drop (Suc (length (signed_text (unat base) (sint n)))) buf), 0)"
proof -
  have s: "\<not> (sint base < 2 \<or> sint base > 36)" "sint base = int (unat base)"
    using base sint_nonneg64 [of base] by linarith+
  show ?thesis
  proof (cases "n = 0")
    case True
    then obtain x y zs where "buf = x # y # zs"
      using len by (cases buf; cases "tl buf") (auto simp: number_text_def signed_text_def)
    with True s(1) show ?thesis
      by (simp add: ito_base_with_buffer_def number_text_def signed_text_def set_byte_def)
  next
    case False
    let ?m = "nat \<bar>sint n\<bar>" and ?b = "unat base"
    let ?ds = "hex_digits ?b ?m" and ?pre = "(if sint n < 0 then [45] else []) :: bytes"
    let ?rest = "drop (length ?pre) buf"
    have m: "?m \<noteq> 0" using False word_eq_iff_signed [where 'a = int, of n 0] by simp
    have nt: "signed_text ?b (sint n) = ?pre @ ?ds" using m by (simp add: signed_text_def number_text_def)
    have l: "length ?ds < length ?rest" using len nt by auto
    have num: "(if sint n < 0 then sint (- n) else sint n) = int ?m" using sint_minus64 [OF n] by simp
    have pre: "(if sint n < 0 then set_byte buf 0 45 else Some buf) = Some (?pre @ ?rest)"
      using l by (cases buf) (auto simp: set_byte_def)
    have "write_signed_digits (?pre @ ?rest) (int ?m) (int ?b) (length ?ds) 1 (length ?pre) =
        Some (?pre @ ?ds @ drop (length ?ds) ?rest)"
      using l by (intro write_signed_digits_ok [OF base]) simp_all
    moreover have "(if sint n < 0 then 1 else 0) = length ?pre" by simp
    moreover have "signed_digit_count (int ?m) (int ?b) 0 = Some (length ?ds)"
      using signed_digit_count_ok [OF base(1), of ?m 0] by simp
    moreover have "set_byte (?pre @ ?ds @ drop (length ?ds) ?rest) (length ?ds + length ?pre) 0 =
        Some ((?pre @ ?ds) @ 0 # drop (Suc (length (?pre @ ?ds))) buf)"
      using l by (simp add: set_byte_def list_update_append Cons_nth_drop_Suc [symmetric] add.commute)
    ultimately show ?thesis
      using False s(1) unfolding ito_base_with_buffer_def nt
      by (simp only: ref.case if_False num pre s(2) Let_def bind.bind_lunit)
  qed
qed

lemma ito_base_ok:
  assumes base: "2 \<le> unat base" "unat base \<le> 36" and n: "sint n \<noteq> - (2 ^ 63)"
    and len: "length (signed_text (unat base) (sint n)) \<le> 63"
  shows "ito_base True n base = Some (Ref (signed_text (unat base) (sint n) @ [0]))"
proof -
  let ?t = "signed_text (unat base) (sint n)"
  have nz: "\<forall>c \<in> set ?t. c \<noteq> 0" using number_text_chars [OF base] by (auto simp: signed_text_def)
  have "ito_base_with_buffer (Ref (replicate 64 0)) n base =
      Some (Ref (?t @ 0 # drop (Suc (length ?t)) (replicate 64 0)), 0)"
    using len by (intro ito_base_with_buffer_ok [OF base n]) simp
  with nz strcopy_exact [OF nz, of "drop (Suc (length ?t)) (replicate 64 0)"] show ?thesis
    by (simp add: ito_base_def del: drop_replicate)
qed

lemma number_text_Cons: "2 \<le> b \<Longrightarrow> \<exists>c cs. number_text b n = c # cs"
proof -
  assume "2 \<le> b"
  then have "number_text b n \<noteq> []" by (auto simp: number_text_def hex_digits_step)
  then show ?thesis by (cases "number_text b n") auto
qed

lemma ato_text:
  assumes b: "2 \<le> b" "b \<le> 36" and len: "length (number_text b k) < 2 ^ 63"
  shows "Option.bind (strlen (Ref (number_text b k @ [0])))
      (\<lambda>l. ato_loop signed_digit (number_text b k @ [0]) (of_nat b) l 1 0) = Some (of_nat k)"
proof -
  let ?t = "number_text b k"
  have "\<forall>c \<in> set ?t. c \<noteq> 0" using number_text_chars [OF b] by blast
  then have "strlen (Ref (?t @ [0])) = Some (length ?t)" by simp
  moreover have "ato_loop signed_digit (?t @ [0]) (of_nat b) (length ?t) 1 0 = Some (of_nat k)"
    using ato_loop_ok [of "length ?t" "?t @ [0]" 1 signed_digit "of_nat b" 0] len
      number_text_value [OF b, of signed_digit k] by simp
  ultimately show ?thesis by simp
qed

lemma ato_base_ok:
  assumes base: "2 \<le> unat base" "unat base \<le> 36"
    and len: "length (signed_text (unat base) (sint n)) \<le> 63"
  shows "ato_base (Ref (signed_text (unat base) (sint n) @ [0])) base = Some n"
proof -
  let ?k = "nat \<bar>sint n\<bar>" and ?b = "unat base"
  obtain c cs where t: "number_text ?b ?k = c # cs" using number_text_Cons [OF base(1)] by blast
  then have c: "c \<noteq> 43" "c \<noteq> 45" using number_text_chars [OF base, of c ?k] by auto
  have lt: "length (number_text ?b ?k) < 2 ^ 63" using len by (simp add: signed_text_def split: if_splits)
  have "of_nat ?b = base" by simp
  note r = ato_text [OF base lt, unfolded this]
  show ?thesis
  proof (cases "sint n < 0")
    case True
    have "- (of_nat ?k :: u64) = of_int (sint n)" using True by simp
    then have "- (of_nat ?k :: u64) = n" by simp
    with True r show ?thesis
      by (simp add: ato_base_def signed_text_def byte_at_def Option.bind_eq_Some_conv) 
  next
    case False
    then have "(of_nat ?k :: u64) = of_int (sint n)" by simp
    then have k: "(of_nat ?k :: u64) = n" by simp
    with False r t c show ?thesis
      by (simp add: ato_base_def signed_text_def byte_at_def Option.bind_eq_Some_conv)
  qed
qed

subsection \<open>UTF-16 and UTF-8\<close>

lemma put_bytes_ok:
  "j + length bs \<le> length dst \<Longrightarrow> put_bytes dst j bs = Some (take j dst @ bs @ drop (j + length bs) dst)"
proof (induction bs arbitrary: j dst)
  case (Cons b bs)
  then show ?case
    by (simp add: set_byte_def take_Suc_conv_app_nth)
qed simp

lemma encode_loop_ok:
  assumes "\<forall>c \<in> set s. c \<noteq> 0"
  shows "length (concat (map enc s)) + j \<le> length dst \<Longrightarrow>
    encode_loop enc (s @ 0 # r) dst j = Some (take j dst @ concat (map enc s) @
      drop (j + length (concat (map enc s))) dst)"
  using assms
proof (induction s arbitrary: j dst)
  case (Cons c s)
  let ?d = "take j dst @ enc c @ drop (j + length (enc c)) dst"
  have "put_bytes dst j (enc c) = Some ?d" using Cons.prems by (intro put_bytes_ok) simp
  moreover have "encode_loop enc (s @ 0 # r) ?d (j + length (enc c)) =
      Some (take (j + length (enc c)) ?d @ concat (map enc s) @
        drop (j + length (enc c) + length (concat (map enc s))) ?d)"
    using Cons.prems by (intro Cons.IH) auto
  ultimately show ?case
    using Cons.prems by (simp add: add.assoc add.commute add.left_commute)
qed simp

lemma encode16_length: "length (encode16 c) \<le> 3" "encode16 c \<noteq> []"
  by (simp_all add: encode16_def)

lemma wide_size_ok: "\<forall>c \<in> set s. c \<noteq> 0 \<Longrightarrow> wide_size (s @ 0 # r) = Some (length s)"
  by (induction s) auto

lemma length_concat_encode16: "length (concat (map encode16 s)) \<le> 3 * length s"
proof (induction s)
  case (Cons c s)
  then show ?case using encode16_length(1) [of c] by simp
qed simp

lemma upto16: "[0..<16] = [0, 1, 2, 3] @ map ((+) 4) ([0, 1, 2, 3] @ map ((+) 4) ([0, 1, 2, 3] @ map ((+) 4) [0, 1, 2, 3 :: nat]))"
  by code_simp

lemma u16_eqI:
  fixes a b :: u16
  assumes "list_all (\<lambda>n. bit a n = bit b n)
    ([0, 1, 2, 3] @ map ((+) 4) ([0, 1, 2, 3] @ map ((+) 4) ([0, 1, 2, 3] @ map ((+) 4) [0, 1, 2, 3])))"
  shows "a = b"
  using assms unfolding upto16 [symmetric] list_all_iff by (intro bit_word_eqI) simp

lemma masks:
  "(0x3F :: 'a::len word) = mask 6" "(0xF :: 'a::len word) = mask 4" "(0x1F :: 'a::len word) = mask 5"
  "(0x7F :: 'a::len word) = mask 7"
  by (simp_all add: mask_numeral)

lemma push6_or: "push_bit 6 x + (y AND 0x3F) = push_bit 6 x OR (y AND 0x3F)" for x y :: u32
  unfolding masks by (rule disjunctive_add) (auto simp: bit_simps)

lemma bit_small:
  fixes c :: u16
  shows "c < 0x800 \<Longrightarrow> 11 \<le> n \<Longrightarrow> \<not> bit c n" "c < 0x80 \<Longrightarrow> 7 \<le> n \<Longrightarrow> \<not> bit c n"
proof -
  have "take_bit 11 c = c" if "c < 0x800"
    using that by (simp add: take_bit_eq_mod word_less_nat_alt word_unat_eq_iff unat_mod)
  then show "c < 0x800 \<Longrightarrow> 11 \<le> n \<Longrightarrow> \<not> bit c n" by (metis bit_take_bit_iff not_le)
  have "take_bit 7 c = c" if "c < 0x80"
    using that by (simp add: take_bit_eq_mod word_less_nat_alt word_unat_eq_iff unat_mod)
  then show "c < 0x80 \<Longrightarrow> 7 \<le> n \<Longrightarrow> \<not> bit c n" by (metis bit_take_bit_iff not_le)
qed

lemma join3:
  fixes c :: u16
  shows "ucast (push_bit 6 (push_bit 6 (ucast (ucast ((drop_bit 12 c AND 0xF) OR 0xE0) :: u8) AND 0xF) +
      (ucast (ucast ((drop_bit 6 c AND 0x3F) OR 0x80) :: u8) AND 0x3F :: u32)) +
      (ucast (ucast ((c AND 0x3F) OR 0x80) :: u8) AND 0x3F)) = c"
  unfolding push6_or by (rule u16_eqI) (simp_all add: bit_simps)

lemma join2:
  fixes c :: u16
  assumes "c < 0x800"
  shows "ucast (push_bit 6 (ucast (ucast ((drop_bit 6 c AND 0x1F) OR 0xC0) :: u8) AND 0x1F) +
      (ucast (ucast ((c AND 0x3F) OR 0x80) :: u8) AND 0x3F :: u32)) = c"
proof -
  have hi: "\<not> bit c n" if "n \<ge> 11" for n
    by (rule bit_small(1) [OF assms that])
  show ?thesis unfolding push6_or
    by (rule u16_eqI) (simp_all add: bit_simps hi)
qed

lemma lead3: "(scast (ucast ((x AND 0xF) OR 0xE0) :: u8) :: u16) AND 128 \<noteq> 0"
  "(scast (ucast ((x AND 0xF) OR 0xE0) :: u8) :: u16) AND 32 \<noteq> 0"
  "(scast (ucast ((x AND 0xF) OR 0xE0) :: u8) :: u16) AND 16 = 0" for x :: u16
proof -
  let ?w = "scast (ucast ((x AND 0xF) OR 0xE0) :: u8) :: u16"
  have "bit (?w AND 128) 7" "bit (?w AND 32) 5" by (simp_all add: bit_simps)
  then show "?w AND 128 \<noteq> 0" "?w AND 32 \<noteq> 0" by (metis bit_0_eq bot_apply bot_bool_def)+
  show "?w AND 16 = 0" by (rule u16_eqI) (simp_all add: bit_simps)
qed

lemma lead2: "(scast (ucast ((x AND 0x1F) OR 0xC0) :: u8) :: u16) AND 128 \<noteq> 0"
  "(scast (ucast ((x AND 0x1F) OR 0xC0) :: u8) :: u16) AND 32 = 0" for x :: u16
proof -
  let ?w = "scast (ucast ((x AND 0x1F) OR 0xC0) :: u8) :: u16"
  have "bit (?w AND 128) 7" by (simp add: bit_simps)
  then show "?w AND 128 \<noteq> 0" by (metis bit_0_eq bot_apply bot_bool_def)
  show "?w AND 32 = 0" by (rule u16_eqI) (simp_all add: bit_simps)
qed

lemma lead1:
  fixes c :: u16
  assumes "c < 0x80"
  shows "(scast (ucast (c AND 0x7F) :: u8) :: u16) = c" "c AND 128 = 0"
proof -
  have hi: "\<not> bit c n" if "n \<ge> 7" for n
    by (rule bit_small(2) [OF assms that])
  show "(scast (ucast (c AND 0x7F) :: u8) :: u16) = c" "c AND 128 = 0"
    by (rule u16_eqI; simp add: bit_simps hi)+
qed

text \<open>Decoding at the place where a character was encoded gives it back.\<close>

lemma decode_char_ok:
  assumes m: "m = pre @ encode16 c @ post"
  shows "decode_char m (length pre) = Some (c, length pre + length (encode16 c))"
proof -
  have at: "byte_at m (length pre + k) = Some (encode16 c ! k)" if "k < length (encode16 c)" for k
    using that by (simp add: m byte_at_def nth_append)
  consider (three) "c \<ge> 0x800" | (two) "\<not> c \<ge> 0x800" "c \<ge> 0x80" | (one) "\<not> c \<ge> 0x800" "\<not> c \<ge> 0x80" by blast
  then show ?thesis
  proof cases
    case three
    then show ?thesis
      using at [of 0] at [of 1] at [of 2] lead3 [of "drop_bit 12 c"] join3 [of c]
      by (simp add: decode_char_def encode16_def bits_at_def Let_def numeral_2_eq_2)
  next
    case two
    then show ?thesis
      using at [of 0] at [of 1] lead2 [of "drop_bit 6 c"] join2 [of c]
      by (simp add: decode_char_def encode16_def bits_at_def Let_def)
  next
    case one
    then show ?thesis
      using at [of 0] lead1 [of c] by (simp add: decode_char_def encode16_def Let_def)
  qed
qed

lemma encode16_nonzero: "c \<noteq> 0 \<Longrightarrow> x \<in> set (encode16 c) \<Longrightarrow> x \<noteq> 0"
proof -
  assume c: "c \<noteq> 0" and x: "x \<in> set (encode16 c)"
  have "bit x 7 \<or> c < 0x80 \<and> x = ucast (c AND 0x7F)"
    using x by (auto simp: encode16_def bit_simps split: if_splits)
  then show "x \<noteq> 0"
  proof
    assume "c < 0x80 \<and> x = ucast (c AND 0x7F)"
    with lead1(1) [of c] c show ?thesis by auto
  qed auto
qed

lemma decode_loop_ok:
  assumes "\<forall>c \<in> set s. c \<noteq> 0"
  shows "length s \<le> length rest \<Longrightarrow>
    decode_loop widen (pre @ concat (map encode16 s) @ 0 # post) (length pre) (res @ rest) (length res) =
      Some (res @ map widen s @ drop (length s) rest)"
  using assms
proof (induction s arbitrary: pre res rest)
  case Nil
  then show ?case by (subst decode_loop.simps) (simp add: byte_at_def nth_append)
next
  case (Cons c s)
  let ?m = "pre @ concat (map encode16 (c # s)) @ 0 # post"
  obtain r rs where r: "rest = r # rs" using Cons.prems by (cases rest) auto
  have dec: "decode_char ?m (length pre) = Some (c, length pre + length (encode16 c))"
    by (rule decode_char_ok [of _ _ _ "concat (map encode16 s) @ 0 # post"]) simp
  obtain b bs where b: "encode16 c = b # bs" using encode16_length(2) [of c] by (cases "encode16 c") auto
  then have first: "byte_at ?m (length pre) = Some b" "b \<noteq> 0"
    using encode16_nonzero [of c b] Cons.prems by (simp_all add: byte_at_def nth_append)
  have "decode_loop widen ((pre @ encode16 c) @ concat (map encode16 s) @ 0 # post) (length (pre @ encode16 c))
      ((res @ [widen c]) @ rs) (length (res @ [widen c])) =
      Some ((res @ [widen c]) @ map widen s @ drop (length s) rs)"
    using Cons.prems r by (intro Cons.IH) auto
  then have "decode_loop widen ?m (length pre + length (encode16 c)) (res @ widen c # rs) (Suc (length res)) =
      Some (res @ map widen (c # s) @ drop (length s) rs)"
    by simp
  moreover have "set_at (res @ rest) (length res) (widen c) = Some (res @ widen c # rs)"
    by (simp add: set_at_def r list_update_append)
  moreover have "drop (length (c # s)) rest = drop (length s) rs" by (simp add: r)
  ultimately show ?case
    using first dec by (subst decode_loop.simps) (simp del: concat.simps list.map)
qed

subsection \<open>Properties\<close>

text \<open>
  C24. Round trip of unsigned numbers: in every base from 2 to 36 the text that \<^verbatim>\<open>uto_base\<close>
  produces is read back as the number by \<^verbatim>\<open>atou_base\<close>, whenever its digits fit the 64 byte
  array, which is always so from base 3 on.
\<close>

theorem uto_atou_roundtrip:
  assumes "2 \<le> unat base" "unat base \<le> 36" "unat n < unat base ^ 63"
  shows "\<exists>text. uto_base True n base = Some (Ref text) \<and> atou_base (Ref text) base = Some n"
proof -
  let ?t = "number_text (unat base) (unat n)"
  have nz: "\<forall>c \<in> set ?t. c \<noteq> 0" using number_text_chars [OF assms(1,2)] by blast
  have "length ?t \<le> 63" using length_number_text [OF assms(1,3)] by simp
  then have "atou_base (Ref (?t @ [0])) base = Some (digits_value unsigned_digit base ?t)"
    using nz atou_base_ok [of "?t @ [0]" base] by simp
  moreover have "digits_value unsigned_digit base ?t = n"
    using number_text_value [OF assms(1,2), of unsigned_digit "unat n"] by simp
  ultimately show ?thesis by (intro exI [of _ "?t @ [0]"]) (simp only: uto_base_ok [OF assms] simp_thms)
qed

theorem uto_atou_roundtrip_witness:
  "\<exists>text. uto_base True 48879 16 = Some (Ref text) \<and> atou_base (Ref text) 16 = Some 48879"
  using uto_atou_roundtrip [of 16 48879] by simp

text \<open>
  C29. Round trip of signed numbers: in every base from 2 to 36 the text that \<^verbatim>\<open>ito_base\<close>
  produces is read back by \<^verbatim>\<open>ato_base\<close>, sign included, for every number but \<open>- 2 ^ 63\<close> and, in
  base 2, those from \<open>- 2 ^ 62\<close> down, whose sign, digits and terminator do not fit the 64 byte array.
\<close>

theorem ito_ato_roundtrip:
  assumes "2 \<le> unat base" "unat base \<le> 36" "sint n \<noteq> - (2 ^ 63)" "unat base = 2 \<Longrightarrow> - (2 ^ 62) < sint n"
  shows "\<exists>text. ito_base True n base = Some (Ref text) \<and> ato_base (Ref text) base = Some n"
proof -
  let ?t = "signed_text (unat base) (sint n)" and ?k = "nat \<bar>sint n\<bar>"
  have "\<bar>sint n\<bar> < 2 ^ 63" using assms(3) sint_greater_eq [of n] sint_less [of n] by simp
  then have k: "?k < 2 ^ 63" by (simp add: nat_less_iff)
  have "?k < unat base ^ 62" if "sint n < 0"
  proof (cases "unat base = 2")
    case False
    then have "(3 :: nat) ^ 62 \<le> unat base ^ 62" using assms(1) by (intro power_mono) auto
    moreover have "(2 :: nat) ^ 63 \<le> 3 ^ 62" by simp
    ultimately show ?thesis using k by (meson less_le_trans)
  next
    case True
    then have "\<bar>sint n\<bar> < 2 ^ 62" using assms(4) [OF True] that by simp
    then show ?thesis by (simp add: True nat_less_iff)
  qed
  moreover have "(2 :: nat) ^ 63 \<le> unat base ^ 63" using assms(1) by (intro power_mono) auto
  then have "?k < unat base ^ 63" using k by (rule less_le_trans [rotated])
  ultimately have "length ?t \<le> 63"
    using length_number_text [OF assms(1), of ?k 62] length_number_text [OF assms(1), of ?k 63]
    by (cases "sint n < 0") (simp_all add: signed_text_def abs_if)
  from ito_base_ok [OF assms(1-3) this] ato_base_ok [OF assms(1,2) this] show ?thesis
    by (intro exI [of _ "?t @ [0]"]) (simp only: simp_thms)
qed

theorem ito_ato_roundtrip_witness:
  "\<exists>text. ito_base True (- 48879) 10 = Some (Ref text) \<and> ato_base (Ref text) 10 = Some (- 48879)"
  using ito_ato_roundtrip [of 10 "- 48879"] by simp

text \<open>
  C25. Round trip of UTF-16: converting any string of nonzero 16 bit units to UTF-8 with
  \<^verbatim>\<open>char16_to_char\<close> and back with \<^verbatim>\<open>char_to_wchar\<close> stays within the allocated arrays and
  gives the units back, followed by zeros.
\<close>

theorem utf16_roundtrip:
  assumes nz: "\<forall>c \<in> set s. c \<noteq> 0"
  shows "\<exists>d r. char16_to_char True (Ref (s @ [0])) = Some (Ref d) \<and> char_to_wchar True (Ref d) = Some (Ref r) \<and>
    take (length s) r = s \<and> (\<forall>u \<in> set (drop (length s) r). u = 0)"
proof -
  let ?e = "concat (map encode16 s)"
  let ?z = "replicate (4 * length s - length ?e) 0"
  let ?r = "s @ replicate (length ?e - length s) 0"
  have le: "length ?e \<le> 3 * length s" by (rule length_concat_encode16)
  have ge: "length s \<le> length ?e"
  proof (induction s)
    case (Cons c s)
    then show ?case using encode16_length(2) [of c] by (cases "encode16 c") auto
  qed simp
  have "encode_loop encode16 (s @ [0]) (replicate (length s * 4 + 1) 0) 0 =
      Some (?e @ drop (length ?e) (replicate (length s * 4 + 1) 0))"
    using encode_loop_ok [OF nz, of encode16 0 "replicate (length s * 4 + 1) 0" "[]"] le by simp
  moreover have "length s * 4 + 1 - length ?e = Suc (4 * length s - length ?e)" using le by simp
  then have "drop (length ?e) (replicate (length s * 4 + 1) 0) = (0 :: u8) # ?z"
    by (simp only: drop_replicate replicate_Suc)
  ultimately have enc: "char16_to_char True (Ref (s @ [0])) = Some (Ref (?e @ 0 # ?z))"
    using wide_size_ok [OF nz, of "[]"] by (simp add: char16_to_char_def wchar_size_def)
  have "\<forall>x \<in> set ?e. x \<noteq> 0" using nz encode16_nonzero by auto
  then have len: "strlen (Ref (?e @ 0 # ?z)) = Some (length ?e)" by simp
  have "decode_loop (\<lambda>w. w) (?e @ 0 # ?z) 0 (replicate (length ?e) 0) 0 = Some ?r"
    using decode_loop_ok [OF nz, of "replicate (length ?e) 0" "\<lambda>w. w" "[]" ?z "[]"] ge by simp
  with len have "char_to_wchar True (Ref (?e @ 0 # ?z)) = Some (Ref ?r)"
    by (simp add: char_to_wchar_def)
  with enc show ?thesis by (intro exI [of _ "?e @ 0 # ?z"] exI [of _ ?r]) simp
qed

theorem utf16_roundtrip_witness:
  "\<exists>d r. char16_to_char True (Ref ([0x41, 0xE9, 0x20AC] @ [0])) = Some (Ref d) \<and>
    char_to_wchar True (Ref d) = Some (Ref r) \<and>
    take (length [0x41, 0xE9, 0x20AC :: u16]) r = [0x41, 0xE9, 0x20AC]"
  using utf16_roundtrip [of "[0x41, 0xE9, 0x20AC]"] by auto

text \<open>
  Formatting a number of 64 binary digits writes past the 64 byte array: the terminator
  of \<^verbatim>\<open>uto_base\<close> in base 2 has no room from \<open>2 ^ 63\<close> on.
\<close>

theorem uto_base_overflow:
  "uto_base ok (2 ^ 63) 2 = None"
proof -
  let ?n = "2 ^ 63 :: u64"
  have len: "length (hex_digits 2 (unat ?n)) = 64"
    using length_hex_digits_power [of 2 63] by simp
  then have "write_digits (replicate 64 0) ?n 2 64 1 = Some (hex_digits 2 (unat ?n))"
    using write_digits_ok [of 2 ?n 1 64 "replicate 64 0"] by simp
  with len digit_count_ok [of 2 ?n 0] show ?thesis
    by (simp add: uto_base_def uto_base_with_buffer_def set_byte_def)
qed

end
