(* ===== verification/RBTree.thy ===== *)
theory RBTree
  imports LinkedList
begin

text \<open>
  The red-black tree index of \<open>cc/lib/rbtree.64.c\<close>. Nodes are objects of an explicit heap
  \<open>rbt_nodes\<close>, linked by parent and child pointers as in the code; allocating a node takes the
  address the allocator returns as an argument (\<open>NULL\<close> when it fails), freeing removes the node,
  so that a read or write through a freed node has no value. The lock of the tree is a flag.

  The stack and the result of an in-order search are the \<open>list_t\<close> lists of \<open>LinkedList\<close>; here
  they are the sequences of node pointers those lists hold.
\<close>

subsection \<open>Nodes\<close>

datatype rbtree_color_t = RBTREE_COLOR_RED | RBTREE_COLOR_BLACK

record ('k, 'd) rbtree_node_t =
  rb_parent :: ptr
  rb_left :: ptr
  rb_right :: ptr
  rb_color :: rbtree_color_t
  rb_key :: "'k ref"
  rb_data :: "'d ref"

record ('k, 'd) rbtree_t =
  rbt_locked :: bool
  rbt_size :: u64
  rbt_root :: ptr
  rbt_nodes :: "nat \<rightharpoonup> ('k, 'd) rbtree_node_t"

text \<open>Reading and writing a node through a pointer, and freeing one.\<close>

definition rbnode :: "('k, 'd) rbtree_t \<Rightarrow> ptr \<Rightarrow> ('k, 'd) rbtree_node_t option" where
  "rbnode t p = do { a \<leftarrow> ref_opt p; rbt_nodes t a }"

definition set_rbnode ::
  "ptr \<Rightarrow> (('k, 'd) rbtree_node_t \<Rightarrow> ('k, 'd) rbtree_node_t) \<Rightarrow> ('k, 'd) rbtree_t \<Rightarrow> ('k, 'd) rbtree_t option" where
  "set_rbnode p f t = do {
     a \<leftarrow> ref_opt p;
     n \<leftarrow> rbt_nodes t a;
     Some (t\<lparr>rbt_nodes := (rbt_nodes t)(a \<mapsto> f n)\<rparr>)
   }"

definition free_rbnode :: "ptr \<Rightarrow> ('k, 'd) rbtree_t \<Rightarrow> ('k, 'd) rbtree_t option" where
  "free_rbnode p t = do {
     a \<leftarrow> ref_opt p;
     n \<leftarrow> rbt_nodes t a;
     Some (t\<lparr>rbt_nodes := (rbt_nodes t)(a := None)\<rparr>)
   }"

definition rbtree_node_new ::
  "ptr \<Rightarrow> 'k ref \<Rightarrow> 'd ref \<Rightarrow> ('k, 'd) rbtree_t \<Rightarrow> ('k, 'd) rbtree_t \<times> ptr" where
  "rbtree_node_new mem k d t =
     (case mem of
        NULL \<Rightarrow> (t, NULL)
      | Ref a \<Rightarrow>
          (t\<lparr>rbt_nodes := (rbt_nodes t)(a \<mapsto>
             \<lparr>rb_parent = NULL, rb_left = NULL, rb_right = NULL, rb_color = RBTREE_COLOR_RED,
              rb_key = k, rb_data = d\<rparr>)\<rparr>, Ref a))"

definition rbtree_node_is_on_left :: "('k, 'd) rbtree_t \<Rightarrow> ptr \<Rightarrow> bool option" where
  "rbtree_node_is_on_left t rbn = do {
     n \<leftarrow> rbnode t rbn;
     if rb_parent n = NULL then Some False
     else do {
       p \<leftarrow> rbnode t (rb_parent n);
       Some (rbn = rb_left p)
     }
   }"

definition is_red :: "('k, 'd) rbtree_t \<Rightarrow> ptr \<Rightarrow> bool option" where
  "is_red t p = (if p = NULL then Some False
     else do { n \<leftarrow> rbnode t p; Some (rb_color n = RBTREE_COLOR_RED) })"

definition rbtree_node_has_red_child :: "('k, 'd) rbtree_t \<Rightarrow> ptr \<Rightarrow> bool option" where
  "rbtree_node_has_red_child t rbn = do {
     n \<leftarrow> rbnode t rbn;
     l \<leftarrow> is_red t (rb_left n);
     if l then Some True else is_red t (rb_right n)
   }"

definition rbtree_node_uncle :: "('k, 'd) rbtree_t \<Rightarrow> ptr \<Rightarrow> ptr option" where
  "rbtree_node_uncle t rbn = do {
     n \<leftarrow> rbnode t rbn;
     if rb_parent n = NULL then Some NULL
     else do {
       p \<leftarrow> rbnode t (rb_parent n);
       if rb_parent p = NULL then Some NULL
       else do {
         on_left \<leftarrow> rbtree_node_is_on_left t (rb_parent n);
         g \<leftarrow> rbnode t (rb_parent p);
         Some (if on_left then rb_right g else rb_left g)
       }
     }
   }"

definition rbtree_node_sibling :: "('k, 'd) rbtree_t \<Rightarrow> ptr \<Rightarrow> ptr option" where
  "rbtree_node_sibling t rbn =
     (if rbn = NULL then Some NULL
      else do {
        n \<leftarrow> rbnode t rbn;
        if rb_parent n = NULL then Some NULL
        else do {
          on_left \<leftarrow> rbtree_node_is_on_left t rbn;
          p \<leftarrow> rbnode t (rb_parent n);
          Some (if on_left then rb_right p else rb_left p)
        }
      })"

definition rbtree_node_move_down ::
  "ptr \<Rightarrow> ptr \<Rightarrow> ('k, 'd) rbtree_t \<Rightarrow> ('k, 'd) rbtree_t option" where
  "rbtree_node_move_down rbn new_parent t = do {
     n \<leftarrow> rbnode t rbn;
     t1 \<leftarrow> (if rb_parent n = NULL then Some t
            else do {
              on_left \<leftarrow> rbtree_node_is_on_left t rbn;
              if on_left then set_rbnode (rb_parent n) (rb_left_update (\<lambda>_. new_parent)) t
              else set_rbnode (rb_parent n) (rb_right_update (\<lambda>_. new_parent)) t
            });
     t2 \<leftarrow> set_rbnode new_parent (rb_parent_update (\<lambda>_. rb_parent n)) t1;
     set_rbnode rbn (rb_parent_update (\<lambda>_. new_parent)) t2
   }"

definition rbtree_node_swap_colors ::
  "ptr \<Rightarrow> ptr \<Rightarrow> ('k, 'd) rbtree_t \<Rightarrow> ('k, 'd) rbtree_t option" where
  "rbtree_node_swap_colors rbn1 rbn2 t = do {
     n1 \<leftarrow> rbnode t rbn1;
     n2 \<leftarrow> rbnode t rbn2;
     t1 \<leftarrow> set_rbnode rbn1 (rb_color_update (\<lambda>_. rb_color n2)) t;
     set_rbnode rbn2 (rb_color_update (\<lambda>_. rb_color n1)) t1
   }"

definition rbtree_node_swap_values ::
  "ptr \<Rightarrow> ptr \<Rightarrow> ('k, 'd) rbtree_t \<Rightarrow> ('k, 'd) rbtree_t option" where
  "rbtree_node_swap_values rbn1 rbn2 t = do {
     n1 \<leftarrow> rbnode t rbn1;
     n2 \<leftarrow> rbnode t rbn2;
     t1 \<leftarrow> set_rbnode rbn1 (\<lambda>n. n\<lparr>rb_key := rb_key n2, rb_data := rb_data n2\<rparr>) t;
     set_rbnode rbn2 (\<lambda>n. n\<lparr>rb_key := rb_key n1, rb_data := rb_data n1\<rparr>) t1
   }"

partial_function (option) rbtree_node_successor :: "('k, 'd) rbtree_t \<Rightarrow> ptr \<Rightarrow> ptr option" where
  "rbtree_node_successor t x = do {
     n \<leftarrow> rbnode t x;
     if rb_left n \<noteq> NULL then rbtree_node_successor t (rb_left n) else Some x
   }"

declare rbtree_node_successor.simps [code]

definition rbtree_node_bst_replace :: "('k, 'd) rbtree_t \<Rightarrow> ptr \<Rightarrow> ptr option" where
  "rbtree_node_bst_replace t x = do {
     n \<leftarrow> rbnode t x;
     if rb_left n \<noteq> NULL \<and> rb_right n \<noteq> NULL then rbtree_node_successor t (rb_right n)
     else if rb_left n = NULL \<and> rb_right n = NULL then Some NULL
     else if rb_left n \<noteq> NULL then Some (rb_left n) else Some (rb_right n)
   }"

subsection \<open>Rotations and rebalancing\<close>

definition rbtree_left_rotate :: "ptr \<Rightarrow> ('k, 'd) rbtree_t \<Rightarrow> ('k, 'd) rbtree_t option" where
  "rbtree_left_rotate rbn t = do {
     n \<leftarrow> rbnode t rbn;
     let new_parent = rb_right n;
     let t1 = (if rbn = rbt_root t then t\<lparr>rbt_root := new_parent\<rparr> else t);
     t2 \<leftarrow> rbtree_node_move_down rbn new_parent t1;
     np \<leftarrow> rbnode t2 new_parent;
     t3 \<leftarrow> set_rbnode rbn (rb_right_update (\<lambda>_. rb_left np)) t2;
     t4 \<leftarrow> (if rb_left np \<noteq> NULL then set_rbnode (rb_left np) (rb_parent_update (\<lambda>_. rbn)) t3
            else Some t3);
     set_rbnode new_parent (rb_left_update (\<lambda>_. rbn)) t4
   }"

definition rbtree_right_rotate :: "ptr \<Rightarrow> ('k, 'd) rbtree_t \<Rightarrow> ('k, 'd) rbtree_t option" where
  "rbtree_right_rotate rbn t = do {
     n \<leftarrow> rbnode t rbn;
     let new_parent = rb_left n;
     let t1 = (if rbn = rbt_root t then t\<lparr>rbt_root := new_parent\<rparr> else t);
     t2 \<leftarrow> rbtree_node_move_down rbn new_parent t1;
     np \<leftarrow> rbnode t2 new_parent;
     t3 \<leftarrow> set_rbnode rbn (rb_left_update (\<lambda>_. rb_right np)) t2;
     t4 \<leftarrow> (if rb_right np \<noteq> NULL then set_rbnode (rb_right np) (rb_parent_update (\<lambda>_. rbn)) t3
            else Some t3);
     set_rbnode new_parent (rb_right_update (\<lambda>_. rbn)) t4
   }"

abbreviation set_color :: "ptr \<Rightarrow> rbtree_color_t \<Rightarrow> ('k, 'd) rbtree_t \<Rightarrow> ('k, 'd) rbtree_t option" where
  "set_color p c \<equiv> set_rbnode p (rb_color_update (\<lambda>_. c))"

text \<open>The rotations that end the repair of two red nodes in a row.\<close>

definition rotate_redred ::
  "ptr \<Rightarrow> ptr \<Rightarrow> ptr \<Rightarrow> ('k, 'd) rbtree_t \<Rightarrow> ('k, 'd) rbtree_t option" where
  "rotate_redred rbn parent grandparent t = do {
     parent_left \<leftarrow> rbtree_node_is_on_left t parent;
     rbn_left \<leftarrow> rbtree_node_is_on_left t rbn;
     if parent_left then do {
       t1 \<leftarrow> (if rbn_left then rbtree_node_swap_colors parent grandparent t
              else do {
                t1 \<leftarrow> rbtree_left_rotate parent t;
                rbtree_node_swap_colors rbn grandparent t1
              });
       rbtree_right_rotate grandparent t1
     } else do {
       t1 \<leftarrow> (if rbn_left then do {
                t1 \<leftarrow> rbtree_right_rotate parent t;
                rbtree_node_swap_colors rbn grandparent t1
              }
              else rbtree_node_swap_colors parent grandparent t);
       rbtree_left_rotate grandparent t1
     }
   }"

partial_function (option) rbtree_fix_redred ::
  "('k, 'd) rbtree_t \<Rightarrow> ptr \<Rightarrow> ('k, 'd) rbtree_t option" where
  "rbtree_fix_redred t rbn =
     (if rbn = rbt_root t then set_color rbn RBTREE_COLOR_BLACK t
      else do {
        n \<leftarrow> rbnode t rbn;
        let parent = rb_parent n;
        p \<leftarrow> rbnode t parent;
        let grandparent = rb_parent p;
        uncle \<leftarrow> rbtree_node_uncle t rbn;
        if rb_color p \<noteq> RBTREE_COLOR_BLACK then do {
          uncle_red \<leftarrow> is_red t uncle;
          if uncle_red then do {
            t1 \<leftarrow> set_color parent RBTREE_COLOR_BLACK t;
            t2 \<leftarrow> set_color uncle RBTREE_COLOR_BLACK t1;
            t3 \<leftarrow> set_color grandparent RBTREE_COLOR_RED t2;
            rbtree_fix_redred t3 grandparent
          }
          else rotate_redred rbn parent grandparent t
        }
        else Some t
      })"

declare rbtree_fix_redred.simps [code]

text \<open>The rotations that end the repair of a missing black node: the sibling has a red child.\<close>

definition rotate_blackblack ::
  "ptr \<Rightarrow> ptr \<Rightarrow> ('k, 'd) rbtree_t \<Rightarrow> ('k, 'd) rbtree_t option" where
  "rotate_blackblack sibling parent t = do {
     s \<leftarrow> rbnode t sibling;
     p \<leftarrow> rbnode t parent;
     left_red \<leftarrow> is_red t (rb_left s);
     sibling_left \<leftarrow> rbtree_node_is_on_left t sibling;
     t1 \<leftarrow> (if left_red then
              (if sibling_left then do {
                 t1 \<leftarrow> set_color (rb_left s) (rb_color s) t;
                 t2 \<leftarrow> set_color sibling (rb_color p) t1;
                 rbtree_right_rotate parent t2
               } else do {
                 t1 \<leftarrow> set_color (rb_left s) (rb_color p) t;
                 t2 \<leftarrow> rbtree_right_rotate sibling t1;
                 rbtree_left_rotate parent t2
               })
            else
              (if sibling_left then do {
                 t1 \<leftarrow> set_color (rb_right s) (rb_color p) t;
                 t2 \<leftarrow> rbtree_left_rotate sibling t1;
                 rbtree_right_rotate parent t2
               } else do {
                 t1 \<leftarrow> set_color (rb_right s) (rb_color s) t;
                 t2 \<leftarrow> set_color sibling (rb_color p) t1;
                 rbtree_left_rotate parent t2
               }));
     set_color parent RBTREE_COLOR_BLACK t1
   }"

partial_function (option) rbtree_fix_blackblack ::
  "('k, 'd) rbtree_t \<Rightarrow> ptr \<Rightarrow> ('k, 'd) rbtree_t option" where
  "rbtree_fix_blackblack t rbn =
     (if rbn = rbt_root t \<or> rbn = NULL then Some t
      else do {
        sibling \<leftarrow> rbtree_node_sibling t rbn;
        n \<leftarrow> rbnode t rbn;
        let parent = rb_parent n;
        if sibling = NULL then rbtree_fix_blackblack t parent
        else do {
          s \<leftarrow> rbnode t sibling;
          if rb_color s = RBTREE_COLOR_RED then do {
            t1 \<leftarrow> set_color parent RBTREE_COLOR_RED t;
            t2 \<leftarrow> set_color sibling RBTREE_COLOR_BLACK t1;
            sibling_left \<leftarrow> rbtree_node_is_on_left t2 sibling;
            t3 \<leftarrow> (if sibling_left then rbtree_right_rotate parent t2
                   else rbtree_left_rotate parent t2);
            rbtree_fix_blackblack t3 rbn
          }
          else do {
            red_child \<leftarrow> rbtree_node_has_red_child t sibling;
            if red_child then rotate_blackblack sibling parent t
            else do {
              t1 \<leftarrow> set_color sibling RBTREE_COLOR_RED t;
              p \<leftarrow> rbnode t1 parent;
              if rb_color p = RBTREE_COLOR_BLACK then rbtree_fix_blackblack t1 parent
              else set_color parent RBTREE_COLOR_BLACK t1
            }
          }
        }
      })"

declare rbtree_fix_blackblack.simps [code]

text \<open>
  Removing a node with at most one child. A node with two children takes the key and the data of
  its successor, which is then removed in its place (the next round of the loop).
\<close>

definition delete_leaf :: "bool \<Rightarrow> ptr \<Rightarrow> ptr \<Rightarrow> ('k, 'd) rbtree_t \<Rightarrow> ('k, 'd) rbtree_t option" where
  "delete_leaf uvBlack parent v t = do {
     t3 \<leftarrow> (if v = rbt_root t then Some (t\<lparr>rbt_root := NULL\<rparr>)
            else do {
              t1 \<leftarrow> (if uvBlack then rbtree_fix_blackblack t v
                     else do {
                       v_sibling \<leftarrow> rbtree_node_sibling t v;
                       if v_sibling \<noteq> NULL then set_color v_sibling RBTREE_COLOR_RED t else Some t
                     });
              on_left \<leftarrow> rbtree_node_is_on_left t1 v;
              if on_left then set_rbnode parent (rb_left_update (\<lambda>_. NULL)) t1
              else if parent \<noteq> NULL then set_rbnode parent (rb_right_update (\<lambda>_. NULL)) t1
              else Some t1
            });
     free_rbnode v t3
   }"

definition delete_only_child ::
  "bool \<Rightarrow> ptr \<Rightarrow> ptr \<Rightarrow> ptr \<Rightarrow> ('k, 'd) rbtree_t \<Rightarrow> ('k, 'd) rbtree_t option" where
  "delete_only_child uvBlack parent u v t =
     (if v = rbt_root t then do {
        un \<leftarrow> rbnode t u;
        t1 \<leftarrow> set_rbnode v
                (\<lambda>n. n\<lparr>rb_key := rb_key un, rb_data := rb_data un, rb_left := NULL, rb_right := NULL\<rparr>) t;
        free_rbnode u t1
      }
      else do {
        on_left \<leftarrow> rbtree_node_is_on_left t v;
        t1 \<leftarrow> (if on_left then set_rbnode parent (rb_left_update (\<lambda>_. u)) t
               else set_rbnode parent (rb_right_update (\<lambda>_. u)) t);
        t2 \<leftarrow> free_rbnode v t1;
        t3 \<leftarrow> set_rbnode u (rb_parent_update (\<lambda>_. parent)) t2;
        if uvBlack then rbtree_fix_blackblack t3 u else set_color u RBTREE_COLOR_BLACK t3
      })"

partial_function (option) rbtree_delete_node ::
  "('k, 'd) rbtree_t \<Rightarrow> ptr \<Rightarrow> ('k, 'd) rbtree_t option" where
  "rbtree_delete_node t v = do {
     u \<leftarrow> rbtree_node_bst_replace t v;
     u_red \<leftarrow> is_red t u;
     n \<leftarrow> rbnode t v;
     let uvBlack = (\<not> u_red \<and> rb_color n = RBTREE_COLOR_BLACK);
     let parent = rb_parent n;
     if u = NULL then delete_leaf uvBlack parent v t
     else if rb_left n = NULL \<or> rb_right n = NULL then delete_only_child uvBlack parent u v t
     else do {
       t1 \<leftarrow> rbtree_node_swap_values u v t;
       rbtree_delete_node t1 u
     }
   }"

declare rbtree_delete_node.simps [code]

subsection \<open>The index operations\<close>

partial_function (option) search_loop ::
  "'k comparator \<Rightarrow> ('k, 'd) rbtree_t \<Rightarrow> 'k ref \<Rightarrow> ptr \<Rightarrow> (bool \<times> ptr) option" where
  "search_loop cmp t k temp =
     (if temp = NULL then Some (False, NULL)
      else do {
        n \<leftarrow> rbnode t temp;
        let c_res = cmp k (rb_key n);
        if c_res = - 1 then
          (if rb_left n = NULL then Some (False, temp) else search_loop cmp t k (rb_left n))
        else if c_res = 0 then Some (True, temp)
        else (if rb_right n = NULL then Some (False, temp) else search_loop cmp t k (rb_right n))
      })"

declare search_loop.simps [code]

definition rbtree_search_node ::
  "('k, 'd) rbtree_t \<Rightarrow> 'k ref \<Rightarrow> 'k comparator \<Rightarrow> (bool \<times> ptr) option" where
  "rbtree_search_node t k cmp = search_loop cmp t k (rbt_root t)"

record ('k, 'd) index_t =
  metadata :: "('k, 'd) rbtree_t ref"
  idx_comparator :: "'k comparator"

definition rbtree_size :: "('k, 'd) index_t ref \<Rightarrow> u64 option" where
  "rbtree_size idx = (case idx of
     NULL \<Rightarrow> Some 0
   | Ref i \<Rightarrow> do { rbt \<leftarrow> ref_opt (metadata i); Some (rbt_size rbt) })"

text \<open>
  \<open>removed_data\<close> is \<open>NULL\<close> or a pointer to a variable, whose content after the call is part of
  the result.
\<close>

definition store :: "'a ref \<Rightarrow> 'a \<Rightarrow> 'a ref" where
  "store p v = (case p of NULL \<Rightarrow> NULL | Ref _ \<Rightarrow> Ref v)"

definition insert_tree ::
  "ptr \<Rightarrow> 'k comparator \<Rightarrow> 'k ref \<Rightarrow> 'd ref \<Rightarrow> 'd ref ref \<Rightarrow> ('k, 'd) rbtree_t \<Rightarrow>
   (('k, 'd) rbtree_t \<times> 'd ref ref \<times> int) option" where
  "insert_tree mem cmp k d removed_data rbt =
     (if rbt_root rbt = NULL then
        (let (t1, root) = rbtree_node_new mem k d rbt; t2 = t1\<lparr>rbt_root := root\<rparr> in
         if root = NULL then Some (t2, removed_data, - 1)
         else do {
           t3 \<leftarrow> set_color root RBTREE_COLOR_BLACK t2;
           Some (t3\<lparr>rbt_size := rbt_size t3 + 1\<rparr>, removed_data, 0)
         })
      else do {
        (found, fn) \<leftarrow> rbtree_search_node rbt k cmp;
        if found then do {
          n \<leftarrow> rbnode rbt fn;
          t1 \<leftarrow> set_rbnode fn (\<lambda>n. n\<lparr>rb_key := k, rb_data := d\<rparr>) rbt;
          Some (t1, store removed_data (rb_data n), 0)
        }
        else
          (let (t1, new_node) = rbtree_node_new mem k d rbt in
           if new_node = NULL then Some (t1, removed_data, - 1)
           else do {
             t2 \<leftarrow> set_rbnode new_node (rb_parent_update (\<lambda>_. fn)) t1;
             n \<leftarrow> rbnode t2 fn;
             t3 \<leftarrow> (if cmp k (rb_key n) = - 1 then set_rbnode fn (rb_left_update (\<lambda>_. new_node)) t2
                    else set_rbnode fn (rb_right_update (\<lambda>_. new_node)) t2);
             t4 \<leftarrow> rbtree_fix_redred t3 new_node;
             Some (t4\<lparr>rbt_size := rbt_size t4 + 1\<rparr>, removed_data, 0)
           })
      })"

definition rbtree_insert ::
  "ptr \<Rightarrow> ('k, 'd) index_t ref \<Rightarrow> 'k ref \<Rightarrow> 'd ref \<Rightarrow> 'd ref ref \<Rightarrow>
   (('k, 'd) index_t ref \<times> 'd ref ref \<times> int) option" where
  "rbtree_insert mem idx k d removed_data = (case idx of
     NULL \<Rightarrow> Some (NULL, removed_data, - 1)
   | Ref i \<Rightarrow> do {
       rbt \<leftarrow> ref_opt (metadata i);
       (t, removed, res) \<leftarrow> insert_tree mem (idx_comparator i) k d removed_data (rbt\<lparr>rbt_locked := True\<rparr>);
       Some (Ref (i\<lparr>metadata := Ref (t\<lparr>rbt_locked := False\<rparr>)\<rparr>), removed, res)
     })"

definition rbtree_delete ::
  "('k, 'd) index_t ref \<Rightarrow> 'k ref \<Rightarrow> 'd ref ref \<Rightarrow> (('k, 'd) index_t ref \<times> 'd ref ref \<times> int) option" where
  "rbtree_delete idx k removed_data = (case idx of
     NULL \<Rightarrow> Some (NULL, removed_data, - 1)
   | Ref i \<Rightarrow> do {
       rbt0 \<leftarrow> ref_opt (metadata i);
       let rbt = rbt0\<lparr>rbt_locked := True\<rparr>;
       (found, fn) \<leftarrow> rbtree_search_node rbt k (idx_comparator i);
       (t, removed) \<leftarrow> (if found then do {
            n \<leftarrow> rbnode rbt fn;
            t1 \<leftarrow> rbtree_delete_node rbt fn;
            Some (t1\<lparr>rbt_size := rbt_size t1 - 1\<rparr>, store removed_data (rb_data n))
          }
          else Some (rbt, removed_data));
       Some (Ref (i\<lparr>metadata := Ref (t\<lparr>rbt_locked := False\<rparr>)\<rparr>), removed, 0)
     })"

definition rbtree_contains :: "('k, 'd) index_t ref \<Rightarrow> 'k ref \<Rightarrow> bool option" where
  "rbtree_contains idx k = (case idx of
     NULL \<Rightarrow> Some False
   | Ref i \<Rightarrow> do {
       rbt \<leftarrow> ref_opt (metadata i);
       (found, fn) \<leftarrow> rbtree_search_node rbt k (idx_comparator i);
       Some found
     })"

definition rbtree_find :: "('k, 'd) index_t ref \<Rightarrow> 'k ref \<Rightarrow> 'd ref option" where
  "rbtree_find idx k = (case idx of
     NULL \<Rightarrow> Some NULL
   | Ref i \<Rightarrow> do {
       rbt \<leftarrow> ref_opt (metadata i);
       (found, res) \<leftarrow> rbtree_search_node rbt k (idx_comparator i);
       if found then do { n \<leftarrow> rbnode rbt res; Some (rb_data n) } else Some NULL
     })"

subsection \<open>Creating and destroying an index\<close>

definition rbtree_create_index_with_heap ::
  "bool \<Rightarrow> bool \<Rightarrow> 'k comparator \<Rightarrow> ('k, 'd) index_t ref" where
  "rbtree_create_index_with_heap ok_tree ok_index cmp =
     (if \<not> ok_tree then NULL
      else if \<not> ok_index then NULL
      else Ref \<lparr>metadata = Ref \<lparr>rbt_locked = False, rbt_size = 0, rbt_root = NULL, rbt_nodes = Map.empty\<rparr>,
        idx_comparator = cmp\<rparr>)"

partial_function (option) rb_destroy_loop ::
  "('k, 'd) rbtree_t \<Rightarrow> ptr \<Rightarrow> ('k, 'd) rbtree_t option" where
  "rb_destroy_loop t rbn = do {
     n \<leftarrow> rbnode t rbn;
     if rb_left n \<noteq> NULL then rb_destroy_loop t (rb_left n)
     else if rb_right n \<noteq> NULL then rb_destroy_loop t (rb_right n)
     else if rb_parent n = NULL then free_rbnode rbn t
     else do {
       p \<leftarrow> rbnode t (rb_parent n);
       t1 \<leftarrow> (if rbn = rb_left p then set_rbnode (rb_parent n) (rb_left_update (\<lambda>_. NULL)) t
              else set_rbnode (rb_parent n) (rb_right_update (\<lambda>_. NULL)) t);
       t2 \<leftarrow> free_rbnode rbn t1;
       rb_destroy_loop t2 (rb_parent n)
     }
   }"

declare rb_destroy_loop.simps [code]

text \<open>
  The result of destroying an index: the nodes that are still allocated, and the return value.
  The tree and the index objects are freed in every case that returns 0 for an index.
\<close>

definition rbtree_destroy_index ::
  "('k, 'd) index_t ref \<Rightarrow> ((nat \<rightharpoonup> ('k, 'd) rbtree_node_t) \<times> int) option" where
  "rbtree_destroy_index idx = (case idx of
     NULL \<Rightarrow> Some (Map.empty, 0)
   | Ref i \<Rightarrow> (case metadata i of
       NULL \<Rightarrow> Some (Map.empty, - 1)
     | Ref rbt \<Rightarrow>
         if rbt_root rbt = NULL then Some (rbt_nodes rbt, 0)
         else do {
           t \<leftarrow> rb_destroy_loop rbt (rbt_root rbt);
           Some (rbt_nodes t, 0)
         }))"

subsection \<open>Searching a range of keys\<close>

datatype index_key_search_criteria_t =
    INDEXER_KEY_COMPARATOR_CRITERIA_NULL
  | INDEXER_KEY_COMPARATOR_CRITERIA_LESS
  | INDEXER_KEY_COMPARATOR_CRITERIA_LESSOREQUAL
  | INDEXER_KEY_COMPARATOR_CRITERIA_EQUAL
  | INDEXER_KEY_COMPARATOR_CRITERIA_EQUALORGREATER
  | INDEXER_KEY_COMPARATOR_CRITERIA_GREATER
  | INDEXER_KEY_COMPARATOR_CRITERIA_BETWEEN

text \<open>
  One round of the inner loop, which goes down from \<open>current\<close> and pushes the nodes that are wanted:
  whether the loop goes on, the next node and the stack. The loop's result is the
  node the loop stopped at (\<open>NULL\<close> unless it was left by \<open>break\<close>) and the stack, top first.
\<close>

definition descend_step ::
  "'k comparator \<Rightarrow> 'k ref \<Rightarrow> 'k ref \<Rightarrow> index_key_search_criteria_t \<Rightarrow> ('k, 'd) rbtree_node_t \<Rightarrow> ptr \<Rightarrow>
   ptr list \<Rightarrow> bool \<times> ptr \<times> ptr list" where
  "descend_step cmp key1 key2 criteria n current stack =
     (let c_res_1 = cmp (rb_key n) key1;
          c_res_2 = cmp (rb_key n) key2;
          push_left = (True, rb_left n, current # stack);
          skip_left = (True, rb_left n, stack);
          skip_right = (True, rb_right n, stack);
          stop = (False, current, stack)
      in case criteria of
           INDEXER_KEY_COMPARATOR_CRITERIA_NULL \<Rightarrow> push_left
         | INDEXER_KEY_COMPARATOR_CRITERIA_LESS \<Rightarrow> if c_res_1 = - 1 then push_left else skip_left
         | INDEXER_KEY_COMPARATOR_CRITERIA_LESSOREQUAL \<Rightarrow> if c_res_1 \<le> 0 then push_left else skip_left
         | INDEXER_KEY_COMPARATOR_CRITERIA_EQUAL \<Rightarrow>
             if c_res_1 = 0 then push_left else if c_res_1 = - 1 then stop else skip_left
         | INDEXER_KEY_COMPARATOR_CRITERIA_EQUALORGREATER \<Rightarrow>
             if c_res_1 \<ge> 0 then push_left else if rb_right n \<noteq> NULL then skip_right else skip_left
         | INDEXER_KEY_COMPARATOR_CRITERIA_GREATER \<Rightarrow>
             if c_res_1 > 0 then push_left else if rb_right n \<noteq> NULL then skip_right else skip_left
         | INDEXER_KEY_COMPARATOR_CRITERIA_BETWEEN \<Rightarrow>
             if c_res_1 \<ge> 0 \<and> c_res_2 \<le> 0 then push_left
             else if c_res_1 = - 1 then (if rb_right n \<noteq> NULL then skip_right else stop)
             else skip_left)"

partial_function (option) descend_loop ::
  "'k comparator \<Rightarrow> ('k, 'd) rbtree_t \<Rightarrow> 'k ref \<Rightarrow> 'k ref \<Rightarrow> index_key_search_criteria_t \<Rightarrow> ptr \<Rightarrow>
   ptr list \<Rightarrow> (ptr \<times> ptr list) option" where
  "descend_loop cmp t key1 key2 criteria current stack =
     (if current = NULL then Some (NULL, stack)
      else do {
        n \<leftarrow> rbnode t current;
        let s = descend_step cmp key1 key2 criteria n current stack;
        if fst s then descend_loop cmp t key1 key2 criteria (fst (snd s)) (snd (snd s))
        else Some (snd s)
      })"

declare descend_loop.simps [code]

partial_function (option) inorder_loop ::
  "'k comparator \<Rightarrow> ('k, 'd) rbtree_t \<Rightarrow> 'k ref \<Rightarrow> 'k ref \<Rightarrow> index_key_search_criteria_t \<Rightarrow> ptr \<Rightarrow>
   ptr list \<Rightarrow> ptr list \<Rightarrow> ptr list option" where
  "inorder_loop cmp t key1 key2 criteria current stack results =
     (if current = NULL \<and> stack = [] then Some results
      else do {
        s \<leftarrow> descend_loop cmp t key1 key2 criteria current stack;
        let current1 = (if snd s = [] then fst s else hd (snd s));
        let results1 = (if snd s = [] then results else results @ [hd (snd s)]);
        current2 \<leftarrow> (if current1 = NULL then Some NULL
                      else do { n \<leftarrow> rbnode t current1; Some (rb_right n) });
        inorder_loop cmp t key1 key2 criteria current2 (tl (snd s)) results1
      })"

declare inorder_loop.simps [code]

definition rbtree_inorder ::
  "bool \<Rightarrow> bool \<Rightarrow> ('k, 'd) index_t ref \<Rightarrow> 'k ref \<Rightarrow> 'k ref \<Rightarrow> index_key_search_criteria_t \<Rightarrow>
   ptr list ref option" where
  "rbtree_inorder ok_stack ok_results idx key1 key2 criteria = (case idx of
     NULL \<Rightarrow> Some NULL
   | Ref i \<Rightarrow>
       if \<not> ok_stack \<or> \<not> ok_results then Some NULL
       else do {
         rbt \<leftarrow> ref_opt (metadata i);
         results \<leftarrow> inorder_loop (idx_comparator i) rbt key1 key2 criteria (rbt_root rbt) [] [];
         Some (Ref results)
       })"

record rbtree_iterator_t =
  rbi_size :: u64
  rbi_current_index :: u64
  rbi_items :: "ptr list"

definition rbtree_search ::
  "bool \<Rightarrow> bool \<Rightarrow> bool \<Rightarrow> bool \<Rightarrow> ('k, 'd) index_t ref \<Rightarrow> 'k ref \<Rightarrow> 'k ref \<Rightarrow>
   index_key_search_criteria_t \<Rightarrow> rbtree_iterator_t ref option" where
  "rbtree_search ok_iter ok_stack ok_results ok_iterator idx key1 key2 criteria = (case idx of
     NULL \<Rightarrow> Some NULL
   | Ref i \<Rightarrow>
       if metadata i = NULL \<or> \<not> ok_iter then Some NULL
       else do {
         items \<leftarrow> rbtree_inorder ok_stack ok_results (Ref i) key1 key2 criteria;
         Some (case items of
             NULL \<Rightarrow> NULL
           | Ref xs \<Rightarrow> if \<not> ok_iterator then NULL
               else Ref \<lparr>rbi_size = of_nat (length xs), rbi_current_index = 0, rbi_items = xs\<rparr>)
       })"

definition rbtree_create_iterator ::
  "bool \<Rightarrow> bool \<Rightarrow> bool \<Rightarrow> bool \<Rightarrow> ('k, 'd) index_t ref \<Rightarrow> rbtree_iterator_t ref option" where
  "rbtree_create_iterator ok_iter ok_stack ok_results ok_iterator idx =
     rbtree_search ok_iter ok_stack ok_results ok_iterator idx NULL NULL INDEXER_KEY_COMPARATOR_CRITERIA_NULL"

definition rbtree_iterator_end_of_index :: "rbtree_iterator_t \<Rightarrow> int" where
  "rbtree_iterator_end_of_index iter = (if rbi_current_index iter = rbi_size iter then 0 else 1)"

definition rbtree_iterator_next :: "rbtree_iterator_t \<Rightarrow> rbtree_iterator_t" where
  "rbtree_iterator_next iter =
     (let iter1 = iter\<lparr>rbi_current_index := rbi_current_index iter + 1\<rparr> in
      if rbi_current_index iter1 \<ge> rbi_size iter1 then iter1\<lparr>rbi_current_index := rbi_size iter1\<rparr>
      else iter1)"

text \<open>The node at the iterator's position; \<open>list_get_data_at_position\<close> is \<open>NULL\<close> beyond the end.\<close>

definition iterator_node :: "('k, 'd) rbtree_t \<Rightarrow> rbtree_iterator_t \<Rightarrow> ('k, 'd) rbtree_node_t option" where
  "iterator_node t iter =
     (let i = unat (rbi_current_index iter) in
      rbnode t (if i < length (rbi_items iter) then rbi_items iter ! i else NULL))"

definition rbtree_iterator_get_key :: "('k, 'd) rbtree_t \<Rightarrow> rbtree_iterator_t \<Rightarrow> 'k ref option" where
  "rbtree_iterator_get_key t iter =
     (if rbi_current_index iter = rbi_size iter then Some NULL
      else do { cn \<leftarrow> iterator_node t iter; Some (rb_key cn) })"

definition rbtree_iterator_get_data :: "('k, 'd) rbtree_t \<Rightarrow> rbtree_iterator_t \<Rightarrow> 'd ref option" where
  "rbtree_iterator_get_data t iter =
     (if rbi_current_index iter = rbi_size iter then Some NULL
      else do { cn \<leftarrow> iterator_node t iter; Some (rb_data cn) })"

end
