(* ===== verification/RBTree_Inv.thy ===== *)
theory RBTree_Inv
  imports RBTree
begin

text \<open>
  The tree a heap of nodes represents. \<open>rtree\<close> is the shape of the tree with the address, the
  color, the key and the data of every node; a list of frames is the path from a node up to the
  root (innermost first) with the subtrees beside it, so that \<open>fill C t\<close> is the whole tree in which
  \<open>t\<close> stands at the end of the path. The rotations and the small helpers of the code are described
  by what they do at a node of the represented tree.
\<close>

abbreviation red :: rbtree_color_t where "red \<equiv> RBTREE_COLOR_RED"
abbreviation black :: rbtree_color_t where "black \<equiv> RBTREE_COLOR_BLACK"

datatype ('k, 'd) rtree =
  Lf | Nd rbtree_color_t "('k, 'd) rtree" nat "'k ref \<times> 'd ref" "('k, 'd) rtree"

datatype ('k, 'd) frame =
    InLeft rbtree_color_t nat "'k ref \<times> 'd ref" "('k, 'd) rtree"
  | InRight rbtree_color_t nat "'k ref \<times> 'd ref" "('k, 'd) rtree"

fun addrs :: "('k, 'd) rtree \<Rightarrow> nat list" where
  "addrs Lf = []"
| "addrs (Nd c l a e r) = addrs l @ a # addrs r"

fun entries :: "('k, 'd) rtree \<Rightarrow> ('k ref \<times> 'd ref) list" where
  "entries Lf = []"
| "entries (Nd c l a e r) = entries l @ e # entries r"

fun root_of :: "('k, 'd) rtree \<Rightarrow> ptr" where
  "root_of Lf = NULL"
| "root_of (Nd c l a e r) = Ref a"

abbreviation mk_node :: "ptr \<Rightarrow> ptr \<Rightarrow> ptr \<Rightarrow> rbtree_color_t \<Rightarrow> 'k ref \<times> 'd ref \<Rightarrow> ('k, 'd) rbtree_node_t" where
  "mk_node p l r c e \<equiv>
     \<lparr>rb_parent = p, rb_left = l, rb_right = r, rb_color = c, rb_key = fst e, rb_data = snd e\<rparr>"

fun tree_at :: "(nat \<rightharpoonup> ('k, 'd) rbtree_node_t) \<Rightarrow> ptr \<Rightarrow> ('k, 'd) rtree \<Rightarrow> bool" where
  "tree_at h p Lf \<longleftrightarrow> True"
| "tree_at h p (Nd c l a e r) \<longleftrightarrow>
     h a = Some (mk_node p (root_of l) (root_of r) c e) \<and> tree_at h (Ref a) l \<and> tree_at h (Ref a) r"

fun fill :: "('k, 'd) frame list \<Rightarrow> ('k, 'd) rtree \<Rightarrow> ('k, 'd) rtree" where
  "fill [] t = t"
| "fill (InLeft c a e r # C) t = fill C (Nd c t a e r)"
| "fill (InRight c a e l # C) t = fill C (Nd c l a e t)"

fun faddr :: "('k, 'd) frame \<Rightarrow> nat" where
  "faddr (InLeft c a e r) = a"
| "faddr (InRight c a e l) = a"

fun fcolor :: "('k, 'd) frame \<Rightarrow> rbtree_color_t" where
  "fcolor (InLeft c a e r) = c"
| "fcolor (InRight c a e l) = c"

fun beside :: "('k, 'd) frame \<Rightarrow> ('k, 'd) rtree" where
  "beside (InLeft c a e r) = r"
| "beside (InRight c a e l) = l"

definition up :: "('k, 'd) frame list \<Rightarrow> ptr" where
  "up C = (case C of [] \<Rightarrow> NULL | f # _ \<Rightarrow> Ref (faddr f))"

lemma up_simps [simp]: "up [] = NULL" "up (f # C) = Ref (faddr f)"
  by (simp_all add: up_def)

fun ctx_at :: "(nat \<rightharpoonup> ('k, 'd) rbtree_node_t) \<Rightarrow> ptr \<Rightarrow> ('k, 'd) frame list \<Rightarrow> bool" where
  "ctx_at h hole [] \<longleftrightarrow> True"
| "ctx_at h hole (InLeft c a e r # C) \<longleftrightarrow>
     h a = Some (mk_node (up C) hole (root_of r) c e) \<and> tree_at h (Ref a) r \<and> ctx_at h (Ref a) C"
| "ctx_at h hole (InRight c a e l # C) \<longleftrightarrow>
     h a = Some (mk_node (up C) (root_of l) hole c e) \<and> tree_at h (Ref a) l \<and> ctx_at h (Ref a) C"

definition caddrs :: "('k, 'd) frame list \<Rightarrow> nat list" where
  "caddrs C = concat (map (\<lambda>f. faddr f # addrs (beside f)) C)"

lemma caddrs_simps [simp]:
  "caddrs [] = []" "caddrs (f # C) = faddr f # addrs (beside f) @ caddrs C"
  by (simp_all add: caddrs_def)

definition croot :: "('k, 'd) frame list \<Rightarrow> ptr \<Rightarrow> ptr" where
  "croot C p = (if C = [] then p else Ref (faddr (last C)))"

lemma croot_simps [simp]: "croot [] p = p" "croot (f # C) p = croot C (Ref (faddr f))"
  by (simp_all add: croot_def)

lemma root_fill [simp]: "root_of (fill C t) = croot C (root_of t)"
  by (induction C t rule: fill.induct) simp_all

lemma mset_addrs_fill: "mset (addrs (fill C t)) = mset (caddrs C) + mset (addrs t)"
  by (induction C t rule: fill.induct) simp_all

lemma set_addrs_fill [simp]: "set (addrs (fill C t)) = set (caddrs C) \<union> set (addrs t)"
  using arg_cong [OF mset_addrs_fill, of set_mset C t] by simp

lemma distinct_addrs_fill [simp]: "distinct (addrs (fill C t)) \<longleftrightarrow> distinct (caddrs C @ addrs t)"
proof -
  have "mset (addrs (fill C t)) = mset (caddrs C @ addrs t)" by (simp add: mset_addrs_fill)
  then show ?thesis by (metis mset_eq_imp_distinct_iff)
qed

lemma tree_at_fill [simp]: "tree_at h NULL (fill C t) \<longleftrightarrow> tree_at h (up C) t \<and> ctx_at h (root_of t) C"
  by (induction C t rule: fill.induct) auto

lemma tree_at_frame [simp]: "a \<notin> set (addrs t) \<Longrightarrow> tree_at (h(a := x)) p t = tree_at h p t"
  by (induction t arbitrary: p) auto

lemma ctx_at_frame [simp]: "a \<notin> set (caddrs C) \<Longrightarrow> ctx_at (h(a := x)) p C = ctx_at h p C"
  by (induction h p C rule: ctx_at.induct) auto

lemma root_of_in: "root_of t = Ref a \<Longrightarrow> a \<in> set (addrs t)"
  by (cases t) auto

lemma croot_in: "croot C p = Ref a \<Longrightarrow> C \<noteq> [] \<Longrightarrow> a \<in> set (caddrs C)"
  by (induction C arbitrary: p) (auto simp: croot_def split: if_splits)

lemma root_of_neq [simp]: "a \<notin> set (addrs t) \<Longrightarrow> root_of t \<noteq> Ref a" "a \<notin> set (addrs t) \<Longrightarrow> Ref a \<noteq> root_of t"
  using root_of_in [of t a] by metis+

lemma croot_neq [simp]:
  "a \<notin> set (caddrs C) \<Longrightarrow> C \<noteq> [] \<Longrightarrow> croot C p \<noteq> Ref a" "a \<notin> set (caddrs C) \<Longrightarrow> C \<noteq> [] \<Longrightarrow> Ref a \<noteq> croot C p"
  using croot_in [of C p a] by metis+

lemma croot_Ref_neq [simp]:
  "a \<notin> set (caddrs C) \<Longrightarrow> a \<noteq> b \<Longrightarrow> croot C (Ref b) \<noteq> Ref a" "a \<notin> set (caddrs C) \<Longrightarrow> a \<noteq> b \<Longrightarrow> Ref a \<noteq> croot C (Ref b)"
  using croot_neq [of a C "Ref b"] by (cases "C = []"; simp)+

text \<open>\<open>rep sz lk T t\<close>: the nodes of \<open>T\<close> are exactly those of \<open>t\<close>, its size field is \<open>sz\<close>.\<close>

definition rep :: "u64 \<Rightarrow> bool \<Rightarrow> ('k, 'd) rbtree_t \<Rightarrow> ('k, 'd) rtree \<Rightarrow> bool" where
  "rep sz lk T t \<longleftrightarrow> rbt_size T = sz \<and> rbt_locked T = lk \<and> rbt_root T = root_of t \<and>
     tree_at (rbt_nodes T) NULL t \<and> distinct (addrs t) \<and> dom (rbt_nodes T) = set (addrs t)"

lemmas heap_ops = rbnode_def set_rbnode_def free_rbnode_def

subsection \<open>Reading nodes\<close>

lemma rep_node:
  assumes "rep sz lk T (fill C (Nd c l a e r))"
  shows "rbnode T (Ref a) = Some (mk_node (up C) (root_of l) (root_of r) c e)"
  using assms by (simp add: rep_def rbnode_def)

lemma rep_on_left:
  assumes "rep sz lk T (fill (f # C) (Nd c l a e r))"
  shows "rbtree_node_is_on_left T (Ref a) = Some (case f of InLeft _ _ _ _ \<Rightarrow> True | InRight _ _ _ _ \<Rightarrow> False)"
  using assms by (cases f) (auto simp: rep_def rbnode_def rbtree_node_is_on_left_def)

lemma rep_sibling:
  assumes "rep sz lk T (fill (f # C) (Nd c l a e r))"
  shows "rbtree_node_sibling T (Ref a) = Some (root_of (beside f))"
  using assms by (cases f) (auto simp: rep_def rbnode_def rbtree_node_is_on_left_def rbtree_node_sibling_def)

lemma rep_uncle:
  assumes "rep sz lk T (fill (f # g # C) (Nd c l a e r))"
  shows "rbtree_node_uncle T (Ref a) = Some (root_of (beside g))"
  using assms
  by (cases f; cases g) (auto simp: rep_def rbnode_def rbtree_node_is_on_left_def rbtree_node_uncle_def)

fun col :: "('k, 'd) rtree \<Rightarrow> rbtree_color_t" where
  "col Lf = black"
| "col (Nd c l a e r) = c"

lemma rep_red:
  assumes "rep sz lk T (fill C t)"
  shows "is_red T (root_of t) = Some (col t = red)"
  using assms by (cases t) (auto simp: rep_def rbnode_def is_red_def)

lemma rep_is_root:
  assumes "rep sz lk T (fill C (Nd c l a e r))"
  shows "Ref a = rbt_root T \<longleftrightarrow> C = []"
  using assms by (cases C) (auto simp: rep_def simp del: croot_simps)

subsection \<open>Changing nodes\<close>

lemma set_color_ok:
  assumes "rep sz lk T (fill C (Nd c l a e r))"
  shows "\<exists>T'. set_color (Ref a) c' T = Some T' \<and> rep sz lk T' (fill C (Nd c' l a e r))"
  using assms by (auto simp: rep_def set_rbnode_def)

lemmas rotate_simps = rep_def rbtree_left_rotate_def rbtree_right_rotate_def heap_ops
  rbtree_node_move_down_def rbtree_node_is_on_left_def Let_def insert_commute Un_ac

lemma left_rotate_ok:
  assumes "rep sz lk T (fill C (Nd c l a e (Nd c2 rl b e2 rr)))"
  shows "\<exists>T'. rbtree_left_rotate (Ref a) T = Some T' \<and> rep sz lk T' (fill C (Nd c2 (Nd c l a e rl) b e2 rr))"
proof (cases C)
  case Nil
  show ?thesis
    using assms unfolding Nil by (cases rl) (auto simp: rotate_simps)
next
  case (Cons f D)
  show ?thesis
    using assms unfolding Cons by (cases rl; cases f) (simp_all add: rotate_simps)
qed

lemma right_rotate_ok:
  assumes "rep sz lk T (fill C (Nd c (Nd c2 ll b e2 lr) a e r))"
  shows "\<exists>T'. rbtree_right_rotate (Ref a) T = Some T' \<and> rep sz lk T' (fill C (Nd c2 ll b e2 (Nd c lr a e r)))"
proof (cases C)
  case Nil
  show ?thesis
    using assms unfolding Nil by (cases lr) (auto simp: rotate_simps)
next
  case (Cons f D)
  show ?thesis
    using assms unfolding Cons by (cases lr; cases f) (simp_all add: rotate_simps)
qed

end
