(* ===== verification/RBTree_Balance.thy ===== *)
theory RBTree_Balance
  imports RBTree_Inv
begin

text \<open>
  The red-black invariant and the repair of two red nodes in a row after an insertion.
\<close>

subsection \<open>The invariant\<close>

fun bheight :: "('k, 'd) rtree \<Rightarrow> nat" where
  "bheight Lf = 0"
| "bheight (Nd c l a e r) = bheight l + (if c = black then 1 else 0)"

fun invh :: "('k, 'd) rtree \<Rightarrow> bool" where
  "invh Lf \<longleftrightarrow> True"
| "invh (Nd c l a e r) \<longleftrightarrow> invh l \<and> invh r \<and> bheight l = bheight r"

fun invc :: "('k, 'd) rtree \<Rightarrow> bool" where
  "invc Lf \<longleftrightarrow> True"
| "invc (Nd c l a e r) \<longleftrightarrow> invc l \<and> invc r \<and>
     (c = red \<longrightarrow> col l = black \<and> col r = black)"

definition is_rb :: "('k, 'd) rtree \<Rightarrow> bool" where
  "is_rb t \<longleftrightarrow> invc t \<and> invh t \<and> col t = black"

text \<open>What a path asks of the tree at its end: \<open>h\<close> is its black height.\<close>

fun red_ok :: "('k, 'd) frame list \<Rightarrow> bool" where
  "red_ok [] \<longleftrightarrow> False"
| "red_ok (f # C) \<longleftrightarrow> fcolor f = black"

fun cinv :: "('k, 'd) frame list \<Rightarrow> nat \<Rightarrow> bool" where
  "cinv [] h \<longleftrightarrow> True"
| "cinv (f # C) h \<longleftrightarrow> invc (beside f) \<and> invh (beside f) \<and> bheight (beside f) = h \<and>
     (fcolor f = red \<longrightarrow> col (beside f) = black \<and> red_ok C) \<and>
     cinv C (h + (if fcolor f = black then 1 else 0))"

lemma not_red [simp]: "c \<noteq> red \<longleftrightarrow> c = black" "c \<noteq> black \<longleftrightarrow> c = red"
  by (cases c; simp)+

lemma is_rb_fill: "is_rb (fill C t) \<longleftrightarrow>
    invc t \<and> invh t \<and> (col t = red \<longrightarrow> red_ok C) \<and> cinv C (bheight t)"
  by (induction C t rule: fill.induct) (auto simp: is_rb_def)

subsection \<open>Contents\<close>

fun cleft :: "('k, 'd) frame list \<Rightarrow> ('k ref \<times> 'd ref) list" where
  "cleft [] = []"
| "cleft (InLeft c a e r # C) = cleft C"
| "cleft (InRight c a e l # C) = cleft C @ entries l @ [e]"

fun cright :: "('k, 'd) frame list \<Rightarrow> ('k ref \<times> 'd ref) list" where
  "cright [] = []"
| "cright (InLeft c a e r # C) = e # entries r @ cright C"
| "cright (InRight c a e l # C) = cright C"

lemma entries_fill: "entries (fill C t) = cleft C @ entries t @ cright C"
  by (induction C t rule: fill.induct) simp_all

definition same_nodes :: "('k, 'd) rtree \<Rightarrow> ('k, 'd) rtree \<Rightarrow> bool" where
  "same_nodes t t' \<longleftrightarrow> entries t' = entries t \<and> mset (addrs t') = mset (addrs t)"

lemma same_nodes_fill:
  "entries t' = entries t \<Longrightarrow> mset (addrs t') = mset (addrs t) \<Longrightarrow> same_nodes (fill C t) (fill C t')"
  by (simp add: same_nodes_def entries_fill mset_addrs_fill)

subsection \<open>Recoloring along a path\<close>

fun recolor :: "rbtree_color_t \<Rightarrow> ('k, 'd) frame \<Rightarrow> ('k, 'd) frame" where
  "recolor c' (InLeft c a e r) = InLeft c' a e r"
| "recolor c' (InRight c a e l) = InRight c' a e l"

fun put_beside :: "('k, 'd) rtree \<Rightarrow> ('k, 'd) frame \<Rightarrow> ('k, 'd) frame" where
  "put_beside s (InLeft c a e r) = InLeft c a e s"
| "put_beside s (InRight c a e l) = InRight c a e s"

lemma frame_simps [simp]:
  "fcolor (recolor c f) = c" "faddr (recolor c f) = faddr f" "beside (recolor c f) = beside f"
  "fcolor (put_beside s f) = fcolor f" "faddr (put_beside s f) = faddr f" "beside (put_beside s f) = s"
  "recolor c (recolor c' f) = recolor c f"
  by (cases f; simp)+

lemma cleft_recolor [simp]:
  "cleft (recolor c f # C) = cleft (f # C)" "cright (recolor c f # C) = cright (f # C)"
  by (cases f; simp)+

lemma put_beside_entries:
  assumes "entries s = entries (beside f)"
  shows "cleft (put_beside s f # C) = cleft (f # C)" "cright (put_beside s f # C) = cright (f # C)"
  using assms by (cases f; simp)+

lemma set_color_frame:
  assumes "rep sz lk T (fill (f # C) t)"
  shows "\<exists>T'. set_color (Ref (faddr f)) c T = Some T' \<and> rep sz lk T' (fill (recolor c f # C) t)"
  using assms set_color_ok [of sz lk T C] by (cases f) simp_all

lemma set_color_beside:
  assumes "rep sz lk T (fill (f # C) t)" "beside f = Nd c l b e r"
  shows "\<exists>T'. set_color (Ref b) c' T = Some T' \<and> rep sz lk T' (fill (put_beside (Nd c' l b e r) f # C) t)"
proof (cases f)
  case (InLeft c1 a e1 s)
  then show ?thesis using assms set_color_ok [of sz lk T "InRight c1 a e1 t # C"] by simp
next
  case (InRight c1 a e1 s)
  then show ?thesis using assms set_color_ok [of sz lk T "InLeft c1 a e1 t # C"] by simp
qed

lemma rep_frame:
  assumes "rep sz lk T (fill (f # C) t)"
  shows "\<exists>n. rbnode T (Ref (faddr f)) = Some n \<and> rb_parent n = up C \<and> rb_color n = fcolor f"
  using assms rep_node [of sz lk T C] by (cases f) auto

lemma rep_beside:
  assumes "rep sz lk T (fill (f # C) t)" "beside f = Nd c l b e r"
  shows "rbnode T (Ref b) = Some (mk_node (Ref (faddr f)) (root_of l) (root_of r) c e)"
  using assms rep_node [of sz lk T "InRight (fcolor f) (faddr f) _ t # C"] 
    rep_node [of sz lk T "InLeft (fcolor f) (faddr f) _ t # C"] by (cases f) auto

lemma rep_beside_red:
  assumes "rep sz lk T (fill (f # C) t)"
  shows "is_red T (root_of (beside f)) = Some (col (beside f) = red)"
  using assms rep_red [of sz lk T "InRight (fcolor f) (faddr f) _ t # C"]
    rep_red [of sz lk T "InLeft (fcolor f) (faddr f) _ t # C"] by (cases f) auto

lemma rep_uncle':
  assumes "rep sz lk T (fill (f # C) (Nd c l a e r))"
  shows "rbtree_node_uncle T (Ref a) = Some (case C of [] \<Rightarrow> NULL | g # _ \<Rightarrow> root_of (beside g))"
proof (cases C)
  case Nil
  then show ?thesis using assms rep_node [OF assms] rep_frame [OF assms]
    by (auto simp: rbtree_node_uncle_def)
qed (use assms rep_uncle in simp)

subsection \<open>Two red nodes in a row\<close>

lemma swap_colors_eq:
  "rbnode T p = Some n1 \<Longrightarrow> rbnode T q = Some n2 \<Longrightarrow>
   rbtree_node_swap_colors p q T = do { T1 \<leftarrow> set_color p (rb_color n2) T; set_color q (rb_color n1) T1 }"
  by (simp add: rbtree_node_swap_colors_def)

lemma swap_root_frame:
  assumes "rep sz lk T (fill (g # C) (Nd c l a e r))"
  shows "\<exists>T'. rbtree_node_swap_colors (Ref a) (Ref (faddr g)) T = Some T' \<and>
    rep sz lk T' (fill (recolor c g # C) (Nd (fcolor g) l a e r))"
proof -
  obtain n where n: "rbnode T (Ref (faddr g)) = Some n" "rb_color n = fcolor g"
    using rep_frame [OF assms] by auto
  obtain T1 where "set_color (Ref a) (fcolor g) T = Some T1" "rep sz lk T1 (fill (g # C) (Nd (fcolor g) l a e r))"
    using set_color_ok [OF assms] by blast
  with set_color_frame [OF this(2), of c] show ?thesis
    by (simp add: swap_colors_eq [OF rep_node [OF assms] n(1)] n(2))
qed

lemma rotate_redred_left_left:
  assumes "rep sz lk T (fill (InLeft black g ge u # C) (Nd red (Nd red l a e r) p pe s))"
  shows "\<exists>T'. rotate_redred (Ref a) (Ref p) (Ref g) T = Some T' \<and> rep sz lk T'
    (fill C (Nd black (Nd red l a e r) p pe (Nd red s g ge u)))"
proof -
  obtain T1 where "rbtree_node_swap_colors (Ref p) (Ref g) T = Some T1"
    "rep sz lk T1 (fill C (Nd red (Nd black (Nd red l a e r) p pe s) g ge u))"
    using swap_root_frame [OF assms] by auto
  with right_rotate_ok [OF this(2)] show ?thesis
    using rep_on_left [OF assms] rep_on_left [of sz lk T "InLeft red p pe s" "InLeft black g ge u # C"] assms
    by (simp add: rotate_redred_def)
qed

lemma rotate_redred_left_right:
  assumes "rep sz lk T (fill (InLeft black g ge u # C) (Nd red s p pe (Nd red l a e r)))"
  shows "\<exists>T'. rotate_redred (Ref a) (Ref p) (Ref g) T = Some T' \<and> rep sz lk T'
    (fill C (Nd black (Nd red s p pe l) a e (Nd red r g ge u)))"
proof -
  obtain T1 where 1: "rbtree_left_rotate (Ref p) T = Some T1"
    "rep sz lk T1 (fill (InLeft black g ge u # C) (Nd red (Nd red s p pe l) a e r))"
    using left_rotate_ok [OF assms] by auto
  obtain T2 where "rbtree_node_swap_colors (Ref a) (Ref g) T1 = Some T2"
    "rep sz lk T2 (fill C (Nd red (Nd black (Nd red s p pe l) a e r) g ge u))"
    using swap_root_frame [OF 1(2)] by auto
  with 1 right_rotate_ok [OF this(2)] show ?thesis
    using rep_on_left [OF assms] rep_on_left [of sz lk T "InRight red p pe s" "InLeft black g ge u # C"] assms
    by (simp add: rotate_redred_def)
qed

lemma rotate_redred_right_left:
  assumes "rep sz lk T (fill (InRight black g ge u # C) (Nd red (Nd red l a e r) p pe s))"
  shows "\<exists>T'. rotate_redred (Ref a) (Ref p) (Ref g) T = Some T' \<and> rep sz lk T'
    (fill C (Nd black (Nd red u g ge l) a e (Nd red r p pe s)))"
proof -
  obtain T1 where 1: "rbtree_right_rotate (Ref p) T = Some T1"
    "rep sz lk T1 (fill (InRight black g ge u # C) (Nd red l a e (Nd red r p pe s)))"
    using right_rotate_ok [OF assms] by auto
  obtain T2 where "rbtree_node_swap_colors (Ref a) (Ref g) T1 = Some T2"
    "rep sz lk T2 (fill C (Nd red u g ge (Nd black l a e (Nd red r p pe s))))"
    using swap_root_frame [OF 1(2)] by auto
  with 1 left_rotate_ok [OF this(2)] show ?thesis
    using rep_on_left [OF assms] rep_on_left [of sz lk T "InLeft red p pe s" "InRight black g ge u # C"] assms
    by (simp add: rotate_redred_def)
qed

lemma rotate_redred_right_right:
  assumes "rep sz lk T (fill (InRight black g ge u # C) (Nd red s p pe (Nd red l a e r)))"
  shows "\<exists>T'. rotate_redred (Ref a) (Ref p) (Ref g) T = Some T' \<and> rep sz lk T'
    (fill C (Nd black (Nd red u g ge s) p pe (Nd red l a e r)))"
proof -
  obtain T1 where "rbtree_node_swap_colors (Ref p) (Ref g) T = Some T1"
    "rep sz lk T1 (fill C (Nd red u g ge (Nd black s p pe (Nd red l a e r))))"
    using swap_root_frame [OF assms] by auto
  with left_rotate_ok [OF this(2)] show ?thesis
    using rep_on_left [OF assms] rep_on_left [of sz lk T "InRight red p pe s" "InRight black g ge u # C"] assms
    by (simp add: rotate_redred_def)
qed

lemma rotate_redred_ok:
  assumes "rep sz lk T (fill (f # g # C) t)" "t = Nd red l a e r"
    and "fcolor f = red" "fcolor g = black" "col (beside g) = black"
    and "cinv (f # g # C) (bheight t)" "invc t" "invh t"
  shows "\<exists>T' t'. rotate_redred (Ref a) (Ref (faddr f)) (Ref (faddr g)) T = Some T' \<and> rep sz lk T' t' \<and> is_rb t' \<and>
    same_nodes (fill (f # g # C) t) t'"
proof (cases g)
  case g: (InLeft cg ga ge u)
  show ?thesis
  proof (cases f)
    case (InLeft cf p pe s)
    with g assms show ?thesis using rotate_redred_left_left [of sz lk T ga ge u C l a e r p pe s]
      by (auto 0 3 simp: is_rb_fill intro!: same_nodes_fill)
  next
    case (InRight cf p pe s)
    with g assms show ?thesis using rotate_redred_left_right [of sz lk T ga ge u C s p pe l a e r]
      by (auto 0 3 simp: is_rb_fill intro!: same_nodes_fill)
  qed
next
  case g: (InRight cg ga ge u)
  show ?thesis
  proof (cases f)
    case (InLeft cf p pe s)
    with g assms show ?thesis using rotate_redred_right_left [of sz lk T ga ge u C l a e r p pe s]
      by (auto 0 3 simp: is_rb_fill intro!: same_nodes_fill)
  next
    case (InRight cf p pe s)
    with g assms show ?thesis using rotate_redred_right_right [of sz lk T ga ge u C s p pe l a e r]
      by (auto 0 3 simp: is_rb_fill intro!: same_nodes_fill)
  qed
qed

fun join :: "('k, 'd) frame \<Rightarrow> ('k, 'd) rtree \<Rightarrow> ('k, 'd) rtree" where
  "join (InLeft c a e r) t = Nd c t a e r"
| "join (InRight c a e l) t = Nd c l a e t"

lemma fill_Cons: "fill (f # C) t = fill C (join f t)"
  by (cases f) simp_all

lemma join_simps [simp]:
  "root_of (join f t) = Ref (faddr f)" "col (join f t) = fcolor f"
  "invh (join f t) \<longleftrightarrow> invh t \<and> invh (beside f) \<and> bheight t = bheight (beside f)"
  "invc (join f t) \<longleftrightarrow> invc t \<and> invc (beside f) \<and> (fcolor f = red \<longrightarrow> col t = black \<and> col (beside f) = black)"
  by (cases f; auto)+

lemma bheight_join: "bheight t = bheight (beside f) \<Longrightarrow> bheight (join f t) = bheight t + (if fcolor f = black then 1 else 0)"
  by (cases f) auto

lemma recolor_redred_ok:
  assumes "rep sz lk T (fill (f # g # C) t)" "beside g = Nd c ul u ue ur"
  shows "\<exists>T1 T2 T3. set_color (Ref (faddr f)) black T = Some T1 \<and> set_color (Ref u) black T1 = Some T2 \<and>
    set_color (Ref (faddr g)) red T2 = Some T3 \<and>
    rep sz lk T3 (fill (recolor black f # recolor red (put_beside (Nd black ul u ue ur) g) # C) t)"
proof -
  obtain T1 where 1: "set_color (Ref (faddr f)) black T = Some T1" "rep sz lk T1 (fill (g # C) (join (recolor black f) t))"
    using set_color_frame [OF assms(1)] by (auto simp: fill_Cons)
  obtain T2 where 2: "set_color (Ref u) black T1 = Some T2"
    "rep sz lk T2 (fill (put_beside (Nd black ul u ue ur) g # C) (join (recolor black f) t))"
    using set_color_beside [OF 1(2) assms(2)] by blast
  with 1 set_color_frame [OF 2(2), of red] show ?thesis by (auto simp: fill_Cons)
qed

lemma same_nodes_recolor:
  assumes "beside g = Nd c ul u ue ur"
  shows "same_nodes (fill (f # g # C) t) (fill (recolor c1 f # recolor c2 (put_beside (Nd c3 ul u ue ur) g) # C) t)"
  using assms by (cases f; cases g) (auto intro!: same_nodes_fill)

lemma same_nodes_trans: "same_nodes t u \<Longrightarrow> same_nodes u v \<Longrightarrow> same_nodes t v"
  by (simp add: same_nodes_def)

lemma fix_redred_ok:
  assumes "rep sz lk T (fill C t)" "root_of t = Ref a" "col t = red" "invc t" "invh t" "cinv C (bheight t)"
  shows "\<exists>T' t'. rbtree_fix_redred T (Ref a) = Some T' \<and> rep sz lk T' t' \<and> is_rb t' \<and> same_nodes (fill C t) t'"
  using assms
proof (induction "length C" arbitrary: T C t a rule: less_induct)
  case less
  obtain l e r where t: "t = Nd red l a e r"
    using less.prems(2,3) by (cases t) auto
  note rp = less.prems(1) [unfolded t]
  show ?case
  proof (cases C)
    case Nil
    then show ?thesis
      using set_color_ok [OF rp, of black] rep_is_root [OF rp] less.prems t
      by (auto simp: rbtree_fix_redred.simps [of T] is_rb_def same_nodes_def intro!: exI [of _ "Nd black l a e r"])
  next
    case f: (Cons f D)
    note rpf = rp [unfolded f]
    obtain n where n: "rbnode T (Ref (faddr f)) = Some n" "rb_parent n = up D" "rb_color n = fcolor f"
      using rep_frame [OF rpf] by auto
    note step = rbtree_fix_redred.simps [of T "Ref a"] rep_node [OF rpf] rep_uncle' [OF rpf]
      rep_is_root [OF rp] n Let_def
    show ?thesis
    proof (cases "fcolor f")
      case RBTREE_COLOR_BLACK
      then show ?thesis using less.prems f t
        by (intro exI [of _ T] exI [of _ "fill C t"]) (auto simp: step is_rb_fill same_nodes_def)
    next
      case fr: RBTREE_COLOR_RED
      then obtain g E where D: "D = g # E" and g: "fcolor g = black"
        using less.prems f by (cases D) auto
      have red: "is_red T (root_of (beside g)) = Some (col (beside g) = red)"
        using rep_beside_red [of sz lk T g E "join f t"] less.prems(1) f D by (simp add: fill_Cons)
      show ?thesis
      proof (cases "col (beside g)")
        case RBTREE_COLOR_BLACK
        then show ?thesis using rotate_redred_ok [of sz lk T f g E t l a e r] less.prems f D t fr g
          by (simp add: step red)
      next
        case gr: RBTREE_COLOR_RED
        then obtain ul u ue ur where u: "beside g = Nd red ul u ue ur" by (cases "beside g") auto
        let ?f = "recolor black f" and ?g = "recolor red (put_beside (Nd black ul u ue ur) g)"
        obtain T1 T2 T3 where T: "set_color (Ref (faddr f)) black T = Some T1" "set_color (Ref u) black T1 = Some T2"
          "set_color (Ref (faddr g)) red T2 = Some T3" "rep sz lk T3 (fill (?f # ?g # E) t)"
          using recolor_redred_ok [OF _ u] less.prems(1) f D by blast
        obtain T' t' where "rbtree_fix_redred T3 (Ref (faddr g)) = Some T'" "rep sz lk T' t'" "is_rb t'"
            "same_nodes (fill E (join ?g (join ?f t))) t'"
          using less.hyps [of E T3 "join ?g (join ?f t)" "faddr g"] less.prems T(4) f D fr g u
          by (auto simp: fill_Cons bheight_join)
        moreover have "same_nodes (fill C t) (fill E (join ?g (join ?f t)))"
          using same_nodes_recolor [OF u, of f E t black red black] by (simp add: f D fill_Cons)
        moreover have "rbtree_fix_redred T (Ref a) = rbtree_fix_redred T3 (Ref (faddr g))"
          using T(1-3) red [unfolded u] by (simp add: step fr f D u)
        ultimately show ?thesis by (auto intro: same_nodes_trans)
      qed
    qed
  qed
qed

end
