(* ===== verification/RBTree_Repair.thy ===== *)
theory RBTree_Repair
  imports RBTree_Balance
begin

text \<open>
  The repair of a missing black node before or after a removal.
\<close>

subsection \<open>Rotations when the sibling has a red child\<close>

lemma rotate_blackblack_right_inner:
  assumes "rep sz lk T (fill E (Nd c s p pe (Nd black (Nd red x xa xe y) b be r)))"
  shows "\<exists>T'. rotate_blackblack (Ref b) (Ref p) T = Some T' \<and>
    rep sz lk T' (fill E (Nd c (Nd black s p pe x) xa xe (Nd black y b be r)))"
proof -
  let ?C = "InRight c p pe s # E"
  have rp: "rep sz lk T (fill ?C (Nd black (Nd red x xa xe y) b be r))" using assms by simp
  have red: "is_red T (Ref xa) = Some True"
    using rep_red [of sz lk T "InLeft black b be r # ?C" "Nd red x xa xe y"] assms by simp
  obtain T1 where 1: "set_color (Ref xa) c T = Some T1" "rep sz lk T1 (fill ?C (Nd black (Nd c x xa xe y) b be r))"
    using set_color_ok [of sz lk T "InLeft black b be r # ?C" red x xa xe y c] assms by auto
  obtain T2 where 2: "rbtree_right_rotate (Ref b) T1 = Some T2"
    "rep sz lk T2 (fill E (Nd c s p pe (Nd c x xa xe (Nd black y b be r))))"
    using right_rotate_ok [OF 1(2)] by auto
  obtain T3 where 3: "rbtree_left_rotate (Ref p) T2 = Some T3"
    "rep sz lk T3 (fill (InLeft c xa xe (Nd black y b be r) # E) (Nd c s p pe x))"
    using left_rotate_ok [OF 2(2)] by auto
  show ?thesis
    using set_color_ok [OF 3(2), of black] 1 2 3 rep_node [OF assms] rep_node [OF rp] rep_on_left [OF rp] red
    by (auto simp: rotate_blackblack_def)
qed

lemma rotate_blackblack_right_outer:
  assumes "rep sz lk T (fill E (Nd c s p pe (Nd black l b be (Nd red x xa xe y))))" "col l = black"
  shows "\<exists>T'. rotate_blackblack (Ref b) (Ref p) T = Some T' \<and>
    rep sz lk T' (fill E (Nd c (Nd black s p pe l) b be (Nd black x xa xe y)))"
proof -
  let ?C = "InRight c p pe s # E"
  have rp: "rep sz lk T (fill ?C (Nd black l b be (Nd red x xa xe y)))" using assms by simp
  have red: "is_red T (root_of l) = Some False"
    using rep_red [of sz lk T "InLeft black b be (Nd red x xa xe y) # ?C" l] assms by simp
  obtain T1 where 1: "set_color (Ref xa) black T = Some T1" "rep sz lk T1 (fill ?C (Nd black l b be (Nd black x xa xe y)))"
    using set_color_ok [of sz lk T "InRight black b be l # ?C" red x xa xe y black] assms by auto
  obtain T2 where 2: "set_color (Ref b) c T1 = Some T2"
    "rep sz lk T2 (fill E (Nd c s p pe (Nd c l b be (Nd black x xa xe y))))"
    using set_color_ok [OF 1(2)] by auto
  obtain T3 where 3: "rbtree_left_rotate (Ref p) T2 = Some T3"
    "rep sz lk T3 (fill (InLeft c b be (Nd black x xa xe y) # E) (Nd c s p pe l))"
    using left_rotate_ok [OF 2(2)] by auto
  show ?thesis
    using set_color_ok [OF 3(2), of black] 1 2 3 rep_node [OF assms(1)] rep_node [OF rp] rep_on_left [OF rp] red
    by (auto simp: rotate_blackblack_def)
qed

lemma rotate_blackblack_left_outer:
  assumes "rep sz lk T (fill E (Nd c (Nd black (Nd red x xa xe y) b be r) p pe s))"
  shows "\<exists>T'. rotate_blackblack (Ref b) (Ref p) T = Some T' \<and>
    rep sz lk T' (fill E (Nd c (Nd black x xa xe y) b be (Nd black r p pe s)))"
proof -
  let ?C = "InLeft c p pe s # E"
  have rp: "rep sz lk T (fill ?C (Nd black (Nd red x xa xe y) b be r))" using assms by simp
  have red: "is_red T (Ref xa) = Some True"
    using rep_red [of sz lk T "InLeft black b be r # ?C" "Nd red x xa xe y"] assms by simp
  obtain T1 where 1: "set_color (Ref xa) black T = Some T1" "rep sz lk T1 (fill ?C (Nd black (Nd black x xa xe y) b be r))"
    using set_color_ok [of sz lk T "InLeft black b be r # ?C" red x xa xe y black] assms by auto
  obtain T2 where 2: "set_color (Ref b) c T1 = Some T2"
    "rep sz lk T2 (fill E (Nd c (Nd c (Nd black x xa xe y) b be r) p pe s))"
    using set_color_ok [OF 1(2)] by auto
  obtain T3 where 3: "rbtree_right_rotate (Ref p) T2 = Some T3"
    "rep sz lk T3 (fill (InRight c b be (Nd black x xa xe y) # E) (Nd c r p pe s))"
    using right_rotate_ok [OF 2(2)] by auto
  show ?thesis
    using set_color_ok [OF 3(2), of black] 1 2 3 rep_node [OF assms] rep_node [OF rp] rep_on_left [OF rp] red
    by (auto simp: rotate_blackblack_def)
qed

lemma rotate_blackblack_left_inner:
  assumes "rep sz lk T (fill E (Nd c (Nd black l b be (Nd red x xa xe y)) p pe s))" "col l = black"
  shows "\<exists>T'. rotate_blackblack (Ref b) (Ref p) T = Some T' \<and>
    rep sz lk T' (fill E (Nd c (Nd black l b be x) xa xe (Nd black y p pe s)))"
proof -
  let ?C = "InLeft c p pe s # E"
  have rp: "rep sz lk T (fill ?C (Nd black l b be (Nd red x xa xe y)))" using assms by simp
  have red: "is_red T (root_of l) = Some False"
    using rep_red [of sz lk T "InLeft black b be (Nd red x xa xe y) # ?C" l] assms by simp
  obtain T1 where 1: "set_color (Ref xa) c T = Some T1" "rep sz lk T1 (fill ?C (Nd black l b be (Nd c x xa xe y)))"
    using set_color_ok [of sz lk T "InRight black b be l # ?C" red x xa xe y c] assms by auto
  obtain T2 where 2: "rbtree_left_rotate (Ref b) T1 = Some T2"
    "rep sz lk T2 (fill E (Nd c (Nd c (Nd black l b be x) xa xe y) p pe s))"
    using left_rotate_ok [OF 1(2)] by auto
  obtain T3 where 3: "rbtree_right_rotate (Ref p) T2 = Some T3"
    "rep sz lk T3 (fill (InRight c xa xe (Nd black l b be x) # E) (Nd c y p pe s))"
    using right_rotate_ok [OF 2(2)] by auto
  show ?thesis
    using set_color_ok [OF 3(2), of black] 1 2 3 rep_node [OF assms(1)] rep_node [OF rp] rep_on_left [OF rp] red
    by (auto simp: rotate_blackblack_def)
qed

subsection \<open>A missing black node\<close>

lemma fill_append: "fill (D @ C) t = fill C (fill D t)"
  by (induction D t rule: fill.induct) simp_all

lemma cleft_append [simp]: "cleft (D @ C) = cleft C @ cleft D" "cright (D @ C) = cright D @ cright C"
  by (induction D rule: cleft.induct) simp_all

lemma caddrs_append [simp]: "caddrs (D @ C) = caddrs D @ caddrs C"
  by (simp add: caddrs_def)

lemma up_append: "up (D @ C) = (if D = [] then up C else up D)"
  by (cases D) simp_all

text \<open>Paths with the same nodes and entries on either side, and the same node above their end.\<close>

definition same_path :: "('k, 'd) frame list \<Rightarrow> ('k, 'd) frame list \<Rightarrow> bool" where
  "same_path C C' \<longleftrightarrow> cleft C' = cleft C \<and> cright C' = cright C \<and> mset (caddrs C') = mset (caddrs C) \<and> up C' = up C"

lemma same_path_append: "same_path C C' \<Longrightarrow> same_path (D @ C) (D @ C')"
  by (simp add: same_path_def up_append)

lemma same_path_trans: "same_path A B \<Longrightarrow> same_path B C \<Longrightarrow> same_path A C"
  by (simp add: same_path_def)

text \<open>
  The end of the repair, at the parent: the path \<open>C'\<close> that replaces \<open>f # E\<close> has room for a tree of
  black height \<open>h\<close> where \<open>f # E\<close> wanted one more.
\<close>

lemma rotate_blackblack_ok:
  assumes "rep sz lk T (fill (f # E) s)" "beside f = Nd black l b be r" "col l = red \<or> col r = red"
    and "cinv (f # E) (h + 1)"
  shows "\<exists>T' C'. rotate_blackblack (Ref b) (Ref (faddr f)) T = Some T' \<and> rep sz lk T' (fill C' s) \<and>
    same_path (f # E) C' \<and> cinv C' h \<and> red_ok C'"
proof (cases f)
  case f: (InLeft c p pe b')
  show ?thesis
  proof (cases "col l = red")
    case True
    then obtain x xa xe y where l: "l = Nd red x xa xe y" by (cases l) auto
    obtain T' where "rotate_blackblack (Ref b) (Ref p) T = Some T'"
      "rep sz lk T' (fill E (Nd c (Nd black s p pe x) xa xe (Nd black y b be r)))"
      using rotate_blackblack_right_inner [of sz lk T E c s p pe x xa xe y b be r] assms(1,2) f l by auto
    then show ?thesis using assms(2,4) f l
      by (intro exI [of _ T'] exI [of _ "InLeft black p pe x # InLeft c xa xe (Nd black y b be r) # E"])
        (simp add: same_path_def)
  next
    case False
    then obtain x xa xe y where r: "r = Nd red x xa xe y" using assms(3) by (cases r) auto
    obtain T' where "rotate_blackblack (Ref b) (Ref p) T = Some T'"
      "rep sz lk T' (fill E (Nd c (Nd black s p pe l) b be (Nd black x xa xe y)))"
      using rotate_blackblack_right_outer [of sz lk T E c s p pe l b be x xa xe y] assms(1,2) f r False by auto
    then show ?thesis using assms(2,4) f r False
      by (intro exI [of _ T'] exI [of _ "InLeft black p pe l # InLeft c b be (Nd black x xa xe y) # E"])
        (simp add: same_path_def)
  qed
next
  case f: (InRight c p pe b')
  show ?thesis
  proof (cases "col l = red")
    case True
    then obtain x xa xe y where l: "l = Nd red x xa xe y" by (cases l) auto
    obtain T' where "rotate_blackblack (Ref b) (Ref p) T = Some T'"
      "rep sz lk T' (fill E (Nd c (Nd black x xa xe y) b be (Nd black r p pe s)))"
      using rotate_blackblack_left_outer [of sz lk T E c x xa xe y b be r p pe s] assms(1,2) f l by auto
    then show ?thesis using assms(2,4) f l
      by (intro exI [of _ T'] exI [of _ "InRight black p pe r # InRight c b be (Nd black x xa xe y) # E"])
        (simp add: same_path_def)
  next
    case False
    then obtain x xa xe y where r: "r = Nd red x xa xe y" using assms(3) by (cases r) auto
    obtain T' where "rotate_blackblack (Ref b) (Ref p) T = Some T'"
      "rep sz lk T' (fill E (Nd c (Nd black l b be x) xa xe (Nd black y p pe s)))"
      using rotate_blackblack_left_inner [of sz lk T E c l b be x xa xe y p pe s] assms(1,2) f r False by auto
    then show ?thesis using assms(2,4) f r False
      by (intro exI [of _ T'] exI [of _ "InRight black p pe y # InRight c xa xe (Nd black l b be x) # E"])
        (simp add: same_path_def)
  qed
qed

text \<open>The other way to end the repair or to pass it on to the parent: the sibling becomes red.\<close>

lemma red_sibling_ok:
  assumes "rep sz lk T (fill (f # E) s)" "beside f = Nd red l b be r" "cinv (f # E) h"
  shows "\<exists>T1 T2 T3 f' g'. set_color (Ref (faddr f)) red T = Some T1 \<and> set_color (Ref b) black T1 = Some T2 \<and>
    rbtree_node_is_on_left T2 (Ref b) = Some (case f of InLeft _ _ _ _ \<Rightarrow> False | InRight _ _ _ _ \<Rightarrow> True) \<and>
    (case f of InLeft _ _ _ _ \<Rightarrow> rbtree_left_rotate | InRight _ _ _ _ \<Rightarrow> rbtree_right_rotate) (Ref (faddr f)) T2 = Some T3 \<and>
    rep sz lk T3 (fill (f' # g' # E) s) \<and> same_path (f # E) (f' # g' # E) \<and> cinv (f' # g' # E) h \<and>
    fcolor f' = red"
proof -
  obtain T1 where 1: "set_color (Ref (faddr f)) red T = Some T1" "rep sz lk T1 (fill (recolor red f # E) s)"
    using set_color_frame [OF assms(1)] by blast
  obtain T2 where 2: "set_color (Ref b) black T1 = Some T2"
    "rep sz lk T2 (fill (put_beside (Nd black l b be r) (recolor red f) # E) s)"
    using set_color_beside [OF 1(2)] assms(2) by auto
  show ?thesis
  proof (cases f)
    case (InLeft c p pe b')
    have on: "rbtree_node_is_on_left T2 (Ref b) = Some False"
      using rep_on_left [of sz lk T2 "InRight red p pe s" E] 2(2) InLeft by auto
    obtain T3 where "rbtree_left_rotate (Ref p) T2 = Some T3" "rep sz lk T3 (fill E (Nd black (Nd red s p pe l) b be r))"
      using left_rotate_ok [of sz lk T2 E red s p pe black l b be r] 2(2) InLeft by auto
    with 1 2(1) on assms(2,3) InLeft show ?thesis
      by (intro exI [of _ T1] exI [of _ T2] exI [of _ T3] exI [of _ "InLeft red p pe l"] exI [of _ "InLeft black b be r"])
        (auto simp: same_path_def)
  next
    case (InRight c p pe b')
    have on: "rbtree_node_is_on_left T2 (Ref b) = Some True"
      using rep_on_left [of sz lk T2 "InLeft red p pe s" E] 2(2) InRight by auto
    obtain T3 where "rbtree_right_rotate (Ref p) T2 = Some T3" "rep sz lk T3 (fill E (Nd black l b be (Nd red r p pe s)))"
      using right_rotate_ok [of sz lk T2 E red black l b be r p pe s] 2(2) InRight by auto
    with 1 2(1) on assms(2,3) InRight show ?thesis
      by (intro exI [of _ T1] exI [of _ T2] exI [of _ T3] exI [of _ "InRight red p pe r"] exI [of _ "InRight black b be l"])
        (auto simp: same_path_def)
  qed
qed

lemma rep_has_red_child:
  assumes "rep sz lk T (fill (f # E) t)" "beside f = Nd c l b e r"
  shows "rbtree_node_has_red_child T (Ref b) = Some (col l = red \<or> col r = red)"
proof -
  have "is_red T (root_of l) = Some (col l = red)" "is_red T (root_of r) = Some (col r = red)"
    using assms rep_red [of sz lk T "InLeft c b e r # InRight (fcolor f) (faddr f) _ t # E" l]
      rep_red [of sz lk T "InRight c b e l # InRight (fcolor f) (faddr f) _ t # E" r]
      rep_red [of sz lk T "InLeft c b e r # InLeft (fcolor f) (faddr f) _ t # E" l]
      rep_red [of sz lk T "InRight c b e l # InLeft (fcolor f) (faddr f) _ t # E" r]
    by (cases f; simp)+
  with rep_beside [OF assms] show ?thesis by (simp add: rbtree_node_has_red_child_def)
qed

definition effort :: "('k, 'd) frame list \<Rightarrow> nat" where
  "effort C = (case C of [] \<Rightarrow> 0 | f # E \<Rightarrow> 3 * length C + (if fcolor f = red then 0 else 4))"

lemma effort_tl: "fcolor f = black \<Longrightarrow> effort E < effort (f # E)"
  by (cases E) (auto simp: effort_def)

lemma effort_red: "fcolor f = black \<Longrightarrow> fcolor f' = red \<Longrightarrow> effort (f' # g' # E) < effort (f # E)"
  by (simp add: effort_def)

lemma fix_blackblack_ok:
  assumes "rep sz lk T (fill C (fill D w))" "root_of (fill D w) = Ref a"
    and "invc (fill D w0)" "invh (fill D w0)" "col (fill D w0) = black" "cinv C (bheight (fill D w0) + 1)"
  shows "\<exists>T' C'. rbtree_fix_blackblack T (Ref a) = Some T' \<and> rep sz lk T' (fill C' w) \<and> is_rb (fill C' w0) \<and>
    same_path (D @ C) C'"
  using assms
proof (induction "effort C" arbitrary: T C D a rule: less_induct)
  case less
  obtain c l e r where s: "fill D w = Nd c l a e r"
    using less.prems(2) by (cases "fill D w") auto
  note rp = less.prems(1) [unfolded s]
  let ?h = "bheight (fill D w0)"
  show ?case
  proof (cases C)
    case Nil
    then show ?thesis
      using rep_is_root [OF rp] less.prems
      by (intro exI [of _ T] exI [of _ D])
        (auto simp: rbtree_fix_blackblack.simps [of T] is_rb_def same_path_def)
  next
    case f: (Cons f E)
    note rpf = rp [unfolded f]
    obtain cb bl b be br where b: "beside f = Nd cb bl b be br"
      using less.prems(6) f by (cases "beside f") auto
    note step = rbtree_fix_blackblack.simps [of T "Ref a"] rep_is_root [OF rp] rep_sibling [OF rpf]
      rep_node [OF rpf] rep_beside [OF rpf b] Let_def f b
    show ?thesis
    proof (cases cb)
      case RBTREE_COLOR_RED
      obtain T1 T2 T3 f' g' where T: "set_color (Ref (faddr f)) red T = Some T1" "set_color (Ref b) black T1 = Some T2"
          "rbtree_node_is_on_left T2 (Ref b) = Some (case f of InLeft _ _ _ _ \<Rightarrow> False | InRight _ _ _ _ \<Rightarrow> True)"
          "(case f of InLeft _ _ _ _ \<Rightarrow> rbtree_left_rotate | InRight _ _ _ _ \<Rightarrow> rbtree_right_rotate) (Ref (faddr f)) T2 = Some T3"
          and T3: "rep sz lk T3 (fill (f' # g' # E) (fill D w))" "same_path (f # E) (f' # g' # E)"
          "cinv (f' # g' # E) (?h + 1)" "fcolor f' = red"
        using red_sibling_ok [of sz lk T f E "fill D w" bl b be br "?h + 1"] less.prems f b RBTREE_COLOR_RED by auto
      have "fcolor f = black" using less.prems(6) f b RBTREE_COLOR_RED by (cases "fcolor f") auto
      then obtain T' C' where "rbtree_fix_blackblack T3 (Ref a) = Some T'" "rep sz lk T' (fill C' w)" "is_rb (fill C' w0)"
          "same_path (D @ f' # g' # E) C'"
        using less.hyps [OF _ T3(1) less.prems(2-5) T3(3)] effort_red [of f f' g' E] T3(4) f by auto
      moreover have "rbtree_fix_blackblack T (Ref a) = rbtree_fix_blackblack T3 (Ref a)"
        using T RBTREE_COLOR_RED by (simp add: step split: frame.splits)
      ultimately show ?thesis
        using same_path_trans [OF same_path_append [OF T3(2), of D]] f by auto
    next
      case cb: RBTREE_COLOR_BLACK
      have red: "rbtree_node_has_red_child T (Ref b) = Some (col bl = red \<or> col br = red)"
        using rep_has_red_child [OF rpf b] .
      show ?thesis
      proof (cases "col bl = red \<or> col br = red")
        case True
        obtain T' C' where T': "rotate_blackblack (Ref b) (Ref (faddr f)) T = Some T'"
            "rep sz lk T' (fill C' (fill D w))" "same_path (f # E) C'" "cinv C' ?h" "red_ok C'"
          using rotate_blackblack_ok [OF _ _ True, of sz lk T f E "fill D w" b be ?h] less.prems f b cb by auto
        show ?thesis
          using T' same_path_append [OF T'(3)] less.prems(3-5) True red cb
          by (intro exI [of _ T'] exI [of _ "D @ C'"]) (simp add: step fill_append is_rb_fill)
      next
        case False
        let ?b = "Nd red bl b be br"
        let ?f = "put_beside ?b f"
        obtain T1 where T1: "set_color (Ref b) red T = Some T1" "rep sz lk T1 (fill (?f # E) (fill D w))"
          using set_color_beside [of sz lk T f E] less.prems(1) f b by blast
        obtain n where n: "rbnode T1 (Ref (faddr f)) = Some n" "rb_color n = fcolor f"
          using rep_frame [OF T1(2)] by auto
        have same: "same_path (f # E) (?f # E)" "same_path (f # E) (recolor black ?f # E)"
          using b by (cases f; simp add: same_path_def)+
        show ?thesis
        proof (cases "fcolor f")
          case RBTREE_COLOR_BLACK
          have "fill (D @ [?f]) w = join ?f (fill D w)" "fill (D @ [?f]) w0 = join ?f (fill D w0)"
            by (simp_all add: fill_append fill_Cons)
          then obtain T' C' where "rbtree_fix_blackblack T1 (Ref (faddr f)) = Some T'" "rep sz lk T' (fill C' w)"
              "is_rb (fill C' w0)" "same_path ((D @ [?f]) @ E) C'"
            using less.hyps [of E T1 "D @ [?f]" "faddr f"] less.prems(3-6) T1(2) effort_tl [of f E]
              RBTREE_COLOR_BLACK False f b cb
            by (auto simp: fill_Cons bheight_join)
          moreover have "rbtree_fix_blackblack T (Ref a) = rbtree_fix_blackblack T1 (Ref (faddr f))"
            using T1(1) n RBTREE_COLOR_BLACK False red cb by (simp add: step)
          ultimately show ?thesis
            using same_path_trans [OF same_path_append [OF same(1), of D]] f by auto
        next
          case fr: RBTREE_COLOR_RED
          obtain T2 where T2: "set_color (Ref (faddr f)) black T1 = Some T2"
              "rep sz lk T2 (fill (recolor black ?f # E) (fill D w))"
            using set_color_frame [OF T1(2), of black] by auto
          have "is_rb (fill (recolor black ?f # E) (fill D w0))"
            using less.prems(3-6) f b cb fr False by (auto simp: is_rb_fill)
          then show ?thesis
            using T1 T2 n fr False red cb same_path_append [OF same(2)]
            by (intro exI [of _ T2] exI [of _ "D @ recolor black ?f # E"]) (simp add: step fill_append)
        qed
      qed
    qed
  qed
qed

end
