(* ===== verification/RBTree_Delete.thy ===== *)
theory RBTree_Delete
  imports RBTree_Repair
begin

text \<open>
  Removing a node: a leaf, a node with one child, and a node with two children, which hands its
  place to its successor. The red-black invariant and the order of the other entries are kept,
  and exactly one node is freed.
\<close>

subsection \<open>Removing a node\<close>

text \<open>\<open>one_less t t'\<close>: \<open>t'\<close> has the nodes of \<open>t\<close> but one.\<close>

definition one_less :: "('k, 'd) rtree \<Rightarrow> ('k, 'd) rtree \<Rightarrow> bool" where
  "one_less t t' \<longleftrightarrow> (\<exists>b. mset (addrs t) = add_mset b (mset (addrs t')))"

lemma unlink_leaf_ok:
  assumes "rep sz lk T (fill (f # E) (Nd c Lf a e Lf))"
  shows "\<exists>T1 T2. (if (case f of InLeft _ _ _ _ \<Rightarrow> True | InRight _ _ _ _ \<Rightarrow> False)
      then set_rbnode (Ref (faddr f)) (rb_left_update (\<lambda>_. NULL)) T
      else set_rbnode (Ref (faddr f)) (rb_right_update (\<lambda>_. NULL)) T) = Some T1 \<and>
    free_rbnode (Ref a) T1 = Some T2 \<and> rep sz lk T2 (fill (f # E) Lf)"
  using assms by (cases f) (auto simp: rep_def heap_ops)

lemma delete_leaf_ok:
  assumes "rep sz lk T (fill C (Nd c Lf a e Lf))" "is_rb (fill C (Nd c Lf a e Lf))"
  shows "\<exists>T' C'. delete_leaf (c = black) (up C) (Ref a) T = Some T' \<and> rep sz lk T' (fill C' Lf) \<and>
    is_rb (fill C' Lf) \<and> same_path C C'"
proof (cases C)
  case Nil
  have "rep sz lk (T\<lparr>rbt_root := NULL, rbt_nodes := (rbt_nodes T)(a := None)\<rparr>) Lf"
    using assms Nil by (auto simp: rep_def)
  then show ?thesis
    using assms Nil rep_is_root [OF assms(1)]
    by (auto simp: delete_leaf_def heap_ops rep_def is_rb_def same_path_def intro!: exI [of _ "[]"])
next
  case f: (Cons f E)
  obtain T1 C' where T1: "(if c = black then rbtree_fix_blackblack T (Ref a)
      else do { s \<leftarrow> rbtree_node_sibling T (Ref a); if s \<noteq> NULL then set_color s red T else Some T }) = Some T1"
    "rep sz lk T1 (fill C' (Nd c Lf a e Lf))" "is_rb (fill C' Lf)" "same_path C C'"
  proof (cases c)
    case RBTREE_COLOR_BLACK
    then show ?thesis
      using fix_blackblack_ok [of sz lk T C "[]" "Nd c Lf a e Lf" a Lf] assms that by (auto simp: is_rb_fill)
  next
    case RBTREE_COLOR_RED
    then have b: "beside f = Lf \<or> (\<exists>l b be r. beside f = Nd red l b be r)"
      using assms(2) f by (cases "beside f") (auto simp: is_rb_fill split: if_splits)
    have rb: "is_rb (fill C Lf)" using assms(2) f RBTREE_COLOR_RED by (auto simp: is_rb_fill)
    note sib = rep_sibling [OF assms(1) [unfolded f]]
    from b show ?thesis
    proof (elim disjE exE)
      assume "beside f = Lf"
      then show ?thesis using that [of T C] sib rb assms(1) RBTREE_COLOR_RED by (simp add: same_path_def)
    next
      fix l b be r
      assume b: "beside f = Nd red l b be r"
      then have "put_beside (Nd red l b be r) f = f" by (cases f) auto
      then show ?thesis
        using that [of _ C] sib rb b RBTREE_COLOR_RED set_color_beside [OF assms(1) [unfolded f] b, of red] f
        by (auto simp: same_path_def)
    qed
  qed
  then obtain f' E' where C': "C' = f' # E'" "faddr f' = faddr f"
    using f by (cases C') (auto simp: same_path_def)
  note rp' = T1(2) [unfolded C'(1)]
  obtain T2 T3 where "(if (case f' of InLeft _ _ _ _ \<Rightarrow> True | InRight _ _ _ _ \<Rightarrow> False)
      then set_rbnode (Ref (faddr f')) (rb_left_update (\<lambda>_. NULL)) T1
      else set_rbnode (Ref (faddr f')) (rb_right_update (\<lambda>_. NULL)) T1) = Some T2"
    "free_rbnode (Ref a) T2 = Some T3" "rep sz lk T3 (fill (f' # E') Lf)"
    using unlink_leaf_ok [OF rp'] by blast
  then show ?thesis
    using T1 C' f rep_is_root [OF assms(1)] rep_on_left [OF rp']
    by (intro exI [of _ T3] exI [of _ C']) (simp add: delete_leaf_def cong: if_cong)
qed

lemma black_height_0:
  "invc t \<Longrightarrow> invh t \<Longrightarrow> bheight t = 0 \<Longrightarrow> t = Lf \<or> (\<exists>a e. t = Nd red Lf a e Lf)"
proof (cases t)
  case (Nd c l a e r)
  moreover have leaf: "s = Lf" if "bheight s = 0" "col s = black" for s :: "('k, 'd) rtree"
    using that by (cases s) auto
  assume "invc t" "invh t" "bheight t = 0"
  ultimately show ?thesis using leaf [of l] leaf [of r] by (auto split: if_splits)
qed simp

lemma only_child_red:
  assumes "is_rb (fill C (Nd c l a e r))" "(l = Lf) \<noteq> (r = Lf)"
  shows "c = black" "\<exists>u ue. (if l = Lf then r else l) = Nd red Lf u ue Lf"
  using assms black_height_0 [of l] black_height_0 [of r] by (auto simp: is_rb_fill)

lemma delete_only_child_root:
  assumes "rep sz lk T (Nd black l a e r)" "(l = Lf) \<noteq> (r = Lf)"
    and "(if l = Lf then r else l) = Nd red Lf u ue Lf"
  shows "\<exists>T'. delete_only_child False NULL (Ref u) (Ref a) T = Some T' \<and> rep sz lk T' (Nd black Lf a ue Lf)"
  using assms by (cases "l = Lf") (auto simp: rep_def delete_only_child_def heap_ops)

lemma delete_only_child_inner:
  assumes "rep sz lk T (fill (f # E) (Nd black l a e r))" "(l = Lf) \<noteq> (r = Lf)"
    and "(if l = Lf then r else l) = Nd red Lf u ue Lf"
  shows "\<exists>T'. delete_only_child False (Ref (faddr f)) (Ref u) (Ref a) T = Some T' \<and>
    rep sz lk T' (fill (f # E) (Nd black Lf u ue Lf))"
  using assms rep_on_left [OF assms(1)]
  by (cases f; cases "l = Lf") (auto simp: rep_def delete_only_child_def heap_ops)

lemma delete_only_child_ok:
  assumes "rep sz lk T (fill C (Nd black l a e r))" "(l = Lf) \<noteq> (r = Lf)"
    and "(if l = Lf then r else l) = Nd red Lf u ue Lf"
  shows "\<exists>T' b. delete_only_child False (up C) (Ref u) (Ref a) T = Some T' \<and>
    rep sz lk T' (fill C (Nd black Lf b ue Lf)) \<and> b \<in> {a, u}"
proof (cases C)
  case Nil
  then show ?thesis using delete_only_child_root [of sz lk T l a e r] assms by auto
next
  case (Cons f E)
  then show ?thesis using delete_only_child_inner [of sz lk T f E l a e r] assms by auto
qed

lemma root_of_NULL [simp]: "root_of t = NULL \<longleftrightarrow> t = Lf" "NULL = root_of t \<longleftrightarrow> t = Lf"
  by (cases t; simp)+

text \<open>What removing the node \<open>Nd c l a e r\<close> at the end of the path \<open>C\<close> comes to.\<close>

definition removed :: "u64 \<Rightarrow> bool \<Rightarrow> ('k, 'd) frame list \<Rightarrow> ('k, 'd) rtree \<Rightarrow> ('k ref \<times> 'd ref) list \<Rightarrow>
  ('k, 'd) rbtree_t option \<Rightarrow> bool" where
  "removed sz lk C t es res \<longleftrightarrow> (\<exists>T' t'. res = Some T' \<and> rep sz lk T' t' \<and> is_rb t' \<and>
     entries t' = cleft C @ es @ cright C \<and> one_less (fill C t) t')"

lemma delete_small_ok:
  assumes "rep sz lk T (fill C (Nd c l a e r))" "is_rb (fill C (Nd c l a e r))" "l = Lf \<or> r = Lf"
  shows "removed sz lk C (Nd c l a e r) (entries l @ entries r) (rbtree_delete_node T (Ref a))"
proof (cases "l = Lf \<and> r = Lf")
  case True
  then obtain T' C' where T': "delete_leaf (c = black) (up C) (Ref a) T = Some T'" "rep sz lk T' (fill C' Lf)"
      "is_rb (fill C' Lf)" "same_path C C'"
    using delete_leaf_ok [of sz lk T C c a e] assms by auto
  have "rbtree_delete_node T (Ref a) = Some T'"
    using True T'(1) rep_node [OF assms(1)]
    by (simp add: rbtree_delete_node.simps [of T] rbtree_node_bst_replace_def is_red_def)
  moreover have "entries (fill C' Lf) = cleft C @ cright C" "one_less (fill C (Nd c l a e r)) (fill C' Lf)"
    using T'(4) True by (auto simp: entries_fill one_less_def mset_addrs_fill same_path_def)
  ultimately show ?thesis using T'(2,3) True unfolding removed_def by auto
next
  case False
  then have one: "(l = Lf) \<noteq> (r = Lf)" using assms(3) by auto
  obtain u ue where u: "(if l = Lf then r else l) = Nd red Lf u ue Lf" and c: "c = black"
    using only_child_red [OF assms(2) one] by auto
  obtain T' b where T': "delete_only_child False (up C) (Ref u) (Ref a) T = Some T'"
      "rep sz lk T' (fill C (Nd black Lf b ue Lf))" "b \<in> {a, u}"
    using delete_only_child_ok [OF _ one u] assms(1) c by blast
  have "is_red T (Ref u) = Some True"
    using rep_red [of sz lk T "InRight c a e l # C" r] rep_red [of sz lk T "InLeft c a e r # C" l] assms(1) u
    by (auto split: if_splits)
  then have "rbtree_delete_node T (Ref a) = Some T'"
    using u one T'(1) rep_node [OF assms(1)]
    by (auto simp: rbtree_delete_node.simps [of T] rbtree_node_bst_replace_def split: if_splits)
  moreover have "entries l @ entries r = [ue]" "is_rb (fill C (Nd black Lf b ue Lf))"
    using u one assms(2) c by (auto simp: is_rb_fill split: if_splits)
  moreover have "one_less (fill C (Nd c l a e r)) (fill C (Nd black Lf b ue Lf))"
    using u one T'(3) by (auto simp: one_less_def mset_addrs_fill split: if_splits)
  ultimately show ?thesis using T'(2) unfolding removed_def
    by (intro exI [of _ T'] exI [of _ "fill C (Nd black Lf b ue Lf)"]) (simp add: entries_fill)
qed

lemma successor_ok:
  assumes "rep sz lk T (fill C t)" "t \<noteq> Lf"
  shows "\<exists>D c u ue r. rbtree_node_successor T (root_of t) = Some (Ref u) \<and> t = fill D (Nd c Lf u ue r) \<and> cleft D = []"
  using assms
proof (induction t arbitrary: C)
  case (Nd c l a e r)
  note node = rep_node [OF Nd.prems(1)]
  show ?case
  proof (cases "l = Lf")
    case True
    then show ?thesis using node
      by (intro exI [of _ "[]"]) (simp add: rbtree_node_successor.simps [of T "Ref a"])
  next
    case False
    obtain D c' u ue r' where "rbtree_node_successor T (root_of l) = Some (Ref u)" "l = fill D (Nd c' Lf u ue r')" "cleft D = []"
      using Nd.IH(1) [of "InLeft c a e r # C"] Nd.prems False by auto
    moreover have "rbtree_node_successor T (root_of (Nd c l a e r)) = rbtree_node_successor T (root_of l)"
      using False node by (simp add: rbtree_node_successor.simps [of T "Ref a"])
    ultimately show ?thesis
      by (intro exI [of _ "D @ [InLeft c a e r]"] exI [of _ c'] exI [of _ u] exI [of _ ue] exI [of _ r'])
        (simp add: fill_append)
  qed
qed simp

lemma swap_values_ok:
  assumes "rep sz lk T (fill C (Nd c l a e r))" "r = fill D (Nd c' l' u ue r')"
  shows "\<exists>T'. rbtree_node_swap_values (Ref u) (Ref a) T = Some T' \<and>
    rep sz lk T' (fill (D @ InRight c a ue l # C) (Nd c' l' u e r'))"
proof -
  have rp: "rep sz lk T (fill (D @ InRight c a e l # C) (Nd c' l' u ue r'))"
    using assms by (simp add: fill_append)
  obtain T1 where 1: "set_rbnode (Ref u) (\<lambda>n. n\<lparr>rb_key := fst e, rb_data := snd e\<rparr>) T = Some T1"
    "rep sz lk T1 (fill (D @ InRight c a e l # C) (Nd c' l' u e r'))"
    using rp by (auto simp: rep_def set_rbnode_def)
  then have "rep sz lk T1 (fill C (Nd c l a e (fill D (Nd c' l' u e r'))))"
    by (simp add: fill_append)
  then obtain T2 where "set_rbnode (Ref a) (\<lambda>n. n\<lparr>rb_key := fst ue, rb_data := snd ue\<rparr>) T1 = Some T2"
    "rep sz lk T2 (fill C (Nd c l a ue (fill D (Nd c' l' u e r'))))"
    by (auto simp: rep_def set_rbnode_def)
  with 1 rep_node [OF rp] rep_node [OF assms(1)] show ?thesis
    by (simp add: rbtree_node_swap_values_def fill_append)
qed

lemma cinv_entry: "cinv (D @ InRight c a e l # C) h \<longleftrightarrow> cinv (D @ InRight c a e' l # C) h"
proof (induction D arbitrary: h)
  case (Cons f D)
  have "red_ok (D @ InRight c a e l # C) \<longleftrightarrow> red_ok (D @ InRight c a e' l # C)" by (cases D) simp_all
  with Cons show ?case by simp
qed simp

lemma is_rb_entry:
  assumes "is_rb (fill (D @ InRight c a e l # C) (Nd c' l' u ue r'))"
  shows "is_rb (fill (D @ InRight c a e2 l # C) (Nd c' l' u ue2 r'))"
proof -
  have "red_ok (D @ InRight c a e l # C) \<longleftrightarrow> red_ok (D @ InRight c a e2 l # C)" by (cases D) simp_all
  then show ?thesis
    using assms cinv_entry [of D c a e l C "bheight (Nd c' l' u ue r')" e2]
    unfolding is_rb_fill invc.simps invh.simps col.simps bheight.simps by blast
qed

lemma delete_node_ok:
  assumes "rep sz lk T (fill C (Nd c l a e r))" "is_rb (fill C (Nd c l a e r))"
  shows "removed sz lk C (Nd c l a e r) (entries l @ entries r) (rbtree_delete_node T (Ref a))"
proof (cases "l = Lf \<or> r = Lf")
  case False
  obtain D c' u ue r' where u: "rbtree_node_successor T (root_of r) = Some (Ref u)" "r = fill D (Nd c' Lf u ue r')" "cleft D = []"
    using successor_ok [of sz lk T "InRight c a e l # C" r] assms(1) False by auto
  let ?C = "D @ InRight c a ue l # C"
  obtain T1 where T1: "rbtree_node_swap_values (Ref u) (Ref a) T = Some T1" "rep sz lk T1 (fill ?C (Nd c' Lf u e r'))"
    using swap_values_ok [OF assms(1) u(2)] by blast
  have "is_rb (fill (D @ InRight c a e l # C) (Nd c' Lf u ue r'))"
    using assms(2) u(2) by (simp add: fill_append)
  then have "is_rb (fill ?C (Nd c' Lf u e r'))" by (rule is_rb_entry)
  then have "removed sz lk ?C (Nd c' Lf u e r') (entries r') (rbtree_delete_node T1 (Ref u))"
    using delete_small_ok [OF T1(2)] by simp
  moreover have red: "is_red T (Ref u) = Some (c' = red)"
    using rep_red [of sz lk T "D @ InRight c a e l # C" "Nd c' Lf u ue r'"] assms(1) u(2) by (simp add: fill_append)
  moreover have "rbtree_delete_node T (Ref a) = rbtree_delete_node T1 (Ref u)"
    using u(1) T1(1) False rep_node [OF assms(1)] red
    by (simp add: rbtree_delete_node.simps [of T] rbtree_node_bst_replace_def)
  moreover have "mset (addrs (fill ?C (Nd c' Lf u e r'))) = mset (addrs (fill C (Nd c l a e r)))"
    using u(2) by (simp add: mset_addrs_fill)
  ultimately show ?thesis
    using u(2,3) by (simp add: removed_def entries_fill one_less_def)
qed (rule delete_small_ok [OF assms])

end
