(* ===== verification/RBTree_Search.thy ===== *)
theory RBTree_Search
  imports RBTree_Delete LinkedList_Sorted
begin

text \<open>
  Searching a tree that is sorted by the comparator of its index, and what inserting and deleting
  a key do to its entries.
\<close>

subsection \<open>Sorted entries\<close>

type_synonym ('k, 'd) entry_list = "('k ref \<times> 'd ref) list"

definition sorted_entries :: "'k comparator \<Rightarrow> ('k, 'd) entry_list \<Rightarrow> bool" where
  "sorted_entries cmp = sorted_wrt (\<lambda>x y. cmp (fst x) (fst y) = - 1)"

fun find_entry :: "'k comparator \<Rightarrow> 'k ref \<Rightarrow> ('k, 'd) entry_list \<Rightarrow> 'd ref option" where
  "find_entry cmp k [] = None"
| "find_entry cmp k (x # xs) = (if cmp k (fst x) = 0 then Some (snd x) else find_entry cmp k xs)"

fun put_entry :: "'k comparator \<Rightarrow> 'k ref \<Rightarrow> 'd ref \<Rightarrow> ('k, 'd) entry_list \<Rightarrow> ('k, 'd) entry_list" where
  "put_entry cmp k d [] = [(k, d)]"
| "put_entry cmp k d (x # xs) =
     (if cmp k (fst x) = - 1 then (k, d) # x # xs
      else if cmp k (fst x) = 0 then (k, d) # xs
      else x # put_entry cmp k d xs)"

definition drop_entry :: "'k comparator \<Rightarrow> 'k ref \<Rightarrow> ('k, 'd) entry_list \<Rightarrow> ('k, 'd) entry_list" where
  "drop_entry cmp k xs = filter (\<lambda>x. cmp k (fst x) \<noteq> 0) xs"

lemma sorted_entries_append:
  "sorted_entries cmp (xs @ ys) \<longleftrightarrow> sorted_entries cmp xs \<and> sorted_entries cmp ys \<and>
     (\<forall>x\<in>set xs. \<forall>y\<in>set ys. cmp (fst x) (fst y) = - 1)"
  by (simp add: sorted_entries_def sorted_wrt_append)

lemma sorted_entries_Cons:
  "sorted_entries cmp (x # ys) \<longleftrightarrow> sorted_entries cmp ys \<and> (\<forall>y\<in>set ys. cmp (fst x) (fst y) = - 1)"
  by (auto simp add: sorted_entries_def)

lemma sorted_entries_Nil [simp]: "sorted_entries cmp []"
  by (simp add: sorted_entries_def)

lemma find_entry_append: "find_entry cmp k (xs @ ys) =
    (case find_entry cmp k xs of None \<Rightarrow> find_entry cmp k ys | Some d \<Rightarrow> Some d)"
  by (induction xs) auto

lemma find_entry_None: "find_entry cmp k xs = None \<longleftrightarrow> (\<forall>x\<in>set xs. cmp k (fst x) \<noteq> 0)"
  by (induction xs) auto

lemma find_entry_after: "\<forall>x\<in>set xs. cmp k (fst x) \<noteq> 0 \<Longrightarrow> find_entry cmp k (xs @ ys) = find_entry cmp k ys"
  by (induction xs) auto

lemma put_entry_after: "\<forall>x\<in>set xs. cmp k (fst x) = 1 \<Longrightarrow> put_entry cmp k d (xs @ ys) = xs @ put_entry cmp k d ys"
  by (induction xs) auto

lemma put_entry_before: "\<forall>x\<in>set xs. cmp k (fst x) = - 1 \<Longrightarrow> put_entry cmp k d xs = (k, d) # xs"
  by (cases xs) auto

text \<open>A path that goes the way the comparator says for \<open>k\<close>.\<close>

fun toward :: "'k comparator \<Rightarrow> 'k ref \<Rightarrow> ('k, 'd) frame list \<Rightarrow> bool" where
  "toward cmp k [] \<longleftrightarrow> True"
| "toward cmp k (InLeft c a e r # C) \<longleftrightarrow> cmp k (fst e) = - 1 \<and> toward cmp k C"
| "toward cmp k (InRight c a e l # C) \<longleftrightarrow> cmp k (fst e) = 1 \<and> toward cmp k C"

lemma toward_append [simp]: "toward cmp k (D @ C) \<longleftrightarrow> toward cmp k D \<and> toward cmp k C"
  by (induction cmp k D rule: toward.induct) auto

lemma attach_left:
  assumes "rep sz lk T (fill D (Nd c Lf p e r))" "rbt_nodes T a = None" "rbtree_node_new (Ref a) k d T = (T1, n)"
  shows "n = Ref a \<and> (\<exists>T2 T3. set_rbnode (Ref a) (rb_parent_update (\<lambda>_. Ref p)) T1 = Some T2 \<and>
    rbnode T2 (Ref p) = rbnode T (Ref p) \<and> set_rbnode (Ref p) (rb_left_update (\<lambda>_. Ref a)) T2 = Some T3 \<and>
    rep sz lk T3 (fill (InLeft c p e r # D) (Nd red Lf a (k, d) Lf)))"
proof -
  have "a \<notin> set (addrs (fill D (Nd c Lf p e r)))" using assms(1,2) unfolding rep_def by (metis domIff)
  with assms show ?thesis by (auto simp: rep_def heap_ops rbtree_node_new_def)
qed

lemma attach_right:
  assumes "rep sz lk T (fill D (Nd c l p e Lf))" "rbt_nodes T a = None" "rbtree_node_new (Ref a) k d T = (T1, n)"
  shows "n = Ref a \<and> (\<exists>T2 T3. set_rbnode (Ref a) (rb_parent_update (\<lambda>_. Ref p)) T1 = Some T2 \<and>
    rbnode T2 (Ref p) = rbnode T (Ref p) \<and> set_rbnode (Ref p) (rb_right_update (\<lambda>_. Ref a)) T2 = Some T3 \<and>
    rep sz lk T3 (fill (InRight c p e l # D) (Nd red Lf a (k, d) Lf)))"
proof -
  have "a \<notin> set (addrs (fill D (Nd c l p e Lf)))" using assms(1,2) unfolding rep_def by (metis domIff)
  with assms show ?thesis by (auto simp: rep_def heap_ops rbtree_node_new_def)
qed

lemma set_entry_ok:
  assumes "rep sz lk T (fill C (Nd c l a e r))"
  shows "\<exists>T'. set_rbnode (Ref a) (\<lambda>n. n\<lparr>rb_key := k, rb_data := d\<rparr>) T = Some T' \<and>
    rep sz lk T' (fill C (Nd c l a (k, d) r))"
  using assms by (auto simp: rep_def set_rbnode_def)

lemma rep_size: "rep sz lk T t \<Longrightarrow> rep sz' lk (T\<lparr>rbt_size := sz'\<rparr>) t"
  by (simp add: rep_def)

fun out_param :: "'d ref ref \<Rightarrow> 'd ref option \<Rightarrow> 'd ref ref" where
  "out_param rd None = rd"
| "out_param rd (Some d) = store rd d"

text \<open>What inserting gives, when the key is new, when it is there, and when there is no memory.\<close>

definition insert_post ::
  "'k comparator \<Rightarrow> u64 \<Rightarrow> bool \<Rightarrow> ptr \<Rightarrow> 'k ref \<Rightarrow> 'd ref \<Rightarrow> 'd ref ref \<Rightarrow> ('k, 'd) rtree \<Rightarrow>
   (('k, 'd) rbtree_t \<times> 'd ref ref \<times> int) option \<Rightarrow> bool" where
  "insert_post cmp sz lk mem k d rd t res \<longleftrightarrow> (\<exists>T' t' old.
     find_entry cmp k (entries t) = old \<and>
     (if old = None \<and> mem = NULL then res = Some (T', rd, - 1) \<and> rep sz lk T' t' \<and> t' = t
      else res = Some (T', out_param rd old, 0) \<and>
        rep (sz + (if old = None then 1 else 0)) lk T' t' \<and> is_rb t' \<and>
        entries t' = put_entry cmp k d (entries t) \<and>
        mset (addrs t') = mset (addrs t) + (if old = None then {#ref_of mem#} else {#})))"

context comparator_order
begin

lemma cmp_refl [simp]: "cmp a a = 0"
  using cmp_flip [of a a] by simp

lemma less_trans: "cmp a b = - 1 \<Longrightarrow> cmp b c = - 1 \<Longrightarrow> cmp a c = - 1"
  using cmp_trans [of a b c] cmp_trans [of c a b] cmp_range [of a c] cmp_flip [of a c] cmp_flip [of b c] cmp_flip [of a b]
  by auto

lemma cmp_eq_left: "cmp a b = 0 \<Longrightarrow> cmp a c = cmp b c"
  using cmp_trans [of a b c] cmp_trans [of b a c] cmp_trans [of c a b] cmp_trans [of c b a] 
    cmp_range [of a c] cmp_range [of b c] cmp_flip [of a c] cmp_flip [of b c] cmp_flip [of a b]
  by auto

lemma cmp_eq_right: "cmp a b = 0 \<Longrightarrow> cmp c a = cmp c b"
  using cmp_eq_left [of a b c] cmp_flip [of a c] cmp_flip [of b c] by simp

lemma greater_iff: "cmp a b = 1 \<longleftrightarrow> cmp b a = - 1"
  using cmp_flip [of a b] by auto

lemma find_put_entry:
  "find_entry cmp k' (put_entry cmp k d xs) = (if cmp k' k = 0 then Some d else find_entry cmp k' xs)"
  if "sorted_entries cmp xs"
  using that
proof (induction xs)
  case (Cons x xs)
  then show ?case
    using cmp_eq_right [of k "fst x" k'] cmp_eq_left [of k' k "fst x"] by (auto simp: sorted_entries_Cons)
qed simp

lemma find_drop_entry:
  "find_entry cmp k' (drop_entry cmp k xs) = (if cmp k' k = 0 then None else find_entry cmp k' xs)"
proof (induction xs)
  case (Cons x xs)
  then show ?case
    using cmp_eq_right [of k "fst x" k'] cmp_eq_left [of k' k "fst x"] cmp_eq_left [of k k' "fst x"]
      cmp_flip [of k k'] by (auto simp: drop_entry_def)
qed (simp add: drop_entry_def)

lemma find_entry_cong: "cmp k' k = 0 \<Longrightarrow> find_entry cmp k' xs = find_entry cmp k xs"
  using cmp_eq_left [of k' k] by (induction xs) auto

lemma set_put_entry: "x \<in> set (put_entry cmp k d xs) \<Longrightarrow> x = (k, d) \<or> x \<in> set xs"
  by (induction xs) (auto split: if_splits)

lemma sorted_put_entry: "sorted_entries cmp xs \<Longrightarrow> sorted_entries cmp (put_entry cmp k d xs)"
proof (induction xs)
  case (Cons x xs)
  consider "cmp k (fst x) = - 1" | "cmp k (fst x) = 0" | "cmp k (fst x) = 1" using cmp_range by blast
  then show ?case
  proof cases
    case 1
    then show ?thesis using Cons.prems less_trans [OF 1] by (auto simp: sorted_entries_Cons)
  next
    case 2
    then show ?thesis using Cons.prems cmp_eq_left [OF 2] by (simp add: sorted_entries_Cons)
  next
    case 3
    then have "cmp (fst x) k = - 1" by (simp add: greater_iff)
    with Cons 3 show ?thesis by (auto simp: sorted_entries_Cons dest!: set_put_entry)
  qed
qed (simp add: sorted_entries_def)

lemma sorted_drop_entry: "sorted_entries cmp xs \<Longrightarrow> sorted_entries cmp (drop_entry cmp k xs)"
  by (simp add: sorted_entries_def drop_entry_def sorted_wrt_filter)

lemma length_put_entry:
  "sorted_entries cmp xs \<Longrightarrow> length (put_entry cmp k d xs) = length xs + (if find_entry cmp k xs = None then 1 else 0)"
proof (induction xs)
  case (Cons x xs)
  have "cmp k (fst y) = - 1" if "cmp k (fst x) = - 1" "y \<in> set xs" for y
    using less_trans [OF that(1)] Cons.prems that(2) by (auto simp: sorted_entries_Cons)
  then have "find_entry cmp k xs = None" if "cmp k (fst x) = - 1"
    using that by (fastforce simp: find_entry_None)
  with Cons show ?case by (auto simp: sorted_entries_Cons)
qed simp

subsection \<open>Searching\<close>

lemma search_loop_ok:
  assumes "rep sz lk T (fill C t)" "t \<noteq> Lf"
  shows "\<exists>D c l a e r. t = fill D (Nd c l a e r) \<and> toward cmp k D \<and>
    search_loop cmp T k (root_of t) = Some (cmp k (fst e) = 0, Ref a) \<and>
    (cmp k (fst e) = - 1 \<longrightarrow> l = Lf) \<and> (cmp k (fst e) = 1 \<longrightarrow> r = Lf)"
  using assms
proof (induction t arbitrary: C)
  case (Nd c l a e r)
  note node = rep_node [OF Nd.prems(1)]
  note step = search_loop.simps [of cmp T k "Ref a"] node Let_def
  have here: ?case if "cmp k (fst e) = 0 \<or> cmp k (fst e) = - 1 \<and> l = Lf \<or> cmp k (fst e) = 1 \<and> r = Lf"
    using that by (intro exI [of _ "[]"] exI [of _ c] exI [of _ l] exI [of _ a] exI [of _ e] exI [of _ r]) (auto simp: step)
  consider "cmp k (fst e) = - 1" "l \<noteq> Lf" | "cmp k (fst e) = 1" "r \<noteq> Lf"
    | "cmp k (fst e) = 0 \<or> cmp k (fst e) = - 1 \<and> l = Lf \<or> cmp k (fst e) = 1 \<and> r = Lf"
    using cmp_range [of k "fst e"] by blast
  then show ?case
  proof cases
    case 1
    obtain D c' l' a' e' r' where "l = fill D (Nd c' l' a' e' r')" "toward cmp k D"
        "search_loop cmp T k (root_of l) = Some (cmp k (fst e') = 0, Ref a')"
        "cmp k (fst e') = - 1 \<longrightarrow> l' = Lf" "cmp k (fst e') = 1 \<longrightarrow> r' = Lf"
      using Nd.IH(1) [of "InLeft c a e r # C"] Nd.prems 1 by auto
    with 1 show ?thesis
      by (intro exI [of _ "D @ [InLeft c a e r]"] exI [of _ c'] exI [of _ l'] exI [of _ a'] exI [of _ e'] exI [of _ r'])
        (simp add: step fill_append del: root_fill)
  next
    case 2
    obtain D c' l' a' e' r' where "r = fill D (Nd c' l' a' e' r')" "toward cmp k D"
        "search_loop cmp T k (root_of r) = Some (cmp k (fst e') = 0, Ref a')"
        "cmp k (fst e') = - 1 \<longrightarrow> l' = Lf" "cmp k (fst e') = 1 \<longrightarrow> r' = Lf"
      using Nd.IH(2) [of "InRight c a e l # C"] Nd.prems 2 by auto
    with 2 show ?thesis
      by (intro exI [of _ "D @ [InRight c a e l]"] exI [of _ c'] exI [of _ l'] exI [of _ a'] exI [of _ e'] exI [of _ r'])
        (simp add: step fill_append del: root_fill)
  qed (rule here)
qed simp

lemma toward_left:
  "sorted_entries cmp (cleft D) \<Longrightarrow> toward cmp k D \<Longrightarrow> x \<in> set (cleft D) \<Longrightarrow> cmp k (fst x) = 1"
proof (induction D rule: cleft.induct)
  case (3 c a e l C)
  then show ?case using less_trans [of "fst x" "fst e" k]
    by (auto simp: sorted_entries_append greater_iff)
qed simp_all

lemma toward_right:
  "sorted_entries cmp (cright D) \<Longrightarrow> toward cmp k D \<Longrightarrow> x \<in> set (cright D) \<Longrightarrow> cmp k (fst x) = - 1"
proof (induction D rule: cright.induct)
  case (2 c a e r C)
  then show ?case using less_trans [of k "fst e" "fst x"]
    by (auto simp: sorted_entries_append sorted_entries_Cons)
qed simp_all

text \<open>Where the entries are, seen from the node the search stops at.\<close>

lemma search_entries:
  assumes "sorted_entries cmp (entries (fill D (Nd c l a e r)))" "toward cmp k D"
  shows "\<forall>x\<in>set (cleft D). cmp k (fst x) = 1" "\<forall>x\<in>set (cright D). cmp k (fst x) = - 1"
    and "cmp k (fst e) = 0 \<or> cmp k (fst e) = 1 \<Longrightarrow> \<forall>x\<in>set (entries l). cmp k (fst x) = 1"
    and "cmp k (fst e) = 0 \<or> cmp k (fst e) = - 1 \<Longrightarrow> \<forall>x\<in>set (entries r). cmp k (fst x) = - 1"
proof -
  have s: "sorted_entries cmp (cleft D)" "sorted_entries cmp (cright D)"
    "\<forall>x\<in>set (entries l). cmp (fst x) (fst e) = - 1" "\<forall>x\<in>set (entries r). cmp (fst e) (fst x) = - 1"
    using assms(1) by (auto simp: entries_fill sorted_entries_append sorted_entries_Cons)
  show "\<forall>x\<in>set (cleft D). cmp k (fst x) = 1" "\<forall>x\<in>set (cright D). cmp k (fst x) = - 1"
    using toward_left [OF s(1) assms(2)] toward_right [OF s(2) assms(2)] by blast+
  show "\<forall>x\<in>set (entries l). cmp k (fst x) = 1" if "cmp k (fst e) = 0 \<or> cmp k (fst e) = 1"
  proof
    fix x assume "x \<in> set (entries l)"
    with s(3) have "cmp (fst x) (fst e) = - 1" by blast
    with that show "cmp k (fst x) = 1"
      using less_trans [of "fst x" "fst e" k] cmp_eq_right [of k "fst e" "fst x"] by (metis greater_iff)
  qed
  show "\<forall>x\<in>set (entries r). cmp k (fst x) = - 1" if "cmp k (fst e) = 0 \<or> cmp k (fst e) = - 1"
  proof
    fix x assume "x \<in> set (entries r)"
    with s(4) have "cmp (fst e) (fst x) = - 1" by blast
    with that show "cmp k (fst x) = - 1"
      using less_trans [of k "fst e" "fst x"] cmp_eq_left [of k "fst e" "fst x"] by metis
  qed
qed

lemma insert_found:
  assumes "rep sz lk T (fill D (Nd c l a e r))" "is_rb (fill D (Nd c l a e r))"
    and "sorted_entries cmp (entries (fill D (Nd c l a e r)))" "toward cmp k D" "cmp k (fst e) = 0"
    and "rbtree_search_node T k cmp = Some (True, Ref a)"
  shows "insert_post cmp sz lk mem k d rd (fill D (Nd c l a e r)) (insert_tree mem cmp k d rd T)"
proof -
  note en = search_entries [OF assms(3,4)]
  have left: "\<forall>x\<in>set (cleft D @ entries l). cmp k (fst x) = 1" using en(1,3) assms(5) by auto
  have f: "find_entry cmp k (entries (fill D (Nd c l a e r))) = Some (snd e)"
    using find_entry_after [of "cleft D @ entries l" cmp k] left assms(5) by (simp add: entries_fill)
  have p: "put_entry cmp k d (entries (fill D (Nd c l a e r))) = entries (fill D (Nd c l a (k, d) r))"
    using put_entry_after [of "cleft D @ entries l" cmp k d] left assms(5) by (simp add: entries_fill)
  obtain T' where T': "set_rbnode (Ref a) (\<lambda>n. n\<lparr>rb_key := k, rb_data := d\<rparr>) T = Some T'"
    "rep sz lk T' (fill D (Nd c l a (k, d) r))" using set_entry_ok [OF assms(1)] by blast
  have "rbt_root T \<noteq> NULL" using assms(1) by (cases D) (auto simp: rep_def croot_def)
  then have "insert_tree mem cmp k d rd T = Some (T', store rd (snd e), 0)"
    using assms(6) rep_node [OF assms(1)] T'(1) by (simp add: insert_tree_def)
  then show ?thesis
    unfolding insert_post_def f p using T'(2) assms(2)
    by (auto simp: is_rb_fill mset_addrs_fill intro!: exI [of _ "fill D (Nd c l a (k, d) r)"])
qed

lemma search_new_None:
  assumes "sorted_entries cmp (entries (fill D (Nd c l p e r)))" "toward cmp k D"
    and "cmp k (fst e) = - 1 \<and> l = Lf \<or> cmp k (fst e) = 1 \<and> r = Lf"
  shows "find_entry cmp k (entries (fill D (Nd c l p e r))) = None"
proof -
  note en = search_entries [OF assms(1,2)]
  have "\<forall>x\<in>set (entries l). cmp k (fst x) \<noteq> 0" using assms(3) en(3) by (elim disjE) auto
  moreover have "\<forall>x\<in>set (entries r). cmp k (fst x) \<noteq> 0" using assms(3) en(4) by (elim disjE) auto
  moreover have "cmp k (fst e) \<noteq> 0" using assms(3) by auto
  ultimately show ?thesis using en(1,2) unfolding find_entry_None entries_fill by (simp add: ball_Un)
qed

lemma insert_new:
  assumes "rep sz lk T (fill D (Nd c l p e r))" "is_rb (fill D (Nd c l p e r))"
    and "sorted_entries cmp (entries (fill D (Nd c l p e r)))" "toward cmp k D"
    and "cmp k (fst e) = - 1 \<and> l = Lf \<or> cmp k (fst e) = 1 \<and> r = Lf"
    and "rbtree_search_node T k cmp = Some (False, Ref p)" "mem = NULL \<or> mem = Ref a \<and> rbt_nodes T a = None"
  shows "insert_post cmp sz lk mem k d rd (fill D (Nd c l p e r)) (insert_tree mem cmp k d rd T)"
proof -
  let ?t = "fill D (Nd c l p e r)"
  note en = search_entries [OF assms(3,4)]
  have f: "find_entry cmp k (entries ?t) = None" by (rule search_new_None [OF assms(3,4,5)])
  have put: "put_entry cmp k d (entries ?t) = entries (fill (g # D) (Nd red Lf a (k, d) Lf))"
    if "g = (if cmp k (fst e) = - 1 then InLeft c p e r else InRight c p e l)" for g
    using assms(5)
  proof (elim disjE conjE)
    assume less: "cmp k (fst e) = - 1" "l = Lf"
    then have "\<forall>x\<in>set (e # entries r @ cright D). cmp k (fst x) = - 1" using en(2) en(4) [OF disjI2 [OF less(1)]] by (simp add: ball_Un)
    then show ?thesis
      using less that put_entry_before [of "e # entries r @ cright D" cmp k d] put_entry_after [of "cleft D" cmp k d] en(1)
      by (simp add: entries_fill)
  next
    assume more: "cmp k (fst e) = 1" "r = Lf"
    then have "\<forall>x\<in>set (cleft D @ entries l @ [e]). cmp k (fst x) = 1" using en(1) en(3) [OF disjI2 [OF more(1)]] by (simp add: ball_Un)
    then show ?thesis
      using more that put_entry_after [of "cleft D @ entries l @ [e]" cmp k d "cright D"] put_entry_before [of "cright D" cmp k d] en(2)
      by (simp add: entries_fill)
  qed
  have root: "rbt_root T \<noteq> NULL" using assms(1) by (cases D) (auto simp: rep_def croot_def)
  show ?thesis
  proof (cases mem)
    case NULL
    then show ?thesis using assms(1,6) f root
      by (auto simp: insert_post_def insert_tree_def rbtree_node_new_def)
  next
    case (Ref a')
    then have a: "mem = Ref a" "rbt_nodes T a = None" using assms(7) by auto
    define g where "g = (if cmp k (fst e) = - 1 then InLeft c p e r else InRight c p e l)"
    have g: "fill (g # D) Lf = ?t" using assms(5) by (auto simp: g_def)
    obtain T1 n where new: "rbtree_node_new mem k d T = (T1, n)" by force
    obtain T2 T3 where T: "n = Ref a" "set_rbnode n (rb_parent_update (\<lambda>_. Ref p)) T1 = Some T2"
        "rbnode T2 (Ref p) = rbnode T (Ref p)"
        "(if cmp k (fst e) = - 1 then set_rbnode (Ref p) (rb_left_update (\<lambda>_. n)) T2
          else set_rbnode (Ref p) (rb_right_update (\<lambda>_. n)) T2) = Some T3"
        "rep sz lk T3 (fill (g # D) (Nd red Lf a (k, d) Lf))"
      using attach_left [of sz lk T D c p e r a k d T1 n] attach_right [of sz lk T D c l p e a k d T1 n]
        assms(1,5) a new by (auto simp: g_def)
    have "cinv (g # D) (bheight (Nd red Lf a (k, d) Lf))"
      using assms(2) unfolding g [symmetric] is_rb_fill by simp
    then obtain T4 t' where T4: "rbtree_fix_redred T3 (Ref a) = Some T4" "rep sz lk T4 t'" "is_rb t'"
        "same_nodes (fill (g # D) (Nd red Lf a (k, d) Lf)) t'"
      using fix_redred_ok [OF T(5), of a] by auto
    have "insert_tree mem cmp k d rd T = Some (T4\<lparr>rbt_size := rbt_size T4 + 1\<rparr>, rd, 0)"
      using assms(6) root new T(1-4) T4(1) rep_node [OF assms(1)] by (simp add: insert_tree_def cong: if_cong)
    moreover have "entries t' = put_entry cmp k d (entries ?t)"
      using T4(4) put [OF g_def] by (simp add: same_nodes_def)
    moreover have "mset (addrs t') = mset (addrs ?t) + {#ref_of mem#}"
      using T4(4) assms(5) a by (auto simp: same_nodes_def mset_addrs_fill g_def)
    moreover have "rep (sz + 1) lk (T4\<lparr>rbt_size := rbt_size T4 + 1\<rparr>) t'"
      using T4(2) by (simp add: rep_def)
    ultimately show ?thesis
      unfolding insert_post_def f using T4(3) a(1) by auto
  qed
qed

lemma insert_tree_ok:
  assumes "rep sz lk T t" "is_rb t" "sorted_entries cmp (entries t)"
    and "mem = NULL \<or> mem = Ref a \<and> rbt_nodes T a = None"
  shows "insert_post cmp sz lk mem k d rd t (insert_tree mem cmp k d rd T)"
proof (cases "t = Lf")
  case True
  have "rep (sz + 1) lk (T\<lparr>rbt_root := Ref a, rbt_nodes := [a \<mapsto> mk_node NULL NULL NULL black (k, d)], rbt_size := sz + 1\<rparr>)
      (Nd black Lf a (k, d) Lf)"
    using assms(1) True by (simp add: rep_def)
  moreover have "rbt_nodes T = Map.empty" "rbt_root T = NULL" using assms(1) True by (auto simp: rep_def)
  ultimately show ?thesis
    using assms(1,4) True
    by (auto simp: insert_post_def insert_tree_def rbtree_node_new_def set_rbnode_def rep_def is_rb_def
        intro!: exI [of _ "Nd black Lf a (k, d) Lf"])
next
  case False
  obtain D c l p e r where t: "t = fill D (Nd c l p e r)" and to: "toward cmp k D"
    and s: "search_loop cmp T k (root_of t) = Some (cmp k (fst e) = 0, Ref p)"
    and stop: "cmp k (fst e) = - 1 \<longrightarrow> l = Lf" "cmp k (fst e) = 1 \<longrightarrow> r = Lf"
    using search_loop_ok [of sz lk T "[]" t k] assms(1) False by auto
  have s': "rbtree_search_node T k cmp = Some (cmp k (fst e) = 0, Ref p)"
    using s assms(1) by (simp add: rbtree_search_node_def rep_def)
  show ?thesis
  proof (cases "cmp k (fst e) = 0")
    case True
    then show ?thesis using insert_found [of sz lk T D c l p e r k] assms t to s' by simp
  next
    case False
    then show ?thesis
      using insert_new [of sz lk T D c l p e r k mem a] assms t to s' stop cmp_range [of k "fst e"] by auto
  qed
qed

text \<open>Deleting a key.\<close>

lemma delete_found:
  assumes "rep sz lk T (fill D (Nd c l a e r))" "is_rb (fill D (Nd c l a e r))"
    and "sorted_entries cmp (entries (fill D (Nd c l a e r)))" "toward cmp k D" "cmp k (fst e) = 0"
  shows "\<exists>T' t'. rbtree_delete_node T (Ref a) = Some T' \<and> rep sz lk T' t' \<and> is_rb t' \<and>
    entries t' = drop_entry cmp k (entries (fill D (Nd c l a e r))) \<and> one_less (fill D (Nd c l a e r)) t' \<and>
    find_entry cmp k (entries (fill D (Nd c l a e r))) = Some (snd e)"
proof -
  note en = search_entries [OF assms(3,4)]
  have keep: "\<forall>x\<in>set (cleft D @ entries l) \<union> set (entries r @ cright D). cmp k (fst x) \<noteq> 0"
    using en(1,2) en(3,4) [OF disjI1 [OF assms(5)]] by (simp add: ball_Un)
  then have "filter (\<lambda>x. cmp k (fst x) \<noteq> 0) (cleft D) = cleft D"
      "filter (\<lambda>x. cmp k (fst x) \<noteq> 0) (entries l) = entries l"
      "filter (\<lambda>x. cmp k (fst x) \<noteq> 0) (entries r) = entries r"
      "filter (\<lambda>x. cmp k (fst x) \<noteq> 0) (cright D) = cright D"
    by (simp_all add: filter_id_conv)
  then have "drop_entry cmp k (entries (fill D (Nd c l a e r))) = cleft D @ (entries l @ entries r) @ cright D"
    using assms(5) by (simp add: drop_entry_def entries_fill)
  moreover have "find_entry cmp k (entries (fill D (Nd c l a e r))) = Some (snd e)"
    using find_entry_after [of "cleft D @ entries l" cmp k] keep assms(5) by (simp add: entries_fill)
  ultimately show ?thesis
    using delete_node_ok [OF assms(1,2)] unfolding removed_def by auto
qed

end

end
