(* ===== verification/RBTree_Walk.thy ===== *)
theory RBTree_Walk
  imports RBTree_Search
begin

text \<open>
  The in-order search with a criterion returns the nodes whose keys meet it, in order, and
  destroying a tree frees every node.
\<close>

subsection \<open>Searching with a criterion\<close>

fun wanted :: "'k comparator \<Rightarrow> 'k ref \<Rightarrow> 'k ref \<Rightarrow> index_key_search_criteria_t \<Rightarrow> 'k ref \<Rightarrow> bool" where
  "wanted cmp k1 k2 INDEXER_KEY_COMPARATOR_CRITERIA_NULL k \<longleftrightarrow> True"
| "wanted cmp k1 k2 INDEXER_KEY_COMPARATOR_CRITERIA_LESS k \<longleftrightarrow> cmp k k1 < 0"
| "wanted cmp k1 k2 INDEXER_KEY_COMPARATOR_CRITERIA_LESSOREQUAL k \<longleftrightarrow> cmp k k1 \<le> 0"
| "wanted cmp k1 k2 INDEXER_KEY_COMPARATOR_CRITERIA_EQUAL k \<longleftrightarrow> cmp k k1 = 0"
| "wanted cmp k1 k2 INDEXER_KEY_COMPARATOR_CRITERIA_EQUALORGREATER k \<longleftrightarrow> cmp k k1 \<ge> 0"
| "wanted cmp k1 k2 INDEXER_KEY_COMPARATOR_CRITERIA_GREATER k \<longleftrightarrow> cmp k k1 > 0"
| "wanted cmp k1 k2 INDEXER_KEY_COMPARATOR_CRITERIA_BETWEEN k \<longleftrightarrow> cmp k k1 \<ge> 0 \<and> cmp k k2 \<le> 0"

fun nodes_in :: "('k, 'd) rtree \<Rightarrow> (nat \<times> 'k ref \<times> 'd ref) list" where
  "nodes_in Lf = []"
| "nodes_in (Nd c l a e r) = nodes_in l @ (a, e) # nodes_in r"

lemma map_nodes_in [simp]: "map fst (nodes_in t) = addrs t" "map snd (nodes_in t) = entries t"
  by (induction t) simp_all

definition chosen :: "'k comparator \<Rightarrow> 'k ref \<Rightarrow> 'k ref \<Rightarrow> index_key_search_criteria_t \<Rightarrow> ('k, 'd) rtree \<Rightarrow> ptr list" where
  "chosen cmp k1 k2 criteria t = map (Ref \<circ> fst) (filter (\<lambda>x. wanted cmp k1 k2 criteria (fst (snd x))) (nodes_in t))"

lemma chosen_simps [simp]:
  "chosen cmp k1 k2 criteria Lf = []"
  "chosen cmp k1 k2 criteria (Nd c l a e r) = chosen cmp k1 k2 criteria l @
     (if wanted cmp k1 k2 criteria (fst e) then [Ref a] else []) @ chosen cmp k1 k2 criteria r"
  by (simp_all add: chosen_def)

lemma chosen_Nil: "chosen cmp k1 k2 criteria t = [] \<longleftrightarrow> (\<forall>e\<in>set (entries t). \<not> wanted cmp k1 k2 criteria (fst e))"
  by (induction t) auto

context comparator_order
begin

lemma below: "cmp x y = - 1 \<Longrightarrow> cmp y k \<le> 0 \<Longrightarrow> cmp x k = - 1"
  using cmp_range [of y k] less_trans [of x y k] cmp_eq_right [of y k x] by auto

lemma above: "cmp x y = - 1 \<Longrightarrow> 0 \<le> cmp x k \<Longrightarrow> cmp y k = 1"
  using below [of x y k] cmp_range [of y k] by auto

lemma descend_step_ok:
  assumes "sorted_entries cmp (entries (Nd c l a e r))"
  shows "let s = descend_step cmp k1 k2 criteria (mk_node p (root_of l) (root_of r) c e) (Ref a) st;
             want = wanted cmp k1 k2 criteria (fst e);
             chosen_in = chosen cmp k1 k2 criteria in
    s = (True, root_of l, Ref a # st) \<and> want \<and>
      (criteria = INDEXER_KEY_COMPARATOR_CRITERIA_EQUAL \<longrightarrow> chosen_in l = []) \<or>
    s = (True, root_of l, st) \<and> \<not> want \<and> chosen_in r = [] \<or>
    s = (True, root_of r, st) \<and> \<not> want \<and> chosen_in l = [] \<or>
    s = (False, Ref a, st) \<and> \<not> want \<and> chosen_in l = [] \<and>
      (criteria \<noteq> INDEXER_KEY_COMPARATOR_CRITERIA_EQUAL \<longrightarrow> r = Lf)"
proof -
  have l: "cmp (fst x) (fst e) = - 1" if "x \<in> set (entries l)" for x
    using assms that by (auto simp: sorted_entries_append)
  have r: "cmp (fst e) (fst x) = - 1" if "x \<in> set (entries r)" for x
    using assms that by (auto simp: sorted_entries_append sorted_entries_Cons)
  note range = cmp_range [of "fst e" k1] cmp_range [of "fst e" k2]
  have left: "\<forall>x\<in>set (entries l). cmp (fst x) k = - 1" if "cmp (fst e) k \<le> 0" for k
    using below [OF l that] by blast
  have right: "\<forall>x\<in>set (entries r). cmp (fst x) k = 1" if "0 \<le> cmp (fst e) k" for k
    using above [OF r that] by blast
  note step = descend_step_def chosen_Nil Let_def
  show ?thesis
  proof (cases "cmp (fst e) k1 = - 1")
    case True
    then have "\<forall>x\<in>set (entries l). cmp (fst x) k1 = - 1" using left [of k1] by simp
    with True show ?thesis by (cases criteria; simp add: step)
  next
    case False
    then have "0 \<le> cmp (fst e) k1" using range(1) by auto
    then have r1: "\<forall>x\<in>set (entries r). cmp (fst x) k1 = 1" by (rule right)
    show ?thesis
    proof (cases "cmp (fst e) k2 \<le> 0")
      case True
      consider "cmp (fst e) k1 = 0" "\<forall>x\<in>set (entries l). cmp (fst x) k1 = - 1" | "cmp (fst e) k1 = 1"
        using False range(1) left [of k1] by auto
      then show ?thesis using r1 True by cases (cases criteria; simp add: step)+
    next
      case k2: False
      then have r2: "\<forall>x\<in>set (entries r). cmp (fst x) k2 = 1" using right [of k2] by simp
      consider "cmp (fst e) k1 = 0" "\<forall>x\<in>set (entries l). cmp (fst x) k1 = - 1" | "cmp (fst e) k1 = 1"
        using False range(1) left [of k1] by auto
      then show ?thesis using r1 r2 k2 by cases (cases criteria; simp add: step)+
    qed
  qed
qed

lemma descend_loop_step:
  assumes "rep sz lk T (fill C (Nd c l a e r))"
    and "descend_step cmp k1 k2 criteria (mk_node (up C) (root_of l) (root_of r) c e) (Ref a) st = (go, x, st')"
  shows "descend_loop cmp T k1 k2 criteria (Ref a) st =
    (if go then descend_loop cmp T k1 k2 criteria x st' else Some (x, st'))"
  using rep_node [OF assms(1)] assms(2) by (simp add: descend_loop.simps [of cmp T k1 k2 criteria "Ref a"])

lemma inorder_loop_go:
  assumes "descend_loop cmp T k1 k2 criteria x st = descend_loop cmp T k1 k2 criteria y st'"
    and "x \<noteq> NULL \<or> st \<noteq> []" "y \<noteq> NULL \<or> st' \<noteq> []"
  shows "inorder_loop cmp T k1 k2 criteria x st res = inorder_loop cmp T k1 k2 criteria y st' res"
proof -
  have "(x = NULL \<and> st = []) = False" "(y = NULL \<and> st' = []) = False" using assms(2,3) by auto
  then show ?thesis
    unfolding inorder_loop.simps [of cmp T k1 k2 criteria x st res]
      inorder_loop.simps [of cmp T k1 k2 criteria y st' res] assms(1) by (simp only: if_False)
qed

lemma inorder_loop_down:
  assumes "descend_loop cmp T k1 k2 criteria (Ref a) st = descend_loop cmp T k1 k2 criteria (root_of t) st'"
  shows "inorder_loop cmp T k1 k2 criteria (Ref a) st res = inorder_loop cmp T k1 k2 criteria (root_of t) st' res"
proof (cases "root_of t = NULL \<and> st' = []")
  case True
  with assms show ?thesis
    by (simp add: inorder_loop.simps [of cmp T k1 k2 criteria "Ref a"] inorder_loop.simps [of cmp T k1 k2 criteria NULL]
        descend_loop.simps [of cmp T k1 k2 criteria NULL])
qed (rule inorder_loop_go [OF assms], auto)

lemma inorder_loop_pop:
  assumes "rep sz lk T (fill C (Nd c l a e r))"
  shows "inorder_loop cmp T k1 k2 criteria NULL (Ref a # st) res =
    inorder_loop cmp T k1 k2 criteria (root_of r) st (res @ [Ref a])"
  using rep_node [OF assms]
  by (simp add: inorder_loop.simps [of cmp T k1 k2 criteria NULL] descend_loop.simps [of cmp T k1 k2 criteria NULL])

lemma inorder_loop_ok:
  assumes "rep sz lk T (fill C t)" "sorted_entries cmp (entries t)"
    and "criteria = INDEXER_KEY_COMPARATOR_CRITERIA_EQUAL \<Longrightarrow> st \<noteq> [] \<Longrightarrow> chosen cmp k1 k2 criteria t = []"
  shows "inorder_loop cmp T k1 k2 criteria (root_of t) st res =
    inorder_loop cmp T k1 k2 criteria NULL st (res @ chosen cmp k1 k2 criteria t)"
  using assms
proof (induction t arbitrary: C st res)
  case (Nd c l a e r)
  let ?loop = "inorder_loop cmp T k1 k2 criteria" and ?ch = "chosen cmp k1 k2 criteria"
  have sub: "rep sz lk T (fill (InLeft c a e r # C) l)" "rep sz lk T (fill (InRight c a e l # C) r)"
    "sorted_entries cmp (entries l)" "sorted_entries cmp (entries r)"
    using Nd.prems(1,2) by (auto simp: sorted_entries_append sorted_entries_Cons)
  note left = Nd.IH(1) [OF sub(1,3)] and right = Nd.IH(2) [OF sub(2,4)]
  note step = descend_loop_step [OF Nd.prems(1)]
  from descend_step_ok [OF Nd.prems(2), of k1 k2 criteria "up C" st] show ?case
    unfolding Let_def
  proof (elim disjE conjE)
    assume s: "descend_step cmp k1 k2 criteria (mk_node (up C) (root_of l) (root_of r) c e) (Ref a) st = (True, root_of l, Ref a # st)"
      and w: "wanted cmp k1 k2 criteria (fst e)"
      and eq: "criteria = INDEXER_KEY_COMPARATOR_CRITERIA_EQUAL \<longrightarrow> ?ch l = []"
    have "?loop (Ref a) st res = ?loop (root_of l) (Ref a # st) res"
      using step [OF s] by (intro inorder_loop_down) simp
    also have "\<dots> = ?loop NULL (Ref a # st) (res @ ?ch l)" using left [of "Ref a # st" res] eq by simp
    also have "\<dots> = ?loop (root_of r) st (res @ ?ch l @ [Ref a])" using inorder_loop_pop [OF Nd.prems(1)] by simp
    also have "\<dots> = ?loop NULL st (res @ ?ch l @ [Ref a] @ ?ch r)"
      using right [of st "res @ ?ch l @ [Ref a]"] Nd.prems(3) w by auto
    finally show ?case using w by simp
  next
    assume s: "descend_step cmp k1 k2 criteria (mk_node (up C) (root_of l) (root_of r) c e) (Ref a) st = (True, root_of l, st)"
      and w: "\<not> wanted cmp k1 k2 criteria (fst e)" "?ch r = []"
    have "?loop (Ref a) st res = ?loop (root_of l) st res"
      using step [OF s] by (intro inorder_loop_down) simp
    then show ?case using left [of st res] Nd.prems(3) w by auto
  next
    assume s: "descend_step cmp k1 k2 criteria (mk_node (up C) (root_of l) (root_of r) c e) (Ref a) st = (True, root_of r, st)"
      and w: "\<not> wanted cmp k1 k2 criteria (fst e)" "?ch l = []"
    have "?loop (Ref a) st res = ?loop (root_of r) st res"
      using step [OF s] by (intro inorder_loop_down) simp
    then show ?case using right [of st res] Nd.prems(3) w by auto
  next
    assume s: "descend_step cmp k1 k2 criteria (mk_node (up C) (root_of l) (root_of r) c e) (Ref a) st = (False, Ref a, st)"
      and w: "\<not> wanted cmp k1 k2 criteria (fst e)" "?ch l = []"
      and r: "criteria \<noteq> INDEXER_KEY_COMPARATOR_CRITERIA_EQUAL \<longrightarrow> r = Lf"
    show ?case
    proof (cases "st = []")
      case True
      then have "?loop (Ref a) st res = ?loop (root_of r) [] res"
        using step [OF s] rep_node [OF Nd.prems(1)] by (simp add: inorder_loop.simps [of cmp T k1 k2 criteria "Ref a"])
      then show ?thesis using right [of "[]" res] w True by simp
    next
      case False
      then have "?loop (Ref a) st res = ?loop NULL st res"
        using step [OF s]
        by (simp add: inorder_loop.simps [of cmp T k1 k2 criteria "Ref a"] inorder_loop.simps [of cmp T k1 k2 criteria NULL st]
            descend_loop.simps [of cmp T k1 k2 criteria NULL])
      moreover have "?ch r = []" using r False Nd.prems(3) by auto
      ultimately show ?thesis using w by simp
    qed
  qed
qed simp

end

subsection \<open>Destroying a tree\<close>

lemma destroy_step_leaf:
  assumes "rep sz lk T (fill (f # E) (Nd c Lf a e Lf))"
  shows "\<exists>T'. rb_destroy_loop T (Ref a) = rb_destroy_loop T' (Ref (faddr f)) \<and> rep sz lk T' (fill (f # E) Lf)"
proof -
  obtain T1 T2 where T: "(if (case f of InLeft _ _ _ _ \<Rightarrow> True | InRight _ _ _ _ \<Rightarrow> False)
      then set_rbnode (Ref (faddr f)) (rb_left_update (\<lambda>_. NULL)) T
      else set_rbnode (Ref (faddr f)) (rb_right_update (\<lambda>_. NULL)) T) = Some T1"
    "free_rbnode (Ref a) T1 = Some T2" "rep sz lk T2 (fill (f # E) Lf)"
    using unlink_leaf_ok [OF assms] by blast
  obtain p where p: "rbnode T (Ref (faddr f)) = Some p" using rep_frame [OF assms] by blast
  then have "Ref a = rb_left p \<longleftrightarrow> (case f of InLeft _ _ _ _ \<Rightarrow> True | InRight _ _ _ _ \<Rightarrow> False)"
    using rep_on_left [OF assms] rep_node [OF assms] by (simp add: rbtree_node_is_on_left_def)
  then have "rb_destroy_loop T (Ref a) = rb_destroy_loop T2 (Ref (faddr f))"
    using T(1,2) p rep_node [OF assms] by (simp add: rb_destroy_loop.simps [of T "Ref a"] cong: if_cong)
  with T(3) show ?thesis by blast
qed

lemma destroy_subtree_ok:
  assumes "rep sz lk T (fill (f # E) t)" "t \<noteq> Lf"
  shows "\<exists>T'. rb_destroy_loop T (root_of t) = rb_destroy_loop T' (Ref (faddr f)) \<and> rep sz lk T' (fill (f # E) Lf)"
  using assms
proof (induction t arbitrary: T f E)
  case (Nd c l a e r)
  obtain T1 where T1: "rb_destroy_loop T (Ref a) = rb_destroy_loop T1 (Ref a)" "rep sz lk T1 (fill (f # E) (Nd c Lf a e r))"
  proof (cases "l = Lf")
    case False
    then have "rb_destroy_loop T (Ref a) = rb_destroy_loop T (root_of l)"
      using rep_node [OF Nd.prems(1)] by (simp add: rb_destroy_loop.simps [of T "Ref a"])
    with Nd.IH(1) [of T "InLeft c a e r" "f # E"] Nd.prems(1) False that show ?thesis by auto
  qed (use Nd.prems(1) that in simp)
  obtain T2 where T2: "rb_destroy_loop T1 (Ref a) = rb_destroy_loop T2 (Ref a)" "rep sz lk T2 (fill (f # E) (Nd c Lf a e Lf))"
  proof (cases "r = Lf")
    case False
    then have "rb_destroy_loop T1 (Ref a) = rb_destroy_loop T1 (root_of r)"
      using rep_node [OF T1(2)] by (simp add: rb_destroy_loop.simps [of T1 "Ref a"])
    with Nd.IH(2) [of T1 "InRight c a e Lf" "f # E"] T1(2) False that show ?thesis by auto
  qed (use T1(2) that in simp)
  from destroy_step_leaf [OF T2(2)] T1(1) T2(1) show ?case by auto
qed simp

lemma destroy_tree_ok:
  assumes "rep sz lk T (Nd c l a e r)"
  shows "\<exists>T'. rb_destroy_loop T (Ref a) = Some T' \<and> rbt_nodes T' = Map.empty"
proof -
  have rp: "rep sz lk T (fill [] (Nd c l a e r))" using assms by simp
  obtain T1 where T1: "rb_destroy_loop T (Ref a) = rb_destroy_loop T1 (Ref a)" "rep sz lk T1 (fill [] (Nd c Lf a e r))"
  proof (cases "l = Lf")
    case False
    then have "rb_destroy_loop T (Ref a) = rb_destroy_loop T (root_of l)"
      using rep_node [OF rp] by (simp add: rb_destroy_loop.simps [of T "Ref a"])
    with destroy_subtree_ok [of sz lk T "InLeft c a e r" "[]" l] rp False that show ?thesis by auto
  qed (use rp that in simp)
  obtain T2 where T2: "rb_destroy_loop T1 (Ref a) = rb_destroy_loop T2 (Ref a)" "rep sz lk T2 (fill [] (Nd c Lf a e Lf))"
  proof (cases "r = Lf")
    case False
    then have "rb_destroy_loop T1 (Ref a) = rb_destroy_loop T1 (root_of r)"
      using rep_node [OF T1(2)] by (simp add: rb_destroy_loop.simps [of T1 "Ref a"])
    with destroy_subtree_ok [of sz lk T1 "InRight c a e Lf" "[]" r] T1(2) False that show ?thesis by auto
  qed (use T1(2) that in simp)
  have "rb_destroy_loop T2 (Ref a) = free_rbnode (Ref a) T2"
    using rep_node [OF T2(2)] by (simp add: rb_destroy_loop.simps [of T2 "Ref a"])
  moreover have "dom (rbt_nodes T2) = {a}" using T2(2) by (simp add: rep_def)
  ultimately show ?thesis using T1(1) T2 rep_node [OF T2(2)] by (auto simp: free_rbnode_def rbnode_def)
qed

subsection \<open>The depth of a tree\<close>

fun height :: "('k, 'd) rtree \<Rightarrow> nat" where
  "height Lf = 0"
| "height (Nd c l a e r) = max (height l) (height r) + 1"

lemma height_bheight: "invc t \<Longrightarrow> invh t \<Longrightarrow> height t \<le> 2 * bheight t + (if col t = red then 1 else 0)"
  by (induction t) (auto split: if_splits)

lemma bheight_size: "invh t \<Longrightarrow> 2 ^ bheight t \<le> length (entries t) + 1"
  by (induction t) auto

lemma height_size:
  assumes "is_rb t"
  shows "2 ^ (height t div 2) \<le> length (entries t) + 1"
proof -
  have "height t div 2 \<le> bheight t" using height_bheight [of t] assms by (auto simp: is_rb_def)
  then have "(2 :: nat) ^ (height t div 2) \<le> 2 ^ bheight t" by simp
  also have "\<dots> \<le> length (entries t) + 1" using bheight_size assms by (auto simp: is_rb_def)
  finally show ?thesis .
qed

text \<open>A search that gives up after \<open>n\<close> comparisons finds what the loop finds when \<open>n\<close> is the height.\<close>

fun search_within :: "nat \<Rightarrow> 'k comparator \<Rightarrow> ('k, 'd) rbtree_t \<Rightarrow> 'k ref \<Rightarrow> ptr \<Rightarrow> (bool \<times> ptr) option" where
  "search_within n cmp t k NULL = Some (False, NULL)"
| "search_within 0 cmp t k (Ref a) = None"
| "search_within (Suc n) cmp t k (Ref a) = do {
     x \<leftarrow> rbnode t (Ref a);
     if cmp k (rb_key x) = - 1 then
       (if rb_left x = NULL then Some (False, Ref a) else search_within n cmp t k (rb_left x))
     else if cmp k (rb_key x) = 0 then Some (True, Ref a)
     else (if rb_right x = NULL then Some (False, Ref a) else search_within n cmp t k (rb_right x))
   }"

lemma search_within_ok:
  assumes "rep sz lk T (fill C t)" "height t \<le> n"
  shows "search_within n cmp T k (root_of t) = search_loop cmp T k (root_of t)"
  using assms
proof (induction t arbitrary: C n)
  case Lf
  then show ?case by (simp add: search_loop.simps [of cmp T k NULL])
next
  case (Nd c l a e r)
  then obtain m where n: "n = Suc m" by (cases n) auto
  have "search_within m cmp T k (root_of l) = search_loop cmp T k (root_of l)"
    "search_within m cmp T k (root_of r) = search_loop cmp T k (root_of r)"
    using Nd.IH(1) [of "InLeft c a e r # C" m] Nd.IH(2) [of "InRight c a e l # C" m] Nd.prems n by auto
  then show ?case
    using rep_node [OF Nd.prems(1)] by (simp add: n search_loop.simps [of cmp T k "Ref a"])
qed

end
