(* ===== verification/RBTree_Props.thy ===== *)
theory RBTree_Props
  imports RBTree_Walk List_Dispatch
begin

text \<open>
  The red-black tree as an index: what an index promises its clients (locale \<open>key_index\<close>), that the
  tree keeps the promise for every comparator that is a total preorder, and the properties of the
  tree.
\<close>

subsection \<open>The contract of an index\<close>

datatype ('k, 'd) index_op =
    Insert ptr "'k ref" "'d ref" "'d ref ref"
  | Delete "'k ref" "'d ref ref"
  | Find "'k ref"
  | Contains "'k ref"
  | Size

datatype 'd index_out = Removed "'d ref ref" int | Found "'d ref" | Is bool | Count u64

text \<open>
  An abstract index: what it holds for a key (the same for keys that compare equal) and how many
  entries it has. \<open>Insert\<close> has the address of the new node, \<open>NULL\<close> when there is no memory.
\<close>

type_synonym ('k, 'd) contents = "('k ref \<Rightarrow> 'd ref option) \<times> nat"

fun spec_op :: "'k comparator \<Rightarrow> ('k, 'd) index_op \<Rightarrow> ('k, 'd) contents \<Rightarrow> ('k, 'd) contents \<times> 'd index_out" where
  "spec_op cmp (Insert mem k d rd) (m, n) =
     (if m k = None \<and> mem = NULL then ((m, n), Removed rd (- 1))
      else ((\<lambda>k'. if cmp k' k = 0 then Some d else m k', if m k = None then n + 1 else n), Removed (out_param rd (m k)) 0))"
| "spec_op cmp (Delete k rd) (m, n) =
     ((\<lambda>k'. if cmp k' k = 0 then None else m k', if m k = None then n else n - 1), Removed (out_param rd (m k)) 0)"
| "spec_op cmp (Find k) (m, n) = ((m, n), Found (case m k of None \<Rightarrow> NULL | Some d \<Rightarrow> d))"
| "spec_op cmp (Contains k) (m, n) = ((m, n), Is (m k \<noteq> None))"
| "spec_op cmp Size (m, n) = ((m, n), Count (of_nat n))"

fun spec_ops :: "'k comparator \<Rightarrow> ('k, 'd) index_op list \<Rightarrow> ('k, 'd) contents \<Rightarrow> ('k, 'd) contents \<times> 'd index_out list" where
  "spec_ops cmp [] c = (c, [])"
| "spec_ops cmp (x # ops) c =
     (let r = spec_op cmp x c; s = spec_ops cmp ops (fst r) in (fst s, snd r # snd s))"

fun new_nodes :: "('k, 'd) index_op list \<Rightarrow> nat list" where
  "new_nodes [] = []"
| "new_nodes (Insert (Ref a) k d rd # ops) = a # new_nodes ops"
| "new_nodes (_ # ops) = new_nodes ops"

lemma new_nodes_Cons: "new_nodes (x # ops) = new_nodes [x] @ new_nodes ops"
proof (cases x)
  case (Insert mem k d rd)
  then show ?thesis by (cases mem) simp_all
qed simp_all

fun run_index :: "('s \<Rightarrow> ('k, 'd) index_op \<Rightarrow> ('s \<times> 'd index_out) option) \<Rightarrow> ('k, 'd) index_op list \<Rightarrow> 's \<Rightarrow>
  ('s \<times> 'd index_out list) option" where
  "run_index step [] s = Some (s, [])"
| "run_index step (x # ops) s = do {
     r \<leftarrow> step s x;
     q \<leftarrow> run_index step ops (fst r);
     Some (fst q, snd r # snd q)
   }"

locale key_index =
  fixes cmp :: "'k comparator" and repr :: "'s \<Rightarrow> ('k, 'd) contents \<Rightarrow> bool" and used :: "'s \<Rightarrow> nat set"
    and step :: "'s \<Rightarrow> ('k, 'd) index_op \<Rightarrow> ('s \<times> 'd index_out) option"
  assumes step_ok: "repr s c \<Longrightarrow> distinct (new_nodes [x]) \<Longrightarrow> set (new_nodes [x]) \<inter> used s = {} \<Longrightarrow>
    \<exists>s'. step s x = Some (s', snd (spec_op cmp x c)) \<and> repr s' (fst (spec_op cmp x c)) \<and>
      used s' \<subseteq> used s \<union> set (new_nodes [x])"
begin

lemma run_ok:
  "repr s c \<Longrightarrow> distinct (new_nodes ops) \<Longrightarrow> set (new_nodes ops) \<inter> used s = {} \<Longrightarrow>
   \<exists>s'. run_index step ops s = Some (s', snd (spec_ops cmp ops c)) \<and> repr s' (fst (spec_ops cmp ops c))"
proof (induction ops arbitrary: s c)
  case (Cons x ops)
  note nodes = new_nodes_Cons [of x ops]
  obtain s1 where s1: "step s x = Some (s1, snd (spec_op cmp x c))" "repr s1 (fst (spec_op cmp x c))"
      "used s1 \<subseteq> used s \<union> set (new_nodes [x])"
    using step_ok [OF Cons.prems(1), of x] Cons.prems(2,3) nodes by auto
  obtain s2 where "run_index step ops s1 = Some (s2, snd (spec_ops cmp ops (fst (spec_op cmp x c))))"
      "repr s2 (fst (spec_ops cmp ops (fst (spec_op cmp x c))))"
    using Cons.IH [OF s1(2)] s1(3) Cons.prems(2,3) nodes by auto
  with s1(1) show ?case by (simp add: Let_def)
qed simp

end

subsection \<open>The tree keeps the contract\<close>

definition rbtree_step ::
  "('k, 'd) index_t ref \<Rightarrow> ('k, 'd) index_op \<Rightarrow> (('k, 'd) index_t ref \<times> 'd index_out) option" where
  "rbtree_step idx x = (case x of
     Insert mem k d rd \<Rightarrow> do { r \<leftarrow> rbtree_insert mem idx k d rd; Some (fst r, Removed (fst (snd r)) (snd (snd r))) }
   | Delete k rd \<Rightarrow> do { r \<leftarrow> rbtree_delete idx k rd; Some (fst r, Removed (fst (snd r)) (snd (snd r))) }
   | Find k \<Rightarrow> do { d \<leftarrow> rbtree_find idx k; Some (idx, Found d) }
   | Contains k \<Rightarrow> do { b \<leftarrow> rbtree_contains idx k; Some (idx, Is b) }
   | Size \<Rightarrow> do { n \<leftarrow> rbtree_size idx; Some (idx, Count n) })"

definition index_tree :: "'k comparator \<Rightarrow> ('k, 'd) index_t ref \<Rightarrow> ('k, 'd) rtree \<Rightarrow> bool" where
  "index_tree cmp idx t \<longleftrightarrow> (\<exists>T. idx = Ref \<lparr>metadata = Ref T, idx_comparator = cmp\<rparr> \<and>
     rep (of_nat (length (entries t))) False T t \<and> is_rb t \<and> sorted_entries cmp (entries t))"

definition index_holds :: "'k comparator \<Rightarrow> ('k, 'd) index_t ref \<Rightarrow> ('k, 'd) contents \<Rightarrow> bool" where
  "index_holds cmp idx c \<longleftrightarrow> (\<exists>t. index_tree cmp idx t \<and>
     fst c = (\<lambda>k. find_entry cmp k (entries t)) \<and> snd c = length (entries t))"

definition index_nodes :: "('k, 'd) index_t ref \<Rightarrow> nat set" where
  "index_nodes idx = (case idx of NULL \<Rightarrow> {} | Ref i \<Rightarrow> (case metadata i of NULL \<Rightarrow> {} | Ref T \<Rightarrow> dom (rbt_nodes T)))"

lemma rep_lock: "rep sz lk T t \<Longrightarrow> rep sz lk' (T\<lparr>rbt_locked := lk'\<rparr>) t"
  by (simp add: rep_def)

lemma index_nodes_tree: "index_tree cmp idx t \<Longrightarrow> index_nodes idx = set (addrs t)"
  by (auto simp: index_tree_def index_nodes_def rep_def)

lemma length_addrs: "length (addrs t) = length (entries t)"
  by (induction t) auto

context comparator_order
begin

lemma search_ok:
  assumes "rep sz lk T t" "sorted_entries cmp (entries t)"
  obtains (missing) p where "rbtree_search_node T k cmp = Some (False, p)" "find_entry cmp k (entries t) = None"
  | (present) D c l a e r where "rbtree_search_node T k cmp = Some (True, Ref a)" "t = fill D (Nd c l a e r)"
      "toward cmp k D" "cmp k (fst e) = 0" "find_entry cmp k (entries t) = Some (snd e)"
proof (cases "t = Lf")
  case True
  then have "rbt_root T = NULL" using assms(1) by (simp add: rep_def)
  then show ?thesis using True missing [of NULL]
    by (simp add: rbtree_search_node_def search_loop.simps [of cmp T k NULL])
next
  case False
  obtain D c l a e r where t: "t = fill D (Nd c l a e r)" and to: "toward cmp k D"
    and s: "search_loop cmp T k (root_of t) = Some (cmp k (fst e) = 0, Ref a)"
    and stop: "cmp k (fst e) = - 1 \<longrightarrow> l = Lf" "cmp k (fst e) = 1 \<longrightarrow> r = Lf"
    using search_loop_ok [of sz lk T "[]" t k] assms(1) False by auto
  have s': "rbtree_search_node T k cmp = Some (cmp k (fst e) = 0, Ref a)"
    using s assms(1) by (simp add: rbtree_search_node_def rep_def)
  note en = search_entries [OF assms(2) [unfolded t] to]
  show ?thesis
  proof (cases "cmp k (fst e) = 0")
    case True
    have "find_entry cmp k (entries t) = Some (snd e)"
      using find_entry_after [of "cleft D @ entries l" cmp k] en(1) en(3) [OF disjI1 [OF True]] True
      by (simp add: t entries_fill ball_Un)
    then show ?thesis using present [OF _ t to True] s' True by simp
  next
    case False
    then have "find_entry cmp k (entries t) = None"
      using search_new_None [OF assms(2) [unfolded t] to] stop cmp_range [of k "fst e"] t by auto
    then show ?thesis using missing [of "Ref a"] s' False by simp
  qed
qed

lemma index_treeE:
  assumes "index_tree cmp idx t"
  obtains T where "idx = Ref \<lparr>metadata = Ref T, idx_comparator = cmp\<rparr>"
    "rep (of_nat (length (entries t))) False T t" "is_rb t" "sorted_entries cmp (entries t)"
  using assms by (auto simp: index_tree_def)

lemma rbtree_insert_ok:
  assumes "index_tree cmp idx t" "mem = NULL \<or> mem = Ref a \<and> a \<notin> set (addrs t)" "old = find_entry cmp k (entries t)"
  shows "\<exists>idx' t'. index_tree cmp idx' t' \<and>
    (if old = None \<and> mem = NULL then rbtree_insert mem idx k d rd = Some (idx', rd, - 1) \<and> t' = t
     else rbtree_insert mem idx k d rd = Some (idx', out_param rd old, 0) \<and>
       entries t' = put_entry cmp k d (entries t) \<and>
       set (addrs t') = set (addrs t) \<union> (if old = None then {ref_of mem} else {}))"
proof -
  from assms(1) obtain T where T: "idx = Ref \<lparr>metadata = Ref T, idx_comparator = cmp\<rparr>"
    "rep (of_nat (length (entries t))) False T t" "is_rb t" "sorted_entries cmp (entries t)"
    by (rule index_treeE)
  let ?T = "T\<lparr>rbt_locked := True\<rparr>" and ?sz = "of_nat (length (entries t)) :: u64"
  let ?idx = "\<lambda>T'. Ref \<lparr>metadata = Ref (T'\<lparr>rbt_locked := False\<rparr>), idx_comparator = cmp\<rparr>"
  have rp: "rep ?sz True ?T t" by (rule rep_lock [OF T(2)])
  then have fresh: "mem = NULL \<or> mem = Ref a \<and> rbt_nodes ?T a = None"
    using assms(2) unfolding rep_def by (metis domIff)
  have post: "insert_post cmp ?sz True mem k d rd t (insert_tree mem cmp k d rd ?T)"
    by (rule insert_tree_ok [OF rp T(3,4) fresh])
  show ?thesis
  proof (cases "old = None \<and> mem = NULL")
    case True
    with post assms(3) obtain T' where "insert_tree mem cmp k d rd ?T = Some (T', rd, - 1)" "rep ?sz True T' t"
      unfolding insert_post_def by auto
    with T True show ?thesis
      by (intro exI [of _ "?idx T'"] exI [of _ t]) (auto simp: rbtree_insert_def index_tree_def intro: rep_lock)
  next
    case False
    with post assms(3) obtain T' t' where T': "insert_tree mem cmp k d rd ?T = Some (T', out_param rd old, 0)"
        "rep (?sz + (if old = None then 1 else 0)) True T' t'" "is_rb t'" "entries t' = put_entry cmp k d (entries t)"
        "mset (addrs t') = mset (addrs t) + (if old = None then {#ref_of mem#} else {#})"
      unfolding insert_post_def by auto
    have "?sz + (if old = None then 1 else 0) = of_nat (length (entries t'))"
      using length_put_entry [OF T(4), of k d] assms(3) T'(4) by simp
    with T'(2) have "rep (of_nat (length (entries t'))) False (T'\<lparr>rbt_locked := False\<rparr>) t'" by (auto intro: rep_lock)
    moreover have "sorted_entries cmp (entries t')" unfolding T'(4) by (rule sorted_put_entry [OF T(4)])
    moreover have "set (addrs t') = set (addrs t) \<union> (if old = None then {ref_of mem} else {})"
      using arg_cong [OF T'(5), of set_mset] by auto
    ultimately show ?thesis
      using T(1) T'(1,3,4) False
      by (intro exI [of _ "?idx T'"] exI [of _ t']) (auto simp: rbtree_insert_def index_tree_def)
  qed
qed

lemma length_drop_entry:
  assumes "entries t' = drop_entry cmp k (entries t)" "one_less t t'"
  shows "length (entries t) = length (entries t') + 1"
proof -
  from assms(2) have "length (addrs t) = length (addrs t') + 1"
    unfolding one_less_def by (metis Suc_eq_plus1 size_add_mset size_mset)
  then show ?thesis by (simp add: length_addrs)
qed

lemma rbtree_delete_ok:
  assumes "index_tree cmp idx t" "old = find_entry cmp k (entries t)"
  shows "\<exists>idx' t'. rbtree_delete idx k rd = Some (idx', out_param rd old, 0) \<and> index_tree cmp idx' t' \<and>
    entries t' = drop_entry cmp k (entries t) \<and> set (addrs t') \<subseteq> set (addrs t) \<and>
    length (entries t) = length (entries t') + (if old = None then 0 else 1)"
proof -
  from assms(1) obtain T where T: "idx = Ref \<lparr>metadata = Ref T, idx_comparator = cmp\<rparr>"
    "rep (of_nat (length (entries t))) False T t" "is_rb t" "sorted_entries cmp (entries t)"
    by (rule index_treeE)
  let ?T = "T\<lparr>rbt_locked := True\<rparr>" and ?sz = "of_nat (length (entries t)) :: u64"
  let ?idx = "\<lambda>T'. Ref \<lparr>metadata = Ref (T'\<lparr>rbt_locked := False\<rparr>), idx_comparator = cmp\<rparr>"
  have rp: "rep ?sz True ?T t" by (rule rep_lock [OF T(2)])
  from rp T(4) show ?thesis
  proof (cases rule: search_ok [where k = k])
    case (missing p)
    then have "drop_entry cmp k (entries t) = entries t"
      unfolding drop_entry_def find_entry_None by (simp add: filter_id_conv)
    with missing T rp assms(2) show ?thesis
      by (intro exI [of _ "?idx ?T"] exI [of _ t])
        (auto simp: rbtree_delete_def index_tree_def intro: rep_lock)
  next
    case (present D c l a e r)
    obtain T' t' where T': "rbtree_delete_node ?T (Ref a) = Some T'" "rep ?sz True T' t'" "is_rb t'"
        "entries t' = drop_entry cmp k (entries t)" "one_less t t'"
      using delete_found [of ?sz True ?T D c l a e r k] rp T(3,4) present by auto
    have len: "length (entries t) = length (entries t') + 1" by (rule length_drop_entry [OF T'(4,5)])
    let ?T2 = "T'\<lparr>rbt_size := rbt_size T' - 1\<rparr>"
    have "rep (of_nat (length (entries t'))) False (?T2\<lparr>rbt_locked := False\<rparr>) t'"
      using T'(2) len by (simp add: rep_def)
    moreover have "sorted_entries cmp (entries t')" unfolding T'(4) by (rule sorted_drop_entry [OF T(4)])
    moreover have "set (addrs t') \<subseteq> set (addrs t)"
      using T'(5) unfolding one_less_def by (metis insertCI set_mset_add_mset_insert set_mset_mset subsetI)
    moreover have "rbnode ?T (Ref a) = Some (mk_node (up D) (root_of l) (root_of r) c e)"
      using rep_node [of ?sz True ?T D c l a e r] rp present(2) by simp
    ultimately show ?thesis
      using T(1) T'(1,3,4) present(1,5) len assms(2)
      by (intro exI [of _ "?idx ?T2"] exI [of _ t']) (simp add: rbtree_delete_def index_tree_def)
  qed
qed

lemma rbtree_lookup_ok:
  assumes "index_tree cmp idx t"
  shows "rbtree_find idx k = Some (case find_entry cmp k (entries t) of None \<Rightarrow> NULL | Some d \<Rightarrow> d)"
    and "rbtree_contains idx k = Some (find_entry cmp k (entries t) \<noteq> None)"
    and "rbtree_size idx = Some (of_nat (length (entries t)))"
proof -
  from assms obtain T where T: "idx = Ref \<lparr>metadata = Ref T, idx_comparator = cmp\<rparr>"
    "rep (of_nat (length (entries t))) False T t" "is_rb t" "sorted_entries cmp (entries t)"
    by (rule index_treeE)
  show "rbtree_size idx = Some (of_nat (length (entries t)))"
    using T(1,2) by (simp add: rbtree_size_def rep_def)
  have "rbtree_find idx k = Some (case find_entry cmp k (entries t) of None \<Rightarrow> NULL | Some d \<Rightarrow> d) \<and>
    rbtree_contains idx k = Some (find_entry cmp k (entries t) \<noteq> None)"
    using T(2,4)
  proof (cases rule: search_ok [where k = k])
    case (missing p)
    then show ?thesis using T(1) by (simp add: rbtree_find_def rbtree_contains_def)
  next
    case (present D c l a e r)
    then have "rbnode T (Ref a) = Some (mk_node (up D) (root_of l) (root_of r) c e)"
      using rep_node [of _ False T D c l a e r] T(2) by auto
    then show ?thesis using T(1) present(1,5) by (simp add: rbtree_find_def rbtree_contains_def)
  qed
  then show "rbtree_find idx k = Some (case find_entry cmp k (entries t) of None \<Rightarrow> NULL | Some d \<Rightarrow> d)"
    "rbtree_contains idx k = Some (find_entry cmp k (entries t) \<noteq> None)" by auto
qed

lemma insert_step_ok:
  assumes "index_holds cmp s c" "set (new_nodes [Insert mem k d rd]) \<inter> index_nodes s = {}"
  shows "\<exists>s'. rbtree_step s (Insert mem k d rd) = Some (s', snd (spec_op cmp (Insert mem k d rd) c)) \<and>
    index_holds cmp s' (fst (spec_op cmp (Insert mem k d rd) c)) \<and>
    index_nodes s' \<subseteq> index_nodes s \<union> set (new_nodes [Insert mem k d rd])"
proof -
  obtain t where t: "index_tree cmp s t" "c = (\<lambda>k. find_entry cmp k (entries t), length (entries t))"
    using assms(1) by (auto simp: index_holds_def prod_eq_iff)
  have "mem = NULL \<or> mem = Ref (ref_of mem) \<and> ref_of mem \<notin> set (addrs t)"
    using assms(2) index_nodes_tree [OF t(1)] by (cases mem) auto
  from rbtree_insert_ok [OF t(1) this refl, of k d rd] obtain s' t' where
    s': "index_tree cmp s' t'" and ins: "if find_entry cmp k (entries t) = None \<and> mem = NULL
      then rbtree_insert mem s k d rd = Some (s', rd, - 1) \<and> t' = t
      else rbtree_insert mem s k d rd = Some (s', out_param rd (find_entry cmp k (entries t)), 0) \<and>
       entries t' = put_entry cmp k d (entries t) \<and>
       set (addrs t') = set (addrs t) \<union> (if find_entry cmp k (entries t) = None then {ref_of mem} else {})"
    by blast
  have srt: "sorted_entries cmp (entries t)" using t(1) by (auto simp: index_tree_def)
  show ?thesis
  proof (cases "find_entry cmp k (entries t) = None \<and> mem = NULL")
    case True
    with ins s' t(2) show ?thesis
      by (intro exI [of _ s'])
        (auto simp: rbtree_step_def index_holds_def index_nodes_tree [OF s'] index_nodes_tree [OF t(1)])
  next
    case False
    then have "index_nodes s' \<subseteq> index_nodes s \<union> set (new_nodes [Insert mem k d rd])"
      using ins by (cases mem) (auto simp: index_nodes_tree [OF s'] index_nodes_tree [OF t(1)])
    moreover have "index_holds cmp s' (fst (spec_op cmp (Insert mem k d rd) c))"
      using False ins s' t(2) length_put_entry [OF srt, of k d]
      by (auto simp: index_holds_def find_put_entry [OF srt] intro!: exI [of _ t'])
    ultimately show ?thesis using False ins t(2) by (auto simp: rbtree_step_def)
  qed
qed

lemma delete_step_ok:
  assumes "index_holds cmp s c"
  shows "\<exists>s'. rbtree_step s (Delete k rd) = Some (s', snd (spec_op cmp (Delete k rd) c)) \<and>
    index_holds cmp s' (fst (spec_op cmp (Delete k rd) c)) \<and> index_nodes s' \<subseteq> index_nodes s"
proof -
  obtain t where t: "index_tree cmp s t" "c = (\<lambda>k. find_entry cmp k (entries t), length (entries t))"
    using assms(1) by (auto simp: index_holds_def prod_eq_iff)
  from rbtree_delete_ok [OF t(1) refl, of k rd] obtain s' t' where
    "rbtree_delete s k rd = Some (s', out_param rd (find_entry cmp k (entries t)), 0)" and s': "index_tree cmp s' t'"
    and "entries t' = drop_entry cmp k (entries t)" "set (addrs t') \<subseteq> set (addrs t)"
      "length (entries t) = length (entries t') + (if find_entry cmp k (entries t) = None then 0 else 1)"
    by blast
  then show ?thesis
    using t(2) by (intro exI [of _ s'])
      (auto simp: rbtree_step_def index_holds_def index_nodes_tree [OF s'] index_nodes_tree [OF t(1)]
        find_drop_entry intro!: exI [of _ t'])
qed

lemma lookup_step_ok:
  assumes "index_holds cmp s c" "x = Find k \<or> x = Contains k \<or> x = Size"
  shows "rbtree_step s x = Some (s, snd (spec_op cmp x c))" "fst (spec_op cmp x c) = c"
proof -
  obtain t where t: "index_tree cmp s t" "c = (\<lambda>k. find_entry cmp k (entries t), length (entries t))"
    using assms(1) by (auto simp: index_holds_def prod_eq_iff)
  show "rbtree_step s x = Some (s, snd (spec_op cmp x c))" "fst (spec_op cmp x c) = c"
    using assms(2) rbtree_lookup_ok [OF t(1)] t(2) by (auto simp: rbtree_step_def)
qed

lemma rbtree_is_index: "key_index cmp (index_holds cmp) index_nodes (rbtree_step :: ('d, 'v) index_t ref \<Rightarrow> _)"
proof
  fix s :: "('d, 'v) index_t ref" and c :: "('d, 'v) contents" and x :: "('d, 'v) index_op"
  assume s: "index_holds cmp s c" "set (new_nodes [x]) \<inter> index_nodes s = {}"
  show "\<exists>s'. rbtree_step s x = Some (s', snd (spec_op cmp x c)) \<and> index_holds cmp s' (fst (spec_op cmp x c)) \<and>
      index_nodes s' \<subseteq> index_nodes s \<union> set (new_nodes [x])"
  proof (cases x)
    case Insert
    then show ?thesis using insert_step_ok s by simp
  next
    case (Delete k rd)
    then show ?thesis using delete_step_ok [OF s(1), of k rd] by auto
  next
    case (Find k)
    then show ?thesis using lookup_step_ok [OF s(1), of x k] s(1) by auto
  next
    case (Contains k)
    then show ?thesis using lookup_step_ok [OF s(1), of x k] s(1) by auto
  next
    case Size
    then show ?thesis using lookup_step_ok [OF s(1), of x] s(1) by auto
  qed
qed

lemma new_index_holds:
  fixes idx :: "('d, 'v) index_t ref"
  assumes "idx = rbtree_create_index_with_heap True True cmp"
  shows "index_holds cmp idx (\<lambda>k. None, 0)" "index_nodes idx = {}"
proof -
  have "index_tree cmp idx Lf"
    by (simp add: assms index_tree_def rbtree_create_index_with_heap_def rep_def is_rb_def)
  then show "index_holds cmp idx (\<lambda>k. None, 0)" "index_nodes idx = {}"
    by (auto simp: index_holds_def index_nodes_tree intro!: exI [of _ Lf])
qed

end


subsection \<open>Iterators\<close>

lemma nodes_in_heap:
  "tree_at h p t \<Longrightarrow> x \<in> set (nodes_in t) \<Longrightarrow>
   \<exists>n. h (fst x) = Some n \<and> rb_key n = fst (snd x) \<and> rb_data n = snd (snd x)"
  by (induction t arbitrary: p) auto

lemma next_one:
  assumes "rbi_size it = of_nat n" "n < 2 ^ 64" "i < n"
  shows "rbtree_iterator_next (it\<lparr>rbi_current_index := of_nat i\<rparr>) = it\<lparr>rbi_current_index := of_nat (Suc i)\<rparr>"
proof -
  have "(of_nat i + 1 :: u64) = of_nat (Suc i)" by simp
  moreover have "Suc i = n" if "(of_nat n :: u64) \<le> of_nat (Suc i)"
    using that assms(2,3) by (subst (asm) of_nat64_le) auto
  ultimately show ?thesis using assms(1) by (auto simp: rbtree_iterator_next_def Let_def simp del: of_nat_Suc)
qed

lemma next_iterated:
  assumes "rbi_current_index it = 0" "rbi_size it = of_nat n" "n < 2 ^ 64" "i \<le> n"
  shows "(rbtree_iterator_next ^^ i) it = it\<lparr>rbi_current_index := of_nat i\<rparr>"
  using assms(4)
proof (induction i)
  case (Suc i)
  then show ?case using next_one [OF assms(2,3), of i] by (simp del: of_nat_Suc)
qed (use assms(1) in \<open>cases it; simp\<close>)

context comparator_order
begin

lemma rbtree_search_ok:
  assumes "index_tree cmp (Ref \<lparr>metadata = Ref T, idx_comparator = cmp\<rparr>) t"
  shows "rbtree_search True True True True (Ref \<lparr>metadata = Ref T, idx_comparator = cmp\<rparr>) key1 key2 criteria =
    Some (Ref \<lparr>rbi_size = of_nat (length (chosen cmp key1 key2 criteria t)), rbi_current_index = 0,
      rbi_items = chosen cmp key1 key2 criteria t\<rparr>)"
proof -
  have rp: "rep (of_nat (length (entries t))) False T (fill [] t)" and srt: "sorted_entries cmp (entries t)"
    using assms by (auto simp: index_tree_def)
  have "inorder_loop cmp T key1 key2 criteria (root_of t) [] [] = Some (chosen cmp key1 key2 criteria t)"
    using inorder_loop_ok [OF rp srt, of criteria "[]" key1 key2 "[]"]
    by (simp add: inorder_loop.simps [of cmp T key1 key2 criteria NULL "[]"])
  moreover have "rbt_root T = root_of t" using rp by (simp add: rep_def)
  ultimately show ?thesis by (simp add: rbtree_search_def rbtree_inorder_def)
qed

end

interpretation default_index:
  key_index list_default_data_comparator "index_holds list_default_data_comparator" index_nodes rbtree_step
  by (rule default_order.rbtree_is_index)

subsection \<open>An example\<close>

abbreviation num_order :: "u64 comparator" where
  "num_order \<equiv> list_default_data_comparator"

definition rb_sample_tree :: "(u64, u64) rtree" where
  "rb_sample_tree = Nd black (Nd red Lf 1 (Ref 3, Ref 30) Lf) 2 (Ref 5, Ref 50) (Nd red Lf 3 (Ref 7, Ref 70) Lf)"

definition rb_sample_nodes :: "nat \<rightharpoonup> (u64, u64) rbtree_node_t" where
  "rb_sample_nodes = [2 \<mapsto> mk_node NULL (Ref 1) (Ref 3) black (Ref 5, Ref 50),
     1 \<mapsto> mk_node (Ref 2) NULL NULL red (Ref 3, Ref 30), 3 \<mapsto> mk_node (Ref 2) NULL NULL red (Ref 7, Ref 70)]"

definition sample_rbtree :: "(u64, u64) rbtree_t" where
  "sample_rbtree = \<lparr>rbt_locked = False, rbt_size = 3, rbt_root = Ref 2, rbt_nodes = rb_sample_nodes\<rparr>"

definition rb_sample_index :: "(u64, u64) index_t ref" where
  "rb_sample_index = Ref \<lparr>metadata = Ref sample_rbtree, idx_comparator = num_order\<rparr>"

lemma rb_sample_ok [simp]: "index_tree num_order rb_sample_index rb_sample_tree"
  unfolding index_tree_def rb_sample_index_def
  by (intro exI [of _ sample_rbtree])
    (auto simp: sample_rbtree_def rb_sample_nodes_def rb_sample_tree_def rep_def is_rb_def sorted_entries_def
      list_default_data_comparator_def)

subsection \<open>Properties\<close>

text \<open>
  C1. The red-black tree refines a finite map: from a new index, any sequence of insertions (with
  or without memory), deletions, lookups, membership tests and size queries runs without touching
  memory that is not a node, ends, gives the results a map of keys to data gives, and leaves a tree
  that holds this map and is a red-black tree with consistent parent and child pointers.
\<close>

theorem rbtree_refines_map:
  assumes "comparator_order cmp" "distinct (new_nodes ops)"
  shows "\<exists>idx. run_index rbtree_step ops (rbtree_create_index_with_heap True True cmp) =
      Some (idx, snd (spec_ops cmp ops (\<lambda>k. None, 0))) \<and>
    index_holds cmp idx (fst (spec_ops cmp ops (\<lambda>k. None, 0)))"
  by (rule key_index.run_ok [OF comparator_order.rbtree_is_index [OF assms(1)]
        comparator_order.new_index_holds(1) [OF assms(1) refl] assms(2)])
    (simp add: comparator_order.new_index_holds(2) [OF assms(1) refl])

theorem rbtree_refines_map_witness:
  "\<exists>idx. run_index rbtree_step
      [Insert (Ref 11) (Ref 5) (Ref 50) NULL, Insert (Ref 12) (Ref 3) (Ref 30) NULL, Insert NULL (Ref 4) (Ref 40) NULL,
       Insert (Ref 13) (Ref 5) (Ref 51) (Ref NULL), Delete (Ref 3) (Ref NULL), Find (Ref 5), Contains (Ref 3), Size]
      (rbtree_create_index_with_heap True True num_order) =
    Some (idx, [Removed NULL 0, Removed NULL 0, Removed NULL (- 1), Removed (Ref (Ref (50 :: u64))) 0,
      Removed (Ref (Ref 30)) 0, Found (Ref 51), Is False, Count 1])"
proof -
  have "comparator_order num_order" by (rule default_order.comparator_order_axioms)
  from rbtree_refines_map [OF this, of "[Insert (Ref 11) (Ref 5) (Ref 50) NULL, Insert (Ref 12) (Ref 3) (Ref 30) NULL,
      Insert NULL (Ref 4) (Ref 40) NULL, Insert (Ref 13) (Ref 5) (Ref 51) (Ref NULL), Delete (Ref 3) (Ref NULL),
      Find (Ref 5), Contains (Ref 3), Size]"]
  show ?thesis by (simp add: list_default_data_comparator_def store_def Let_def) blast
qed

text \<open>
  C9. Deleting a key from a red-black tree returns its data through the pointer it was given,
  removes exactly this entry, frees exactly one node, and gives a red-black tree again: no node has
  a red parent if it is red, and every path has the same number of black nodes.
\<close>

theorem rbtree_delete_spec:
  assumes "comparator_order cmp" "index_tree cmp idx t" "find_entry cmp k (entries t) = Some d"
  shows "\<exists>idx' t'. rbtree_delete idx k rd = Some (idx', store rd d, 0) \<and> index_tree cmp idx' t' \<and>
    entries t' = drop_entry cmp k (entries t) \<and> index_nodes idx' \<subset> index_nodes idx \<and>
    card (index_nodes idx) = card (index_nodes idx') + 1"
proof -
  obtain idx' t' where *: "rbtree_delete idx k rd = Some (idx', out_param rd (Some d), 0)" "index_tree cmp idx' t'"
      "entries t' = drop_entry cmp k (entries t)" "set (addrs t') \<subseteq> set (addrs t)"
      "length (entries t) = length (entries t') + 1"
    using comparator_order.rbtree_delete_ok [OF assms(1,2) refl, of k rd] assms(3) by auto
  have "card (set (addrs s)) = length (entries s)" if "index_tree cmp i s" for i s
    using that by (auto simp: index_tree_def rep_def distinct_card length_addrs)
  from this [OF assms(2)] this [OF *(2)] *(5) have c: "card (set (addrs t)) = card (set (addrs t')) + 1" by simp
  with *(4) have "set (addrs t') \<subset> set (addrs t)" by auto
  with * c show ?thesis
    by (intro exI [of _ idx'] exI [of _ t'])
      (simp add: index_nodes_tree [OF assms(2)] index_nodes_tree [OF *(2)])
qed

theorem rbtree_delete_spec_witness:
  "\<exists>idx' t'. rbtree_delete rb_sample_index (Ref 5) (Ref NULL) = Some (idx', Ref (Ref 50), 0) \<and>
    index_tree num_order idx' t' \<and> entries t' = [(Ref 3, Ref 30), (Ref 7, Ref 70)] \<and> card (index_nodes idx') = 2"
proof -
  have "comparator_order num_order" by (rule default_order.comparator_order_axioms)
  moreover have "find_entry num_order (Ref 5) (entries rb_sample_tree) = Some (Ref 50)"
    "drop_entry num_order (Ref 5) (entries rb_sample_tree) = [(Ref 3, Ref 30), (Ref 7, Ref 70)]"
    by (simp_all add: rb_sample_tree_def list_default_data_comparator_def drop_entry_def)
  moreover have "card (index_nodes rb_sample_index) = 3"
    by (simp add: index_nodes_tree [OF rb_sample_ok] rb_sample_tree_def)
  ultimately show ?thesis
    using rbtree_delete_spec [of num_order rb_sample_index rb_sample_tree "Ref 5" "Ref 50" "Ref NULL"]
    by (auto simp: store_def)
qed

text \<open>
  C10. Searching an index by a criterion gives an iterator over exactly the entries whose keys meet
  the criterion, in ascending order: after \<open>i\<close> steps it shows the key and the data of the \<open>i\<close>th of
  them, and it reports its end after the last.
\<close>

theorem rbtree_search_spec:
  assumes "comparator_order cmp" "index_tree cmp (Ref \<lparr>metadata = Ref T, idx_comparator = cmp\<rparr>) t"
    and "es = filter (\<lambda>e. wanted cmp key1 key2 criteria (fst e)) (entries t)" "length es < 2 ^ 64" "i \<le> length es"
  shows "\<exists>it. rbtree_search True True True True (Ref \<lparr>metadata = Ref T, idx_comparator = cmp\<rparr>) key1 key2 criteria =
      Some (Ref it) \<and>
    rbtree_iterator_end_of_index ((rbtree_iterator_next ^^ i) it) = (if i < length es then 1 else 0) \<and>
    rbtree_iterator_get_key T ((rbtree_iterator_next ^^ i) it) = Some (if i < length es then fst (es ! i) else NULL) \<and>
    rbtree_iterator_get_data T ((rbtree_iterator_next ^^ i) it) = Some (if i < length es then snd (es ! i) else NULL)"
proof -
  let ?xs = "filter (\<lambda>x. wanted cmp key1 key2 criteria (fst (snd x))) (nodes_in t)"
  have es: "es = map snd ?xs" using assms(3) filter_map [of "\<lambda>e. wanted cmp key1 key2 criteria (fst e)" snd "nodes_in t"]
    by (simp add: o_def)
  define it where "it = \<lparr>rbi_size = of_nat (length es), rbi_current_index = 0, rbi_items = map (Ref \<circ> fst) ?xs\<rparr>"
  have it: "rbtree_search True True True True (Ref \<lparr>metadata = Ref T, idx_comparator = cmp\<rparr>) key1 key2 criteria = Some (Ref it)"
    using comparator_order.rbtree_search_ok [OF assms(1,2)] by (simp add: it_def es chosen_def)
  have steps: "(rbtree_iterator_next ^^ i) it = it\<lparr>rbi_current_index := of_nat i\<rparr>"
    by (rule next_iterated [OF _ _ assms(4,5)]) (simp_all add: it_def)
  have "tree_at (rbt_nodes T) NULL t" using assms(2) by (auto simp: index_tree_def rep_def)
  then have node: "\<exists>n. rbnode T (Ref (fst (?xs ! i))) = Some n \<and> rb_key n = fst (es ! i) \<and> rb_data n = snd (es ! i)"
    if "i < length es"
    using nodes_in_heap [of "rbt_nodes T" NULL t "?xs ! i"] nth_mem [of i ?xs] that by (auto simp: es rbnode_def)
  have "(of_nat i :: u64) = of_nat (length es) \<longleftrightarrow> \<not> i < length es" "unat (of_nat i :: u64) = i"
    using assms(4,5) by (auto simp: of_nat64_eq)
  moreover have "rbi_size it = of_nat (length es)" "rbi_items it = map (Ref \<circ> fst) ?xs" "length ?xs = length es"
    by (simp_all add: it_def es)
  ultimately show ?thesis
    using it node unfolding rbtree_iterator_end_of_index_def rbtree_iterator_get_key_def
      rbtree_iterator_get_data_def iterator_node_def
    by (intro exI [of _ it]) (cases "i < length es"; force simp: steps)
qed

theorem rbtree_search_spec_witness:
  "\<exists>it. rbtree_search True True True True rb_sample_index (Ref 4) (Ref 6) INDEXER_KEY_COMPARATOR_CRITERIA_EQUALORGREATER =
      Some (Ref it) \<and>
    rbtree_iterator_get_key sample_rbtree (rbtree_iterator_next it) = Some (Ref 7) \<and>
    rbtree_iterator_end_of_index (rbtree_iterator_next it) = 1"
proof -
  have order: "comparator_order num_order" by (rule default_order.comparator_order_axioms)
  have es: "[(Ref 5, Ref 50), (Ref 7, Ref 70)] =
      filter (\<lambda>e. wanted num_order (Ref 4) (Ref 6) INDEXER_KEY_COMPARATOR_CRITERIA_EQUALORGREATER (fst e)) (entries rb_sample_tree)"
    by (simp add: rb_sample_tree_def list_default_data_comparator_def)
  from rbtree_search_spec [OF order rb_sample_ok [unfolded rb_sample_index_def] es, of "Suc 0"] show ?thesis
    by (auto simp: rb_sample_index_def)
qed

text \<open>
  C11. Looking up a key compares at most \<open>2 * m\<close> keys in a tree of fewer than \<open>2 ^ m - 1\<close> entries.
\<close>

theorem rbtree_search_bound:
  assumes "index_tree cmp (Ref \<lparr>metadata = Ref T, idx_comparator = cmp\<rparr>) t" "length (entries t) + 1 < 2 ^ m"
  shows "search_within (2 * m) cmp T k (rbt_root T) = rbtree_search_node T k cmp"
proof -
  have t: "rep (of_nat (length (entries t))) False T (fill [] t)" "is_rb t"
    using assms(1) by (auto simp: index_tree_def)
  have "(2 :: nat) ^ (height t div 2) < 2 ^ m" using height_size [OF t(2)] assms(2) by linarith
  then have "height t div 2 < m" by (rule power_less_imp_less_exp [rotated]) simp
  then have "height t \<le> 2 * m" by simp
  with search_within_ok [OF t(1)] show ?thesis
    using t(1) by (simp add: rbtree_search_node_def rep_def)
qed

theorem rbtree_search_bound_witness:
  "search_within 6 num_order sample_rbtree (Ref 7) (Ref 2) = Some (True, Ref 3)"
proof -
  have "search_within (2 * 3) num_order sample_rbtree (Ref 7) (rbt_root sample_rbtree) =
      rbtree_search_node sample_rbtree (Ref 7) num_order"
    by (rule rbtree_search_bound [of _ _ rb_sample_tree])
      (use rb_sample_ok in \<open>simp_all add: rb_sample_index_def rb_sample_tree_def\<close>)
  moreover have "rbtree_search_node sample_rbtree (Ref 7) num_order = Some (True, Ref 3)"
    by (simp add: rbtree_search_node_def search_loop.simps sample_rbtree_def rb_sample_nodes_def rbnode_def
        list_default_data_comparator_def)
  ultimately show ?thesis by (simp add: sample_rbtree_def)
qed

text \<open>
  C12. Destroying an index ends, never reads a node it has freed, frees every node once, and
  returns 0.
\<close>

theorem rbtree_destroy_spec:
  assumes "index_tree cmp idx t"
  shows "rbtree_destroy_index idx = Some (Map.empty, 0)"
proof (cases t)
  case Lf
  then show ?thesis using assms by (auto simp: index_tree_def rep_def rbtree_destroy_index_def)
next
  case (Nd c l a e r)
  then show ?thesis
    using assms destroy_tree_ok [of "of_nat (length (entries t))" False _ c l a e r]
    by (fastforce simp: index_tree_def rep_def rbtree_destroy_index_def)
qed

theorem rbtree_destroy_spec_witness: "rbtree_destroy_index rb_sample_index = Some (Map.empty, 0)"
  by (rule rbtree_destroy_spec [OF rb_sample_ok])

end
