(* ===== verification/Sorting.thy ===== *)
theory Sorting
  imports LinkedList_Sorted Memory_Bytes
begin

text \<open>
  Sorting and searching arrays: \<open>cc/lib/quicksort.64.c\<close>, \<open>cc/lib/binarysearch.64.c\<close> and the
  pattern search of \<open>cc/lib/sunday_match.64.c\<close>. An array is the list of its items; reading or
  writing outside of it has no value. Indices are 64 bit words.
\<close>

subsection \<open>Quicksort\<close>

definition item_get :: "'a list \<Rightarrow> u64 \<Rightarrow> 'a option" where
  "item_get arr i = (if unat i < length arr then Some (arr ! unat i) else None)"

partial_function (option) scan_up :: "('a \<Rightarrow> 'a \<Rightarrow> int) \<Rightarrow> 'a list \<Rightarrow> u64 \<Rightarrow> u64 \<Rightarrow> u64 option" where
  "scan_up cmp arr pivot i = do {
     x \<leftarrow> item_get arr i;
     p \<leftarrow> item_get arr pivot;
     if cmp x p < 0 then scan_up cmp arr pivot (i + 1) else Some i
   }"

partial_function (option) scan_down :: "('a \<Rightarrow> 'a \<Rightarrow> int) \<Rightarrow> 'a list \<Rightarrow> u64 \<Rightarrow> u64 \<Rightarrow> u64 option" where
  "scan_down cmp arr pivot j = do {
     x \<leftarrow> item_get arr j;
     p \<leftarrow> item_get arr pivot;
     if cmp x p > 0 \<and> j \<noteq> 0 then scan_down cmp arr pivot (j - 1) else Some j
   }"

text \<open>\<open>swap x y\<close> is what the two items are after the call of the swap function.\<close>

definition swap_items :: "('a \<Rightarrow> 'a \<Rightarrow> 'a \<times> 'a) \<Rightarrow> 'a list \<Rightarrow> u64 \<Rightarrow> u64 \<Rightarrow> 'a list option" where
  "swap_items swap arr i j = do {
     x \<leftarrow> item_get arr i;
     y \<leftarrow> item_get arr j;
     Some (arr[unat i := fst (swap x y), unat j := snd (swap x y)])
   }"

text \<open>The loop that splits an array around the item at \<open>pivot\<close>: the array and the two indices.\<close>

partial_function (option) split_loop ::
  "('a \<Rightarrow> 'a \<Rightarrow> int) \<Rightarrow> ('a \<Rightarrow> 'a \<Rightarrow> 'a \<times> 'a) \<Rightarrow> u64 \<Rightarrow> 'a list \<Rightarrow> u64 \<Rightarrow> u64 \<Rightarrow> ('a list \<times> u64 \<times> u64) option" where
  "split_loop cmp swap pivot arr i j =
     (if i \<le> j then do {
        i1 \<leftarrow> scan_up cmp arr pivot i;
        j1 \<leftarrow> scan_down cmp arr pivot j;
        if i1 < j1 then do {
          arr1 \<leftarrow> swap_items swap arr i1 j1;
          if j1 = 0 then Some (arr1, i1 + 1, j1)
          else split_loop cmp swap pivot arr1 (i1 + 1) (j1 - 1)
        }
        else if i1 = j1 then
          (if j1 = 0 then Some (arr, i1 + 1, j1) else Some (arr, i1 + 1, j1 - 1))
        else split_loop cmp swap pivot arr i1 j1
      }
      else Some (arr, i, j))"

partial_function (option) sort_partial ::
  "('a \<Rightarrow> 'a \<Rightarrow> int) \<Rightarrow> ('a \<Rightarrow> 'a \<Rightarrow> 'a \<times> 'a) \<Rightarrow> 'a list \<Rightarrow> u64 \<Rightarrow> u64 \<Rightarrow> 'a list option" where
  "sort_partial cmp swap arr start end' = do {
     r \<leftarrow> split_loop cmp swap start arr start end';
     arr1 \<leftarrow> (if start < snd (snd r) then sort_partial cmp swap (fst r) start (snd (snd r)) else Some (fst r));
     if fst (snd r) < end' then sort_partial cmp swap arr1 (fst (snd r)) end' else Some arr1
   }"

declare scan_up.simps [code] scan_down.simps [code] split_loop.simps [code] sort_partial.simps [code]

text \<open>
  The two functions differ in how an item reaches the comparator: \<open>quicksort_partial\<close> hands it
  pointers into the array and swaps with a function of the caller, \<open>quicksort2_partial\<close> has an
  array of pointers and swaps them itself.
\<close>

definition quicksort_partial ::
  "'d comparator \<Rightarrow> ('d \<Rightarrow> 'd \<Rightarrow> 'd \<times> 'd) \<Rightarrow> 'd list \<Rightarrow> u64 \<Rightarrow> u64 \<Rightarrow> 'd list option" where
  "quicksort_partial comparator swap arr start end' =
     sort_partial (\<lambda>x y. comparator (Ref x) (Ref y)) swap arr start end'"

definition quicksort2_partial :: "'d comparator \<Rightarrow> 'd ref list \<Rightarrow> u64 \<Rightarrow> u64 \<Rightarrow> 'd ref list option" where
  "quicksort2_partial comparator arr start end' = sort_partial comparator (\<lambda>x y. (y, x)) arr start end'"

definition quicksort :: "'d comparator \<Rightarrow> ('d \<Rightarrow> 'd \<Rightarrow> 'd \<times> 'd) \<Rightarrow> 'd list \<Rightarrow> u64 \<Rightarrow> 'd list option" where
  "quicksort comparator swap arr size' = quicksort_partial comparator swap arr 0 (size' - 1)"

definition quicksort2 :: "'d comparator \<Rightarrow> 'd ref list \<Rightarrow> u64 \<Rightarrow> 'd ref list option" where
  "quicksort2 comparator arr size' = quicksort2_partial comparator arr 0 (size' - 1)"

subsection \<open>Binary search\<close>

text \<open>The result is the index of the item found, \<open>NULL\<close> when there is none.\<close>

partial_function (option) binarysearch_loop ::
  "'d comparator \<Rightarrow> 'd list \<Rightarrow> u64 \<Rightarrow> 'd ref \<Rightarrow> u64 \<Rightarrow> u64 \<Rightarrow> u64 ref option" where
  "binarysearch_loop cmp arr size' key first' last' = do {
     x \<leftarrow> item_get arr first';
     y \<leftarrow> item_get arr last';
     if cmp (Ref x) (Ref y) < 1 then do {
       let middle = (first' + last') div 2;
       m \<leftarrow> item_get arr middle;
       let cmp_result = cmp (Ref m) key;
       if cmp_result = - 1 then
         (if middle = size' - 1 then Some NULL
          else if middle + 1 > last' then Some NULL
          else binarysearch_loop cmp arr size' key (middle + 1) last')
       else if cmp_result = 1 then
         (if middle = 0 then Some NULL
          else if first' > middle - 1 then Some NULL
          else binarysearch_loop cmp arr size' key first' (middle - 1))
       else Some (Ref middle)
     }
     else Some NULL
   }"

declare binarysearch_loop.simps [code]

definition binarysearch :: "'d comparator \<Rightarrow> 'd list \<Rightarrow> u64 \<Rightarrow> 'd ref \<Rightarrow> u64 ref option" where
  "binarysearch cmp arr size' key = binarysearch_loop cmp arr size' key 0 (size' - 1)"

subsection \<open>Pattern search\<close>

text \<open>
  Lengths and positions are \<open>int64_t\<close>: 64 bit words, compared by their signed values. The loop that
  fills the table reads \<open>pattern_len\<close> bytes of the pattern.
\<close>

definition byte_get :: "bytes \<Rightarrow> u64 \<Rightarrow> u8 option" where
  "byte_get m i = (if 0 \<le> sint i then byte_at m (nat (sint i)) else None)"

fun skip_table :: "bytes \<Rightarrow> u64 \<Rightarrow> u64 \<Rightarrow> (u8 \<Rightarrow> u64) \<Rightarrow> u8 \<Rightarrow> u64" where
  "skip_table [] pattern_len i skip = skip"
| "skip_table (c # cs) pattern_len i skip = skip_table cs pattern_len (i + 1) (skip(c := pattern_len - i))"

partial_function (option) match_at :: "bytes \<Rightarrow> bytes \<Rightarrow> u64 \<Rightarrow> u64 \<Rightarrow> u64 \<Rightarrow> bool option" where
  "match_at data pattern pattern_len pos j = do {
     x \<leftarrow> byte_get data (pos + j);
     y \<leftarrow> byte_get pattern j;
     if x = y then (if j + 1 = pattern_len then Some True else match_at data pattern pattern_len pos (j + 1))
     else Some False
   }"

partial_function (option) sunday_loop ::
  "bytes \<Rightarrow> u64 \<Rightarrow> bytes \<Rightarrow> u64 \<Rightarrow> (u8 \<Rightarrow> u64) \<Rightarrow> u64 \<Rightarrow> u64 option" where
  "sunday_loop data data_len pattern pattern_len skip pos =
     (if sint pos \<le> sint (data_len - pattern_len) then do {
        found \<leftarrow> match_at data pattern pattern_len pos 0;
        if found then Some pos
        else do {
          c \<leftarrow> byte_get data (pos + pattern_len);
          sunday_loop data data_len pattern pattern_len skip (pos + skip c)
        }
      }
      else Some (- 1))"

declare match_at.simps [code] sunday_loop.simps [code]

definition sunday_match :: "bytes \<Rightarrow> u64 \<Rightarrow> bytes \<Rightarrow> u64 \<Rightarrow> u64 option" where
  "sunday_match data data_len pattern pattern_len =
     (if sint pattern_len > sint data_len then Some (- 1)
      else if int (length pattern) < sint pattern_len then None
      else sunday_loop data data_len pattern pattern_len
        (skip_table (take (nat (sint pattern_len)) pattern) pattern_len 0 (\<lambda>_. pattern_len + 1)) 0)"

end
