(* ===== verification/Sorting_Props.thy ===== *)
theory Sorting_Props
  imports Sorting List_Dispatch
begin

text \<open>
  Quicksort sorts, binary search finds, and the pattern search returns the first occurrence.
\<close>

subsection \<open>The order of items\<close>

locale item_order =
  fixes cmp :: "'a \<Rightarrow> 'a \<Rightarrow> int"
  assumes sym: "cmp x y > 0 \<longleftrightarrow> cmp y x < 0"
    and trans: "cmp x y \<le> 0 \<Longrightarrow> cmp y z \<le> 0 \<Longrightarrow> cmp x z \<le> 0"
begin

lemma refl: "cmp x x = 0"
  using sym [of x x] by linarith

lemma total: "cmp x y \<le> 0 \<or> cmp y x \<le> 0"
  using sym [of x y] by linarith

lemma not_less: "\<not> cmp x y < 0 \<longleftrightarrow> cmp y x \<le> 0"
  using sym [of y x] by linarith

end

sublocale comparator_order < pointers: item_order cmp
proof
  show "0 < cmp x y \<longleftrightarrow> cmp y x < 0" for x y using cmp_flip [of x y] by linarith
  show "cmp x z \<le> 0" if "cmp x y \<le> 0" "cmp y z \<le> 0" for x y z using cmp_trans that .
qed

sublocale comparator_order < objects: item_order "\<lambda>x y. cmp (Ref x) (Ref y)"
  by unfold_locales (rule pointers.sym, rule pointers.trans)

subsection \<open>Splitting\<close>

text \<open>Only the items from \<open>s\<close> to \<open>e\<close> are permuted.\<close>

definition permutes :: "nat \<Rightarrow> nat \<Rightarrow> 'a list \<Rightarrow> 'a list \<Rightarrow> bool" where
  "permutes s e xs ys \<longleftrightarrow> mset ys = mset xs \<and> (\<forall>k<length xs. k < s \<or> e < k \<longrightarrow> ys ! k = xs ! k)"

lemma permutes_length: "permutes s e xs ys \<Longrightarrow> length ys = length xs"
  unfolding permutes_def by (metis size_mset)

lemma permutes_refl [simp]: "permutes s e xs xs"
  by (simp add: permutes_def)

lemma permutes_trans: "permutes s e xs ys \<Longrightarrow> permutes s e ys zs \<Longrightarrow> permutes s e xs zs"
  using permutes_length [of s e xs ys] by (simp add: permutes_def)

lemma permutes_mono: "permutes s e xs ys \<Longrightarrow> s' \<le> s \<Longrightarrow> e \<le> e' \<Longrightarrow> permutes s' e' xs ys"
  by (auto simp: permutes_def)

lemma permutes_swap:
  assumes "i < length xs" "j < length xs" "s \<le> i" "i \<le> e" "s \<le> j" "j \<le> e"
  shows "permutes s e xs (xs[i := xs ! j, j := xs ! i])"
  using assms by (auto simp: permutes_def nth_list_update mset_swap)

lemma permutes_nth:
  assumes "permutes s e xs ys" "s \<le> k" "k \<le> e" "e < length xs"
  shows "\<exists>l. s \<le> l \<and> l \<le> e \<and> ys ! k = xs ! l"
proof -
  let ?mid = "\<lambda>zs. take (e + 1 - s) (drop s zs)"
  have len: "length ys = length xs" by (rule permutes_length [OF assms(1)])
  have split: "mset zs = mset (take s zs) + mset (?mid zs) + mset (drop (e + 1) zs)" for zs :: "'a list"
  proof -
    have "zs = take s zs @ ?mid zs @ drop (e + 1 - s) (drop s zs)"
      by (simp only: append_take_drop_id)
    moreover have "drop (e + 1 - s) (drop s zs) = drop (e + 1) zs" using assms(2,3) by simp
    ultimately have "mset zs = mset (take s zs @ ?mid zs @ drop (e + 1) zs)" by metis
    then show ?thesis by (simp only: mset_append add.assoc)
  qed
  have "take s ys = take s xs" "drop (e + 1) ys = drop (e + 1) xs"
    using assms(1) len by (auto simp: permutes_def intro!: nth_equalityI)
  then have "mset (?mid ys) = mset (?mid xs)"
    using split [of xs] split [of ys] assms(1) by (simp add: permutes_def)
  then have set_eq: "set (?mid ys) = set (?mid xs)" by (metis set_mset_mset)
  have "ys ! k = ?mid ys ! (k - s)" "k - s < length (?mid ys)" using assms(2-4) len by auto
  then have "ys ! k \<in> set (?mid xs)" using set_eq nth_mem by metis
  then obtain m where "m < length (?mid xs)" "ys ! k = ?mid xs ! m" by (metis in_set_conv_nth)
  then show ?thesis using assms(2-4) by (intro exI [of _ "s + m"]) auto
qed

context item_order
begin

lemma scan_up_ok:
  assumes "i \<le> m" "m < length arr" "length arr < 2 ^ 63" "pv < length arr" "cmp (arr ! pv) (arr ! m) \<le> 0"
  shows "\<exists>i'. scan_up cmp arr (of_nat pv) (of_nat i) = Some (of_nat i') \<and> i \<le> i' \<and> i' \<le> m \<and>
    (\<forall>k. i \<le> k \<and> k < i' \<longrightarrow> cmp (arr ! k) (arr ! pv) < 0) \<and> cmp (arr ! pv) (arr ! i') \<le> 0"
  using assms(1)
proof (induction rule: inc_induct)
  case base
  then show ?case using assms not_less [of "arr ! m" "arr ! pv"]
    by (intro exI [of _ m]) (simp add: scan_up.simps [of cmp arr "of_nat pv"] item_get_def)
next
  case (step i)
  have get: "item_get arr (of_nat i) = Some (arr ! i)" "item_get arr (of_nat pv) = Some (arr ! pv)"
    using step.hyps assms by (simp_all add: item_get_def)
  have up: "scan_up cmp arr (of_nat pv) (of_nat i) =
      (if cmp (arr ! i) (arr ! pv) < 0 then scan_up cmp arr (of_nat pv) (of_nat (Suc i)) else Some (of_nat i))"
    by (simp add: scan_up.simps [of cmp arr "of_nat pv" "of_nat i"] get add.commute)
  show ?case
  proof (cases "cmp (arr ! i) (arr ! pv) < 0")
    case True
    obtain i' where i': "scan_up cmp arr (of_nat pv) (of_nat (Suc i)) = Some (of_nat i')" "Suc i \<le> i'" "i' \<le> m"
        "\<forall>k. Suc i \<le> k \<and> k < i' \<longrightarrow> cmp (arr ! k) (arr ! pv) < 0" "cmp (arr ! pv) (arr ! i') \<le> 0"
      using step.IH by blast
    moreover have "\<forall>k. i \<le> k \<and> k < i' \<longrightarrow> cmp (arr ! k) (arr ! pv) < 0"
      using i'(4) True by (metis Suc_leI le_neq_implies_less)
    ultimately show ?thesis using True up by (intro exI [of _ i']) simp
  next
    case False
    then show ?thesis using step.hyps not_less [of "arr ! i" "arr ! pv"] up
      by (intro exI [of _ i]) simp
  qed
qed

lemma scan_down_ok:
  assumes "m \<le> j" "j < length arr" "length arr < 2 ^ 63" "pv < length arr" "cmp (arr ! m) (arr ! pv) \<le> 0"
  shows "\<exists>j'. scan_down cmp arr (of_nat pv) (of_nat j) = Some (of_nat j') \<and> m \<le> j' \<and> j' \<le> j \<and>
    (\<forall>k. j' < k \<and> k \<le> j \<longrightarrow> cmp (arr ! k) (arr ! pv) > 0) \<and> cmp (arr ! j') (arr ! pv) \<le> 0"
  using assms(1,2)
proof (induction rule: dec_induct)
  case base
  then show ?case using assms
    by (intro exI [of _ m]) (simp add: scan_down.simps [of cmp arr "of_nat pv"] item_get_def)
next
  case (step j)
  have get: "item_get arr (of_nat (Suc j)) = Some (arr ! Suc j)" "item_get arr (of_nat pv) = Some (arr ! pv)"
    using step.prems assms by (simp_all add: item_get_def del: of_nat_Suc)
  have "(of_nat (Suc j) :: u64) \<noteq> 0" using step.prems assms(3) of_nat64_eq [of "Suc j" 0] by auto
  then have down: "scan_down cmp arr (of_nat pv) (of_nat (Suc j)) =
      (if cmp (arr ! Suc j) (arr ! pv) > 0 then scan_down cmp arr (of_nat pv) (of_nat j) else Some (of_nat (Suc j)))"
    unfolding scan_down.simps [of cmp arr "of_nat pv" "of_nat (Suc j)"] get by simp
  show ?case
  proof (cases "cmp (arr ! Suc j) (arr ! pv) > 0")
    case True
    obtain j' where j': "scan_down cmp arr (of_nat pv) (of_nat j) = Some (of_nat j')" "m \<le> j'" "j' \<le> j"
        "\<forall>k. j' < k \<and> k \<le> j \<longrightarrow> cmp (arr ! k) (arr ! pv) > 0" "cmp (arr ! j') (arr ! pv) \<le> 0"
      using step.IH step.prems by auto
    moreover have "\<forall>k. j' < k \<and> k \<le> Suc j \<longrightarrow> cmp (arr ! k) (arr ! pv) > 0"
      using j'(4) True by (metis le_Suc_eq)
    ultimately show ?thesis unfolding down using True by (intro exI [of _ j']) simp
  next
    case False
    then show ?thesis unfolding down using step.hyps by (intro exI [of _ "Suc j"]) auto
  qed
qed

text \<open>The array is split at \<open>p\<close>: what is left of \<open>i\<close> is at most \<open>p\<close>, what is right of \<open>j\<close> at least.\<close>

definition halves :: "nat \<Rightarrow> nat \<Rightarrow> 'a \<Rightarrow> 'a list \<Rightarrow> nat \<Rightarrow> nat \<Rightarrow> bool" where
  "halves s e p arr i j \<longleftrightarrow> (\<forall>k. s \<le> k \<and> k < i \<longrightarrow> cmp (arr ! k) p \<le> 0) \<and> (\<forall>k. j < k \<and> k \<le> e \<longrightarrow> cmp p (arr ! k) \<le> 0)"

lemma swap_items_ok:
  assumes "swap = (\<lambda>x y. (y, x))" "i < length arr" "j < length arr" "length arr < 2 ^ 63"
  shows "swap_items swap arr (of_nat i) (of_nat j) = Some (arr[i := arr ! j, j := arr ! i])"
  using assms by (simp add: swap_items_def item_get_def)

lemma halves_swap:
  assumes "halves s e p arr i1 j1" "i1 < j1" "j1 \<le> e" "j1 < length arr" "s \<le> i1"
    and "cmp (arr ! j1) p \<le> 0" "cmp p (arr ! i1) \<le> 0"
  shows "halves s e p (arr[i1 := arr ! j1, j1 := arr ! i1]) (Suc i1) (j1 - 1)"
proof -
  let ?arr = "arr[i1 := arr ! j1, j1 := arr ! i1]"
  have "cmp (?arr ! k) p \<le> 0" if "s \<le> k" "k < Suc i1" for k
    using that assms by (cases "k = i1") (auto simp: halves_def nth_list_update)
  moreover have "cmp p (?arr ! k) \<le> 0" if "j1 - 1 < k" "k \<le> e" for k
    using that assms by (cases "k = j1") (auto simp: halves_def nth_list_update)
  ultimately show ?thesis by (simp add: halves_def)
qed

lemma split_loop_ok:
  assumes swap: "swap = (\<lambda>x y. (y, x))" and "length arr < 2 ^ 63" "e < length arr"
    and "s < i" "i \<le> j + 1" "j < e" "halves s e (arr ! s) arr i j"
  shows "\<exists>arr' i' j'. split_loop cmp swap (of_nat s) arr (of_nat i) (of_nat j) = Some (arr', of_nat i', of_nat j') \<and>
    permutes s e arr arr' \<and> halves s e (arr ! s) arr' i' j' \<and> s < i' \<and> i' \<le> e \<and> j' < i'"
  using assms(2-)
proof (induction "j + 1 - i" arbitrary: arr i j rule: less_induct)
  case less
  let ?p = "arr ! s"
  show ?case
  proof (cases "i \<le> j")
    case False
    then show ?thesis using less.prems
      by (intro exI [of _ arr] exI [of _ i] exI [of _ j]) (simp add: split_loop.simps [of cmp swap _ arr])
  next
    case True
    obtain i1 where i1: "scan_up cmp arr (of_nat s) (of_nat i) = Some (of_nat i1)" "i \<le> i1" "i1 \<le> j + 1"
        "\<forall>k. i \<le> k \<and> k < i1 \<longrightarrow> cmp (arr ! k) ?p < 0" "cmp ?p (arr ! i1) \<le> 0"
      using scan_up_ok [of i "j + 1" arr s] less.prems True by (auto simp: halves_def)
    obtain j1 where j1: "scan_down cmp arr (of_nat s) (of_nat j) = Some (of_nat j1)" "s \<le> j1" "j1 \<le> j"
        "\<forall>k. j1 < k \<and> k \<le> j \<longrightarrow> cmp (arr ! k) ?p > 0" "cmp (arr ! j1) ?p \<le> 0"
      using scan_down_ok [of s j arr s] less.prems True by (auto simp: refl)
    have halves: "halves s e ?p arr i1 j1"
      unfolding halves_def
    proof (intro conjI allI impI)
      show "cmp (arr ! k) ?p \<le> 0" if "s \<le> k \<and> k < i1" for k
        using that i1(4) less.prems(6) by (cases "k < i") (auto simp: halves_def intro: order.strict_implies_order)
      show "cmp ?p (arr ! k) \<le> 0" if "j1 < k \<and> k \<le> e" for k
        using that j1(4) less.prems(6) sym [of "arr ! k" ?p]
        by (cases "k \<le> j") (auto simp: halves_def intro: order.strict_implies_order)
    qed
    have step: "split_loop cmp swap (of_nat s) arr (of_nat i) (of_nat j) =
        (if i1 < j1 then do {
           arr1 \<leftarrow> swap_items swap arr (of_nat i1) (of_nat j1);
           split_loop cmp swap (of_nat s) arr1 (of_nat (Suc i1)) (of_nat (j1 - 1))
         }
         else if i1 = j1 then Some (arr, of_nat (Suc i1), of_nat (j1 - 1))
         else Some (arr, of_nat i1, of_nat j1))"
    proof -
      have b: "i < 2 ^ 63" "j < 2 ^ 63" "i1 < 2 ^ 63" "j1 < 2 ^ 63" using less.prems True i1(3) j1(3) by linarith+
      have up: "(of_nat k + 1 :: u64) = of_nat (Suc k)" for k by simp
      have "(of_nat j1 - 1 :: u64) = of_nat (j1 - 1)" "(of_nat j1 :: u64) \<noteq> 0" if "s < j1"
        using that b of_nat64_eq [of j1 0] by (auto simp: of_nat_diff)
      moreover have "s < j1" if "i1 \<le> j1" using that less.prems(3) i1(2) by linarith
      moreover have "split_loop cmp swap (of_nat s) arr (of_nat i1) (of_nat j1) = Some (arr, of_nat i1, of_nat j1)" if "j1 < i1"
        using that b by (simp add: split_loop.simps [of cmp swap _ arr])
      ultimately show ?thesis
        using b True i1(1) j1(1) of_nat64_eq [of i1 j1]
        by (subst split_loop.simps) (auto simp: up word_le_nat_alt word_less_nat_alt simp del: of_nat_Suc of_nat_diff)
    qed
    consider "i1 < j1" | "i1 = j1" | "j1 < i1" by linarith
    then show ?thesis
    proof cases
      case 1
      let ?arr = "arr[i1 := arr ! j1, j1 := arr ! i1]"
      have "halves s e (?arr ! s) ?arr (Suc i1) (j1 - 1)"
        using halves_swap [OF halves 1] less.prems i1 j1 1 by simp
      then have m: "j1 - 1 + 1 - Suc i1 < j + 1 - i" "length ?arr < 2 ^ 63" "e < length ?arr" "s < Suc i1" "Suc i1 \<le> j1 - 1 + 1"
          "j1 - 1 < e" "halves s e (?arr ! s) ?arr (Suc i1) (j1 - 1)"
        using less.prems i1(2,3) j1(2,3) 1 by (simp_all, linarith?)
      then obtain arr' i' j' where "split_loop cmp swap (of_nat s) ?arr (of_nat (Suc i1)) (of_nat (j1 - 1)) = Some (arr', of_nat i', of_nat j')"
          "permutes s e ?arr arr'" "halves s e (?arr ! s) arr' i' j'" "s < i'" "i' \<le> e" "j' < i'"
        using less.hyps [OF m] by blast
      moreover have "permutes s e arr ?arr" using less.prems i1 j1 1 by (intro permutes_swap) auto
      ultimately show ?thesis
        using 1 step swap_items_ok [OF swap, of i1 arr j1] less.prems i1 j1
        by (intro exI [of _ arr'] exI [of _ i'] exI [of _ j']) (auto intro: permutes_trans)
    next
      case 2
      have "halves s e ?p arr (Suc i1) (j1 - 1)"
        unfolding halves_def
      proof (intro conjI allI impI)
        show "cmp (arr ! k) ?p \<le> 0" if "s \<le> k \<and> k < Suc i1" for k
          using that halves j1(5) 2 by (cases "k = i1") (auto simp: halves_def)
        show "cmp ?p (arr ! k) \<le> 0" if "j1 - 1 < k \<and> k \<le> e" for k
          using that halves i1(5) 2 by (cases "k = j1") (auto simp: halves_def)
      qed
      with 2 step show ?thesis
        using less.prems i1 j1 by (intro exI [of _ arr] exI [of _ "Suc i1"] exI [of _ "j1 - 1"]) auto
    next
      case 3
      with step halves show ?thesis
        using less.prems i1 j1 by (intro exI [of _ arr] exI [of _ i1] exI [of _ j1]) auto
    qed
  qed
qed

lemma split_ok:
  assumes swap: "swap = (\<lambda>x y. (y, x))" and "length arr < 2 ^ 63" "e < length arr" "s \<le> e"
  shows "\<exists>arr' i' j' p. split_loop cmp swap (of_nat s) arr (of_nat s) (of_nat e) = Some (arr', of_nat i', of_nat j') \<and>
    permutes s e arr arr' \<and> halves s e p arr' i' j' \<and> s < i' \<and> i' \<le> e + 1 \<and> j' < i' \<and> (s < j' \<longrightarrow> j' < e)"
proof -
  let ?p = "arr ! s"
  have up: "scan_up cmp arr (of_nat s) (of_nat s) = Some (of_nat s)"
    using assms by (simp add: scan_up.simps [of cmp arr] item_get_def refl)
  obtain j1 where j1: "scan_down cmp arr (of_nat s) (of_nat e) = Some (of_nat j1)" "s \<le> j1" "j1 \<le> e"
      "\<forall>k. j1 < k \<and> k \<le> e \<longrightarrow> cmp (arr ! k) ?p > 0" "cmp (arr ! j1) ?p \<le> 0"
    using scan_down_ok [of s e arr s] assms by (auto simp: refl)
  have right: "cmp ?p (arr ! k) \<le> 0" if "j1 < k" "k \<le> e" for k
    using j1(4) that sym [of "arr ! k" ?p] by (auto intro: order.strict_implies_order)
  have suc: "(of_nat k + 1 :: u64) = of_nat (Suc k)" for k by simp
  have down: "(of_nat j1 - 1 :: u64) = of_nat (j1 - 1)" "(of_nat j1 :: u64) \<noteq> 0" if "0 < j1"
    using that j1(3) assms of_nat64_eq [of j1 0] by (auto simp: of_nat_diff)
  have le: "(of_nat s :: u64) \<le> of_nat e" using assms by simp
  show ?thesis
  proof (cases "s < j1")
    case True
    let ?arr = "arr[s := arr ! j1, j1 := arr ! s]"
    have "halves s e (?arr ! s) ?arr (Suc s) (j1 - 1)"
      unfolding halves_def
    proof (intro conjI allI impI)
      show "cmp (?arr ! k) (?arr ! s) \<le> 0" if "s \<le> k \<and> k < Suc s" for k
        using that refl [of "?arr ! s"] le_antisym [of s k] by (cases "k = s") auto
      show "cmp (?arr ! s) (?arr ! k) \<le> 0" if "j1 - 1 < k \<and> k \<le> e" for k
        using that True assms j1(3,5) trans [OF j1(5) right [of k]] by (cases "k = j1") (auto simp: nth_list_update)
    qed
    moreover have "j1 - 1 < e" using j1(3) True by simp
    ultimately obtain arr' i' j' where arr': "split_loop cmp swap (of_nat s) ?arr (of_nat (Suc s)) (of_nat (j1 - 1)) = Some (arr', of_nat i', of_nat j')"
        "permutes s e ?arr arr'" "halves s e (?arr ! s) arr' i' j'" "s < i'" "i' \<le> e" "j' < i'"
      using split_loop_ok [OF swap, of ?arr e s "Suc s" "j1 - 1"] assms(2-) j1(3) True by (auto simp del: of_nat_Suc of_nat_diff)
    have "split_loop cmp swap (of_nat s) arr (of_nat s) (of_nat e) =
        split_loop cmp swap (of_nat s) ?arr (of_nat (Suc s)) (of_nat (j1 - 1))"
      using le up j1(1,3) True down assms swap_items_ok [OF swap, of s arr j1]
      by (subst split_loop.simps) (simp add: suc word_less_nat_alt del: of_nat_Suc of_nat_diff)
    moreover have "permutes s e arr ?arr" using assms j1 by (intro permutes_swap) auto
    ultimately show ?thesis using arr'
      by (intro exI [of _ arr'] exI [of _ i'] exI [of _ j'] exI [of _ "?arr ! s"]) (auto intro: permutes_trans)
  next
    case False
    then have "j1 = s" using j1(2) by simp
    then have "split_loop cmp swap (of_nat s) arr (of_nat s) (of_nat e) = Some (arr, of_nat (Suc s), of_nat (s - 1))"
      using le up j1(1) down
      by (subst split_loop.simps) (cases "s = 0", simp, simp add: suc del: of_nat_Suc of_nat_diff)
    moreover have "halves s e ?p arr (Suc s) (s - 1)"
      unfolding halves_def
    proof (intro conjI allI impI)
      show "cmp (arr ! k) ?p \<le> 0" if "s \<le> k \<and> k < Suc s" for k
        using that refl [of ?p] le_antisym [of s k] by (cases "k = s") auto
      show "cmp ?p (arr ! k) \<le> 0" if "s - 1 < k \<and> k \<le> e" for k
        using that right [of k] \<open>j1 = s\<close> refl [of ?p] by (cases "k = s") auto
    qed
    ultimately show ?thesis using assms
      by (intro exI [of _ arr] exI [of _ "Suc s"] exI [of _ "s - 1"] exI [of _ ?p]) auto
  qed
qed

definition ordered :: "nat \<Rightarrow> nat \<Rightarrow> 'a list \<Rightarrow> bool" where
  "ordered s e arr \<longleftrightarrow> (\<forall>k l. s \<le> k \<and> k \<le> l \<and> l \<le> e \<longrightarrow> cmp (arr ! k) (arr ! l) \<le> 0)"

lemma halves_ordered:
  assumes "halves s e p arr i j" "permutes s j arr arrL" "permutes i e arrL arrR"
    and "ordered s j arrL" "ordered i e arrR" "s < i" "j < i" "e < length arr" "j \<le> e"
  shows "ordered s e arrR"
proof -
  have len: "length arrL = length arr" by (rule permutes_length [OF assms(2)])
  have left: "arrR ! k = arrL ! k" if "k < i" "k \<le> e" for k
    using assms(3,8) that len by (auto simp: permutes_def)
  have L: "cmp (arrR ! k) p \<le> 0" if k: "s \<le> k" "k < i" "k \<le> e" for k
  proof (cases "k \<le> j")
    case True
    then obtain m where "s \<le> m" "m \<le> j" "arrL ! k = arr ! m"
      using permutes_nth [OF assms(2) k(1) True] assms(8,9) by auto
    then show ?thesis using assms(1,7) left [OF k(2,3)] by (auto simp: halves_def)
  next
    case False
    then have "arrL ! k = arr ! k" using assms(2,8) k by (auto simp: permutes_def)
    then show ?thesis using assms(1) k left [OF k(2,3)] by (auto simp: halves_def)
  qed
  have R: "cmp p (arrR ! k) \<le> 0" if k: "j < k" "k \<le> e" for k
  proof (cases "k < i")
    case True
    then have "arrL ! k = arr ! k" using assms(2,8) k by (auto simp: permutes_def)
    then show ?thesis using assms(1) k left [OF True k(2)] by (auto simp: halves_def)
  next
    case False
    then obtain m where m: "i \<le> m" "m \<le> e" "arrR ! k = arrL ! m"
      using permutes_nth [OF assms(3), of k] k assms(8) len by auto
    then have "arrL ! m = arr ! m" using assms(2,7,8) by (auto simp: permutes_def)
    then show ?thesis using assms(1,7) m by (auto simp: halves_def)
  qed
  show ?thesis
    unfolding ordered_def
  proof (intro allI impI)
    fix k l assume kl: "s \<le> k \<and> k \<le> l \<and> l \<le> e"
    consider "l \<le> j" | "i \<le> k" | "k < i" "j < l" by linarith
    then show "cmp (arrR ! k) (arrR ! l) \<le> 0"
    proof cases
      case 1
      then show ?thesis using assms(4,7) kl left [of k] left [of l] by (auto simp: ordered_def)
    next
      case 2
      then show ?thesis using assms(5) kl by (auto simp: ordered_def)
    next
      case 3
      then show ?thesis using trans [OF L R] kl by auto
    qed
  qed
qed

lemma ordered_short: "e \<le> s \<Longrightarrow> ordered s e arr"
  unfolding ordered_def by (metis le_antisym le_trans order.refl refl)

lemma sort_partial_ok:
  assumes swap: "swap = (\<lambda>x y. (y, x))" and "length arr < 2 ^ 63" "e < length arr" "s \<le> e"
  shows "\<exists>arr'. sort_partial cmp swap arr (of_nat s) (of_nat e) = Some arr' \<and> permutes s e arr arr' \<and> ordered s e arr'"
  using assms(2-)
proof (induction "e - s" arbitrary: arr s e rule: less_induct)
  case less
  obtain arr1 i j p where spl: "split_loop cmp swap (of_nat s) arr (of_nat s) (of_nat e) = Some (arr1, of_nat i, of_nat j)"
      "permutes s e arr arr1" "halves s e p arr1 i j" "s < i" "i \<le> e + 1" "j < i" "s < j \<longrightarrow> j < e"
    using split_ok [OF swap less.prems] by blast
  have len1: "length arr1 = length arr" by (rule permutes_length [OF spl(2)])
  obtain arrL where L: "(if s < j then sort_partial cmp swap arr1 (of_nat s) (of_nat j) else Some arr1) = Some arrL"
      "permutes s j arr1 arrL" "ordered s j arrL"
  proof (cases "s < j")
    case True
    then show ?thesis using less.hyps [of j s arr1] spl(7) less.prems len1 that diff_less_mono [of j e s] by auto
  qed (use ordered_short that in simp)
  have lenL: "length arrL = length arr" using permutes_length [OF L(2)] len1 by simp
  obtain arrR where R: "(if i < e then sort_partial cmp swap arrL (of_nat i) (of_nat e) else Some arrL) = Some arrR"
      "permutes i e arrL arrR" "ordered i e arrR"
  proof (cases "i < e")
    case True
    then show ?thesis using less.hyps [of e i arrL] spl(4) less.prems lenL that diff_less_mono2 [of s i e] by auto
  qed (use ordered_short that in simp)
  have "permutes s e arr1 arrL" "permutes s e arrL arrR"
    using permutes_mono [OF L(2), of s e] permutes_mono [OF R(2), of s e] spl(4-6) by auto
  then have "permutes s e arr arrR" using spl(2) permutes_trans by blast
  moreover have "ordered s e arrR"
    using halves_ordered [OF spl(3) L(2) R(2) L(3) R(3) spl(4,6)] less.prems(2) len1 spl(5,6) by simp
  moreover have "sort_partial cmp swap arr (of_nat s) (of_nat e) = Some arrR"
    using L(1) R(1) spl(1,5-7) less.prems
    by (subst sort_partial.simps) (simp add: word_less_nat_alt cong: if_cong)
  ultimately show ?case by blast
qed

end

subsection \<open>Binary search\<close>

context comparator_order
begin

lemma pointers_order: "item_order cmp"
  by (rule pointers.item_order_axioms)

lemma objects_order: "item_order (\<lambda>x y. cmp (Ref x) (Ref y))"
  by (rule objects.item_order_axioms)

lemma binarysearch_loop_ok:
  assumes "sorted_wrt (\<lambda>x y. cmp (Ref x) (Ref y) \<le> 0) arr" "n = length arr" "n < 2 ^ 63"
    and "f \<le> l" "l < n" "\<forall>k<f. cmp (Ref (arr ! k)) key < 0" "\<forall>k. l < k \<and> k < n \<longrightarrow> cmp (Ref (arr ! k)) key > 0"
  shows "\<exists>r. binarysearch_loop cmp arr (of_nat n) key (of_nat f) (of_nat l) = Some r \<and>
    (case r of NULL \<Rightarrow> \<forall>x\<in>set arr. cmp (Ref x) key \<noteq> 0
     | Ref i \<Rightarrow> unat i < n \<and> cmp (Ref (arr ! unat i)) key = 0)"
  using assms(4-)
proof (induction "l - f" arbitrary: f l rule: less_induct)
  case less
  define m where "m = (f + l) div 2"
  have m: "f \<le> m" "m \<le> l" "m < n" using less.prems by (auto simp: m_def)
  have mid: "(of_nat f + of_nat l) div 2 = (of_nat m :: u64)"
    using less.prems assms(3) by (simp add: m_def word_arith_nat_div unat_of_nat64 flip: of_nat_add)
  have le: "cmp (Ref (arr ! i)) (Ref (arr ! j)) \<le> 0" if "i \<le> j" "j < n" for i j
    using that assms(1,2) pointers.refl sorted_wrt_nth_less [OF assms(1), of i j] by (cases "i = j") auto
  have get: "item_get arr (of_nat k) = Some (arr ! k)" if "k < n" for k
    using that assms(2,3) by (simp add: item_get_def)
  have eq: "(of_nat i :: u64) = of_nat j \<longleftrightarrow> i = j" "(of_nat i :: u64) > of_nat j \<longleftrightarrow> i > j" if "i \<le> n" "j \<le> n" for i j
    using that assms(3) by (simp_all add: of_nat64_eq of_nat64_less)
  have pred: "(of_nat k - 1 :: u64) = of_nat (k - 1)" if "0 < k" for k using that by (simp add: of_nat_diff)
  have suc: "(of_nat m + 1 :: u64) = of_nat (m + 1)" by simp
  have zero: "(of_nat m :: u64) = 0 \<longleftrightarrow> m = 0" using eq(1) [of m 0] m(3) by simp
  have step: "binarysearch_loop cmp arr (of_nat n) key (of_nat f) (of_nat l) =
     (let c = cmp (Ref (arr ! m)) key in
      if c = - 1 then if l < m + 1 then Some NULL else binarysearch_loop cmp arr (of_nat n) key (of_nat (m + 1)) (of_nat l)
      else if c = 1 then if m = 0 \<or> m - 1 < f then Some NULL else binarysearch_loop cmp arr (of_nat n) key (of_nat f) (of_nat (m - 1))
      else Some (Ref (of_nat m)))"
  proof -
    have le': "cmp (Ref (arr ! f)) (Ref (arr ! l)) < 1" using le [of f l] less.prems by simp
    have b: "f < n" "l < n" "m < n" "m \<le> n" "n - 1 \<le> n" "m + 1 \<le> n" "l \<le> n" "f \<le> n" "m - 1 \<le> n" "0 < n"
      using m less.prems by auto
    have last: "l < m + 1" if "m = n - 1" using that less.prems by simp
    have "binarysearch_loop cmp arr (of_nat n) key (of_nat f) (of_nat l) =
     (let c = cmp (Ref (arr ! m)) key in
      if c = - 1 then if m = n - 1 then Some NULL else if l < m + 1 then Some NULL
        else binarysearch_loop cmp arr (of_nat n) key (of_nat (m + 1)) (of_nat l)
      else if c = 1 then if m = 0 then Some NULL else if of_nat m - 1 < (of_nat f :: u64) then Some NULL
        else binarysearch_loop cmp arr (of_nat n) key (of_nat f) (of_nat m - 1)
      else Some (Ref (of_nat m)))"
      by (simp only: binarysearch_loop.simps [of cmp arr "of_nat n" key "of_nat f" "of_nat l"] mid Let_def bind.bind_lunit
        get [OF b(1)] get [OF b(2)] get [OF b(3)] le' if_True suc pred [OF b(10)] zero eq(1) [OF b(4,5)] eq(2) [OF b(6,7)])
    then show ?thesis using last pred [of m] eq(2) [OF b(8,9)] by (cases "m = 0") (auto simp: Let_def)
  qed
  have low: "cmp (Ref (arr ! k)) key < 0" if "cmp (Ref (arr ! m)) key < 0" "k \<le> m" for k
  proof (rule ccontr)
    assume "\<not> cmp (Ref (arr ! k)) key < 0"
    then show False using pointers.trans [of key "Ref (arr ! k)" "Ref (arr ! m)"] le [OF that(2) m(3)] that(1)
        pointers.sym [of key "Ref (arr ! m)"] by (simp add: pointers.not_less)
  qed
  have high: "cmp (Ref (arr ! k)) key > 0" if "cmp (Ref (arr ! m)) key > 0" "m \<le> k" "k < n" for k
  proof (rule ccontr)
    assume "\<not> cmp (Ref (arr ! k)) key > 0"
    then show False using pointers.trans [OF le [OF that(2,3)], of key] that(1) by simp
  qed
  have none: "\<forall>x\<in>set arr. cmp (Ref x) key \<noteq> 0" if "\<And>k. k < n \<Longrightarrow> cmp (Ref (arr ! k)) key \<noteq> 0"
    using that assms(2) by (metis in_set_conv_nth)
  consider "cmp (Ref (arr ! m)) key = - 1" | "cmp (Ref (arr ! m)) key = 1" | "cmp (Ref (arr ! m)) key = 0"
    using cmp_range by blast
  then show ?case
  proof cases
    case 1
    show ?thesis
    proof (cases "l < m + 1")
      case True
      then have "cmp (Ref (arr ! k)) key \<noteq> 0" if "k < n" for k
        using 1 low [of k] less.prems(4) [rule_format, of k] that by (cases "k \<le> m") auto
      then show ?thesis using 1 True step none by (simp add: Let_def)
    next
      case False
      then have "l - (m + 1) < l - f" "m + 1 \<le> l" "\<forall>k<m + 1. cmp (Ref (arr ! k)) key < 0" using 1 low m by auto
      then show ?thesis using less.hyps [of l "m + 1"] less.prems 1 False step by (simp add: Let_def)
    qed
  next
    case 2
    show ?thesis
    proof (cases "m = 0 \<or> m - 1 < f")
      case True
      then have "cmp (Ref (arr ! k)) key \<noteq> 0" if "k < n" for k
        using 2 high [of k] less.prems(3) [rule_format, of k] that m by (cases "m \<le> k"; cases "k < f") auto
      then show ?thesis using 2 True step none by (simp add: Let_def)
    next
      case False
      then have "m - 1 - f < l - f" "f \<le> m - 1" "m - 1 < n" "\<forall>k. m - 1 < k \<and> k < n \<longrightarrow> cmp (Ref (arr ! k)) key > 0"
        using 2 high m by auto
      then show ?thesis using less.hyps [of "m - 1" f] less.prems 2 False step by (simp add: Let_def)
    qed
  next
    case 3
    then show ?thesis using step m assms(3) by (simp add: Let_def)
  qed
qed

end

subsection \<open>Pattern search\<close>

text \<open>The pattern occurs in the data at a position.\<close>

definition occurs_at :: "bytes \<Rightarrow> bytes \<Rightarrow> nat \<Rightarrow> bool" where
  "occurs_at data pattern p \<longleftrightarrow> take (length pattern) (drop p data) = pattern"

lemma occurs_at_nth:
  "p + length pattern \<le> length data \<Longrightarrow>
    occurs_at data pattern p \<longleftrightarrow> (\<forall>k<length pattern. data ! (p + k) = pattern ! k)"
  unfolding occurs_at_def by (auto simp: list_eq_iff_nth_eq)

lemma sint_of_index [simp]: "n < 2 ^ 63 \<Longrightarrow> sint (of_nat n :: u64) = int n"
  by (subst sint_nonneg64) (simp_all add: word_less_nat_alt unat_of_nat)

lemma byte_get_of_nat: "i < 2 ^ 63 \<Longrightarrow> byte_get m (of_nat i) = byte_at m i"
  by (simp add: byte_get_def)

lemma match_at_ok:
  assumes "p + length pattern \<le> length data" "length data < 2 ^ 63" "j < length pattern"
  shows "match_at data pattern (of_nat (length pattern)) (of_nat p) (of_nat j) =
    Some (\<forall>k. j \<le> k \<and> k < length pattern \<longrightarrow> data ! (p + k) = pattern ! k)"
  using assms(3)
proof (induction "length pattern - j" arbitrary: j)
  case (Suc n)
  have get: "byte_get data (of_nat p + of_nat j) = Some (data ! (p + j))" "byte_get pattern (of_nat j) = Some (pattern ! j)"
    using assms(1,2) Suc.prems byte_get_of_nat [of "p + j" data] byte_get_of_nat [of j pattern] by (auto simp: byte_at_def)
  have suc: "of_nat j + 1 = (of_nat (Suc j) :: u64)" by simp
  have same: "(of_nat (Suc j) :: u64) = of_nat (length pattern) \<longleftrightarrow> Suc j = length pattern"
    using assms(1,2) Suc.prems word_unat_eq_iff [of "of_nat (Suc j) :: u64" "of_nat (length pattern)"]
    by (simp add: unat_of_nat del: of_nat_Suc)
  have all: "(\<forall>k. j \<le> k \<and> k < length pattern \<longrightarrow> P k) \<longleftrightarrow> P j \<and> (\<forall>k. Suc j \<le> k \<and> k < length pattern \<longrightarrow> P k)" for P
    using Suc.prems by (metis Suc_leD Suc_leI le_neq_implies_less order.refl)
  show ?case
    using Suc.hyps Suc.prems
    by (subst match_at.simps) (auto simp: get suc same all simp del: of_nat_Suc)
qed simp

text \<open>The distances of the table as integers.\<close>

fun distances :: "bytes \<Rightarrow> int \<Rightarrow> int \<Rightarrow> (u8 \<Rightarrow> int) \<Rightarrow> u8 \<Rightarrow> int" where
  "distances [] n i skip = skip"
| "distances (c # cs) n i skip = distances cs n (i + 1) (skip(c := n - i))"

lemma skip_table_distances:
  "skip_table cs (of_int n) (of_int i) (of_int \<circ> skip) = (of_int \<circ> distances cs n i skip :: u8 \<Rightarrow> u64)"
proof (induction cs arbitrary: i skip)
  case (Cons c cs)
  have "(of_int \<circ> skip)(c := of_int n - of_int i) = (of_int \<circ> skip(c := n - i) :: u8 \<Rightarrow> u64)" by auto
  moreover have "of_int (i + 1) = (of_int i + 1 :: u64)" by simp
  ultimately show ?case using Cons [of "i + 1" "skip(c := n - i)"] by (simp only: skip_table.simps distances.simps)
qed simp

lemma distances_other: "c \<notin> set cs \<Longrightarrow> distances cs n i skip c = skip c"
  by (induction cs arbitrary: i skip) auto

lemma distances_le: "k < length cs \<Longrightarrow> distances cs n i skip (cs ! k) \<le> n - i - int k"
proof (induction cs arbitrary: i skip k)
  case (Cons c cs)
  show ?case
  proof (cases k)
    case 0
    show ?thesis
    proof (cases "c \<in> set cs")
      case True
      then obtain l where "l < length cs" "cs ! l = c" by (auto simp: in_set_conv_nth)
      then show ?thesis using Cons.IH [of l "i + 1" "skip(c := n - i)"] 0 by (simp del: fun_upd_apply)
    qed (simp add: 0 distances_other)
  next
    case (Suc l)
    then show ?thesis using Cons.IH [of l "i + 1" "skip(c := n - i)"] Cons.prems by (simp del: fun_upd_apply)
  qed
qed simp

lemma distances_pos:
  "\<lbrakk>\<And>c. 1 \<le> skip c; int (length cs) \<le> n - i\<rbrakk> \<Longrightarrow> 1 \<le> distances cs n i skip c"
  by (induction cs arbitrary: i skip) auto

text \<open>No occurrence starts in the positions a step passes over.\<close>

lemma skip_misses:
  assumes "q < p + d" "q + n \<le> N" "\<forall>q<p. q + n \<le> N \<longrightarrow> \<not> occurs_at data pattern q" "\<not> occurs_at data pattern p"
    "N < length data" "d \<le> n + 1" "n = length pattern" "\<And>k. k < n \<Longrightarrow> pattern ! k = data ! (p + n) \<Longrightarrow> int d \<le> int n - int k"
  shows "\<not> occurs_at data pattern q"
proof
  assume occ: "occurs_at data pattern q"
  then have "p < q" using assms(2-4) by (metis linorder_neqE_nat)
  define k where "k = p + n - q"
  have k: "k < n" "q + k = p + n" using \<open>p < q\<close> assms(1,6) by (auto simp: k_def)
  then have "pattern ! k = data ! (p + n)" using occ occurs_at_nth [of q pattern data] assms(2,5,7) by auto
  then show False using assms(8) [OF k(1)] k(2) assms(1) by auto
qed

text \<open>The first position the loop reports, with one readable byte behind the data.\<close>

lemma sunday_loop_ok:
  fixes pattern :: bytes
  defines "n \<equiv> length pattern" and "skip \<equiv> distances pattern (int (length pattern)) 0 (\<lambda>_. int (length pattern) + 1)"
  assumes "0 < n" "N < length data" "n \<le> N" "length data < 2 ^ 63" "\<forall>q<p. q + n \<le> N \<longrightarrow> \<not> occurs_at data pattern q" "p \<le> N + 1"
  shows "\<exists>r. sunday_loop data (of_nat N) pattern (of_nat n) (of_int \<circ> skip) (of_nat p) = Some r \<and>
    (r = - 1 \<and> (\<forall>q. q + n \<le> N \<longrightarrow> \<not> occurs_at data pattern q) \<or>
     (\<exists>p. r = of_nat p \<and> p + n \<le> N \<and> occurs_at data pattern p \<and> (\<forall>q<p. \<not> occurs_at data pattern q)))"
  using assms(7,8)
proof (induction "N + 1 - p" arbitrary: p rule: less_induct)
  case less
  have guard: "sint (of_nat p :: u64) \<le> sint (of_nat N - of_nat n :: u64) \<longleftrightarrow> p + n \<le> N"
  proof -
    have "(of_nat N - of_nat n :: u64) = of_nat (N - n)" using assms(5) by (simp add: of_nat_diff)
    moreover have "sint (of_nat (N - n) :: u64) = int (N - n)" using assms(4-6) by (intro sint_of_index) simp
    ultimately show ?thesis using assms(4-6) less.prems(2) by auto
  qed
  show ?case
  proof (cases "p + n \<le> N")
    case False
    then show ?thesis using less.prems(1) guard by (subst sunday_loop.simps) (auto simp: not_less)
  next
    case True
    have found: "match_at data pattern (of_nat n) (of_nat p) 0 = Some (occurs_at data pattern p)"
      using match_at_ok [of p pattern data 0] True assms(3,4,6) occurs_at_nth [of p pattern data] by (simp add: n_def)
    show ?thesis
    proof (cases "occurs_at data pattern p")
      case here: True
      then show ?thesis using found True less.prems(1) guard by (subst sunday_loop.simps) auto
    next
      case miss: False
      define c where "c = data ! (p + n)"
      define d where "d = nat (skip c)"
      have d: "skip c = int d" "1 \<le> d" using distances_pos [of "\<lambda>_. int n + 1" pattern "int n" 0 c]
        by (auto simp: d_def skip_def n_def)
      have le: "skip (pattern ! k) \<le> int n - int k" if "k < n" for k
        using distances_le [of k pattern "int n" 0 "\<lambda>_. int n + 1"] that by (simp add: skip_def n_def)
      have far: "d \<le> n + 1"
      proof (cases "c \<in> set pattern")
        case True
        then obtain k where "k < n" "c = pattern ! k" by (auto simp: in_set_conv_nth n_def)
        then show ?thesis using le [of k] d by simp
      qed (use d distances_other [of c pattern] in \<open>simp add: skip_def n_def\<close>)
      have "int d \<le> int n - int k" if "k < n" "pattern ! k = data ! (p + n)" for k
        using le [OF that(1)] that(2) d(1) by (simp add: c_def)
      then have skipped: "\<not> occurs_at data pattern q" if "q < p + d" "q + n \<le> N" for q
        using skip_misses [OF that less.prems(1) miss assms(4) far] by (simp add: n_def)
      have "byte_get data (of_nat p + of_nat n) = Some c"
        using byte_get_of_nat [of "p + n" data] True assms(4,6) by (simp add: byte_at_def c_def)
      moreover have "of_nat p + of_int (skip c) = (of_nat (p + d) :: u64)" by (simp add: d(1))
      ultimately show ?thesis using less.hyps [of "p + d"] d(2) far True miss found guard skipped
        by (subst sunday_loop.simps) (simp del: of_nat_add)
    qed
  qed
qed

subsection \<open>Properties\<close>

text \<open>
  C17. Quicksort terminates within the array, and the items from \<open>start\<close> to \<open>end\<close> are sorted by
  the comparator, a permutation of what they were; all other items stay in place.
\<close>

theorem quicksort_partial_sorts:
  assumes "comparator_order cmp" "swap = (\<lambda>x y. (y, x))" "length arr < 2 ^ 63" "e < length arr" "s \<le> e"
  shows "\<exists>arr'. quicksort_partial cmp swap arr (of_nat s) (of_nat e) = Some arr' \<and>
    mset arr' = mset arr \<and> (\<forall>k<length arr. k < s \<or> e < k \<longrightarrow> arr' ! k = arr ! k) \<and>
    (\<forall>k l. s \<le> k \<and> k \<le> l \<and> l \<le> e \<longrightarrow> cmp (Ref (arr' ! k)) (Ref (arr' ! l)) \<le> 0)"
  using item_order.sort_partial_ok [OF comparator_order.objects_order [OF assms(1)] assms(2-5)]
  by (simp add: quicksort_partial_def permutes_def item_order.ordered_def [OF comparator_order.objects_order [OF assms(1)]])

theorem quicksort_partial_sorts_witness:
  "\<exists>arr'. quicksort_partial list_default_data_comparator (\<lambda>x y. (y, x)) [9, 5, 7, 1, 3] (of_nat 1) (of_nat 3) = Some arr' \<and>
    mset arr' = mset [9, 5, 7, 1, 3] \<and> (\<forall>k<length [9, 5, 7, 1, 3 :: u64]. k < 1 \<or> 3 < k \<longrightarrow> arr' ! k = [9, 5, 7, 1, 3] ! k) \<and>
    (\<forall>k l. 1 \<le> k \<and> k \<le> l \<and> l \<le> 3 \<longrightarrow> list_default_data_comparator (Ref (arr' ! k)) (Ref (arr' ! l)) \<le> 0)"
  by (rule quicksort_partial_sorts [OF default_order.comparator_order_axioms]) simp_all

text \<open>
  Quicksort of a whole array of pointers sorts it and keeps its items.
\<close>

theorem quicksort2_sorts:
  assumes "comparator_order cmp" "arr \<noteq> []" "length arr < 2 ^ 63"
  shows "\<exists>arr'. quicksort2 cmp arr (of_nat (length arr)) = Some arr' \<and>
    mset arr' = mset arr \<and> sorted_wrt (\<lambda>x y. cmp x y \<le> 0) arr'"
proof -
  note io = comparator_order.pointers_order [OF assms(1)]
  obtain arr' where arr': "sort_partial cmp (\<lambda>x y. (y, x)) arr (of_nat 0) (of_nat (length arr - 1)) = Some arr'"
      "permutes 0 (length arr - 1) arr arr'" "item_order.ordered cmp 0 (length arr - 1) arr'"
    using item_order.sort_partial_ok [OF io refl assms(3), of "length arr - 1" 0] assms(2) by auto
  have "(of_nat (length arr) - 1 :: u64) = of_nat (length arr - 1)"
    using assms(2) by (simp add: of_nat_diff Suc_le_eq)
  with arr' permutes_length [OF arr'(2)] show ?thesis
    by (intro exI [of _ arr'])
      (simp add: quicksort2_def quicksort2_partial_def permutes_def item_order.ordered_def [OF io] sorted_wrt_iff_nth_less)
qed

theorem quicksort2_sorts_witness:
  "\<exists>arr'. quicksort2 list_default_data_comparator [Ref 3, NULL, Ref 2] (of_nat (length [Ref 3, NULL, Ref 2])) = Some arr' \<and>
    mset arr' = mset [Ref 3, NULL, Ref 2] \<and> sorted_wrt (\<lambda>x y. list_default_data_comparator x y \<le> 0) arr'"
  using quicksort2_sorts [OF default_order.comparator_order_axioms, of "[Ref 3, NULL, Ref 2]"] by simp

text \<open>
  C18. Binary search in a sorted array that is not empty terminates, finds an item equal to the key when there is
  one, and returns NULL otherwise.
\<close>

theorem binarysearch_spec:
  assumes "comparator_order cmp" "sorted_wrt (\<lambda>x y. cmp (Ref x) (Ref y) \<le> 0) arr" "arr \<noteq> []" "length arr < 2 ^ 63"
  shows "\<exists>r. binarysearch cmp arr (of_nat (length arr)) key = Some r \<and>
    (case r of NULL \<Rightarrow> \<forall>x\<in>set arr. cmp (Ref x) key \<noteq> 0
     | Ref i \<Rightarrow> unat i < length arr \<and> cmp (Ref (arr ! unat i)) key = 0)"
proof -
  have "(of_nat (length arr) - 1 :: u64) = of_nat (length arr - 1)"
    using assms(3) by (simp add: of_nat_diff Suc_le_eq)
  moreover have "\<forall>k. length arr - 1 < k \<and> k < length arr \<longrightarrow> 0 < cmp (Ref (arr ! k)) key" by auto
  ultimately show ?thesis
    using comparator_order.binarysearch_loop_ok [OF assms(1,2) refl assms(4), of 0 "length arr - 1" key] assms(3)
    by (simp add: binarysearch_def)
qed

theorem binarysearch_spec_witness:
  "\<exists>r. binarysearch list_default_data_comparator [2, 5, 8] (of_nat (length [2, 5, 8 :: u64])) (Ref 8) = Some r \<and>
    (case r of NULL \<Rightarrow> \<forall>x\<in>set [2, 5, 8]. list_default_data_comparator (Ref x) (Ref 8) \<noteq> 0
     | Ref i \<Rightarrow> unat i < length [2, 5, 8 :: u64] \<and> list_default_data_comparator (Ref ([2, 5, 8] ! unat i)) (Ref 8) = 0)"
  by (rule binarysearch_spec [OF default_order.comparator_order_axioms]) (simp_all add: list_default_data_comparator_def)

text \<open>
  C19. The search for a pattern that is not empty returns the first position the pattern occurs at,
  and -1 when there is none, provided the byte behind the data can be read.
\<close>

theorem sunday_match_spec:
  assumes "pattern \<noteq> []" "N < length data" "length data < 2 ^ 63" "length pattern < 2 ^ 63"
  shows "\<exists>r. sunday_match data (of_nat N) pattern (of_nat (length pattern)) = Some r \<and>
    (r = - 1 \<and> (\<forall>q. q + length pattern \<le> N \<longrightarrow> take (length pattern) (drop q data) \<noteq> pattern) \<or>
     (\<exists>p. r = of_nat p \<and> p + length pattern \<le> N \<and> take (length pattern) (drop p data) = pattern \<and>
       (\<forall>q<p. take (length pattern) (drop q data) \<noteq> pattern)))"
proof (cases "length pattern \<le> N")
  case True
  have "skip_table pattern (of_nat (length pattern)) 0 (\<lambda>_. of_nat (length pattern) + 1) =
      (of_int \<circ> distances pattern (int (length pattern)) 0 (\<lambda>_. int (length pattern) + 1))"
    using skip_table_distances [of pattern "int (length pattern)" 0 "\<lambda>_. int (length pattern) + 1"] by (simp add: o_def)
  then show ?thesis
    using sunday_loop_ok [of pattern N data 0] assms True by (simp add: sunday_match_def occurs_at_def)
qed (use assms in \<open>simp add: sunday_match_def\<close>)

theorem sunday_match_spec_witness:
  "\<exists>r. sunday_match [1, 2, 1, 2, 3, 0] (of_nat 5) [1, 2, 3] (of_nat (length [1, 2, 3 :: u8])) = Some r \<and>
    (r = - 1 \<and> (\<forall>q. q + length [1, 2, 3 :: u8] \<le> 5 \<longrightarrow>
        take (length [1, 2, 3 :: u8]) (drop q [1, 2, 1, 2, 3, 0]) \<noteq> [1, 2, 3 :: u8]) \<or>
     (\<exists>p. r = of_nat p \<and> p + length [1, 2, 3 :: u8] \<le> 5 \<and>
       take (length [1, 2, 3 :: u8]) (drop p [1, 2, 1, 2, 3, 0]) = [1, 2, 3 :: u8] \<and>
       (\<forall>q<p. take (length [1, 2, 3 :: u8]) (drop q [1, 2, 1, 2, 3, 0]) \<noteq> [1, 2, 3 :: u8])))"
  by (rule sunday_match_spec) simp_all

text \<open>An empty pattern has no byte to compare with.\<close>

lemma sunday_match_empty_pattern: "0 \<le> sint data_len \<Longrightarrow> sunday_match data data_len [] 0 = None"
  by (simp add: sunday_match_def sunday_loop.simps match_at.simps [of _ _ _ _ 0] byte_get_def [of "[]"] byte_at_def)

end
