(* ===== verification/Sync.thy ===== *)
theory Sync
  imports Prelude
begin

text \<open>
  Locks and semaphores of \<open>cc/cpu/sync.64.c\<close> under interleaving. A running call is at a program
  counter, and one step from a program counter does at most one access to a shared variable; the
  accesses take effect in program order. Tasks call the operations in any order and their steps
  interleave in any order. Creating a lock or a semaphore returns NULL when the allocator
  fails; fresh memory is zero.
\<close>

subsection \<open>Locks\<close>

record lock_t =
  lock_value :: u64
  owner_task_id :: u64
  owner_cpu_id :: u64
  for_future :: bool

definition lock_create_with_heap_for_future :: "bool \<Rightarrow> bool \<Rightarrow> u64 \<Rightarrow> lock_t ref" where
  "lock_create_with_heap_for_future alloc future task_id =
     (if \<not> alloc then NULL
      else if future then Ref \<lparr>lock_value = 1, owner_task_id = task_id, owner_cpu_id = 0, for_future = True\<rparr>
      else Ref \<lparr>lock_value = 0, owner_task_id = 0, owner_cpu_id = 0, for_future = False\<rparr>)"

text \<open>\<open>freed\<close> is what the allocator returns.\<close>

definition lock_destroy :: "lock_t ref \<Rightarrow> int \<Rightarrow> int" where
  "lock_destroy lock freed = (if lock = NULL then - 1 else freed)"

definition bit_locked_set :: "u64 \<Rightarrow> nat \<Rightarrow> bool \<times> u64" where
  "bit_locked_set data bitloc = (bit data bitloc, set_bit bitloc data)"

text \<open>Who calls: the task and the processor, as the lock records them.\<close>

record caller =
  current_task_id :: u64
  current_cpu_id :: u64

definition lock_caller :: "u32 \<Rightarrow> u64 option \<Rightarrow> caller" where
  "lock_caller apic_id current_task =
     (let cpu = ucast (apic_id + 1)
      in \<lparr>current_task_id = (case current_task of None \<Rightarrow> cpu | Some task_id \<Rightarrow> task_id), current_cpu_id = cpu\<rparr>)"

text \<open>Where a call of \<open>lock_acquire\<close> or \<open>lock_release\<close> is; \<open>Returned\<close> is behind the call.\<close>

datatype lock_pc =
    Acquire_value | Acquire_cpu | Acquire_task | Acquire_set | Acquire_yield
  | Acquire_owner_task | Acquire_owner_cpu
  | Release_task | Release_cpu | Release_value
  | Returned

definition lock_acquire :: "bool \<Rightarrow> lock_t ref \<Rightarrow> lock_pc" where
  "lock_acquire KERNEL_PANIC_DISABLE_LOCKS lock =
     (if lock = NULL then Returned
      else if KERNEL_PANIC_DISABLE_LOCKS then Returned
      else Acquire_value)"

definition lock_release :: "lock_t ref \<Rightarrow> lock_pc" where
  "lock_release lock = (if lock = NULL then Returned else Release_task)"

fun lock_step :: "caller \<Rightarrow> lock_t \<Rightarrow> lock_pc \<Rightarrow> lock_t \<times> lock_pc" where
  "lock_step c lock Acquire_value =
     (lock, if lock_value lock \<noteq> 0 \<and> \<not> for_future lock then Acquire_cpu else Acquire_set)"
| "lock_step c lock Acquire_cpu =
     (lock, if owner_cpu_id lock = current_cpu_id c then Acquire_task else Acquire_set)"
| "lock_step c lock Acquire_task =
     (lock, if owner_task_id lock = current_task_id c then Returned else Acquire_set)"
| "lock_step c lock Acquire_set =
     (let (was_set, value) = bit_locked_set (lock_value lock) 0
      in (lock\<lparr>lock_value := value\<rparr>, if was_set then Acquire_yield else Acquire_owner_task))"
| "lock_step c lock Acquire_yield = (lock, Acquire_set)"
| "lock_step c lock Acquire_owner_task =
     (if for_future lock then lock else lock\<lparr>owner_task_id := current_task_id c\<rparr>, Acquire_owner_cpu)"
| "lock_step c lock Acquire_owner_cpu = (lock\<lparr>owner_cpu_id := current_cpu_id c\<rparr>, Returned)"
| "lock_step c lock Release_task = (lock\<lparr>owner_task_id := 0\<rparr>, Release_cpu)"
| "lock_step c lock Release_cpu = (lock\<lparr>owner_cpu_id := 0\<rparr>, Release_value)"
| "lock_step c lock Release_value = (lock\<lparr>lock_value := 0\<rparr>, Returned)"
| "lock_step c lock Returned = (lock, Returned)"

text \<open>
  Tasks that share a lock. \<open>holds\<close> says that the task returned from \<open>lock_acquire\<close> and did not
  call \<open>lock_release\<close> since, \<open>depth\<close> counts how often it acquired the lock more than it released
  it. A task only releases a lock while it holds it or, with \<open>nesting\<close>, while it acquired it more
  often than it released it; without \<open>nesting\<close> the second release of a nested pair is not an event.
  The executions start from a lock that is no future, and a task stays on its processor.
\<close>

record task_view =
  pc :: lock_pc
  holds :: bool
  depth :: nat

type_synonym lock_state = "lock_t \<times> (nat \<Rightarrow> task_view)"

datatype lock_event = Call_acquire nat | Call_release nat | Run nat

definition lock_do :: "bool \<Rightarrow> nat \<Rightarrow> (nat \<Rightarrow> caller) \<Rightarrow> lock_event \<Rightarrow> lock_state \<Rightarrow> lock_state option" where
  "lock_do nesting n c e s = (case s of (lock, t) \<Rightarrow> (case e of
     Call_acquire i \<Rightarrow>
       if i < n \<and> pc (t i) = Returned then Some (lock, t(i := (t i)\<lparr>pc := lock_acquire False (Ref lock)\<rparr>)) else None
   | Call_release i \<Rightarrow>
       if i < n \<and> pc (t i) = Returned \<and> (holds (t i) \<or> nesting \<and> 0 < depth (t i))
       then Some (lock, t(i := (t i)\<lparr>pc := lock_release (Ref lock), holds := False, depth := depth (t i) - 1\<rparr>)) else None
   | Run i \<Rightarrow>
       if i < n \<and> pc (t i) \<noteq> Returned then
         (let (lock', pc') = lock_step (c i) lock (pc (t i));
              acquired = pc' = Returned \<and> pc (t i) \<noteq> Release_value
          in Some (lock', t(i := \<lparr>pc = pc', holds = holds (t i) \<or> acquired,
               depth = (if acquired then depth (t i) + 1 else depth (t i))\<rparr>)))
       else None))"

definition idle_view :: task_view where
  "idle_view = \<lparr>pc = Returned, holds = False, depth = 0\<rparr>"

inductive lock_reachable :: "bool \<Rightarrow> nat \<Rightarrow> (nat \<Rightarrow> caller) \<Rightarrow> lock_state \<Rightarrow> bool"
  for nesting n c where
  fresh: "lock_create_with_heap_for_future True False 0 = Ref lock \<Longrightarrow>
    lock_reachable nesting n c (lock, \<lambda>_. idle_view)"
| step: "\<lbrakk>lock_reachable nesting n c s; lock_do nesting n c e s = Some s'\<rbrakk> \<Longrightarrow> lock_reachable nesting n c s'"

text \<open>The state after a sequence of events.\<close>

fun lock_run :: "bool \<Rightarrow> nat \<Rightarrow> (nat \<Rightarrow> caller) \<Rightarrow> lock_event list \<Rightarrow> lock_state \<Rightarrow> lock_state option" where
  "lock_run nesting n c [] s = Some s"
| "lock_run nesting n c (e # es) s = Option.bind (lock_do nesting n c e s) (lock_run nesting n c es)"

lemma lock_run_reachable:
  "\<lbrakk>lock_run nesting n c es s = Some s'; lock_reachable nesting n c s\<rbrakk> \<Longrightarrow> lock_reachable nesting n c s'"
proof (induction es arbitrary: s)
  case (Cons e es)
  then obtain s1 where s1: "lock_do nesting n c e s = Some s1" "lock_run nesting n c es s1 = Some s'"
    by (auto simp: bind_eq_Some_conv)
  show ?case by (rule Cons.IH [OF s1(2) lock_reachable.step [OF Cons.prems(2) s1(1)]])
qed simp

subsection \<open>Semaphores\<close>

text \<open>The lock of a semaphore is allocated with it; nothing checks that this succeeds.\<close>

record semaphore_t =
  initial_count :: u64
  current_count :: u64

definition semaphore_create_with_heap :: "bool \<Rightarrow> bool \<Rightarrow> u64 \<Rightarrow> (semaphore_t \<times> lock_t ref) ref" where
  "semaphore_create_with_heap alloc lock_alloc count' =
     (if \<not> alloc then NULL
      else Ref (\<lparr>initial_count = count', current_count = count'\<rparr>, lock_create_with_heap_for_future lock_alloc False 0))"

definition semaphore_destroy :: "(semaphore_t \<times> lock_t ref) ref \<Rightarrow> int \<Rightarrow> int option" where
  "semaphore_destroy semaphore freed = (if semaphore = NULL then None else Some freed)"

text \<open>
  Where a call of a semaphore operation is; \<open>Result r\<close> is behind a call that returned \<open>r\<close>. A step
  from here is taken when no call of a lock operation is running, and may start one.
\<close>

datatype sem_pc =
    Result int
  | Acq_first u64 | Acq_loop u64 | Acq_second u64 | Acq_sub u64 | Acq_store u64 u64 | Acq_unlock
  | Acq_leave | Acq_again u64 | Acq_refuse
  | Rel_enter u64 | Rel_add u64 | Rel_store u64 u64 | Rel_unlock | Rel_leave | Rel_refuse

datatype lock_call = No_call | Lock_acquire | Lock_release

definition semaphore_acquire_with_count :: "semaphore_t ref \<Rightarrow> u64 \<Rightarrow> sem_pc \<times> lock_call" where
  "semaphore_acquire_with_count semaphore count' =
     (if semaphore = NULL then (Result (- 1), No_call) else (Acq_first count', Lock_acquire))"

definition semaphore_release_with_count :: "semaphore_t ref \<Rightarrow> u64 \<Rightarrow> sem_pc \<times> lock_call" where
  "semaphore_release_with_count semaphore count' =
     (if semaphore = NULL then (Result (- 1), No_call) else (Rel_enter count', Lock_acquire))"

fun semaphore_acquire_step :: "semaphore_t \<Rightarrow> sem_pc \<Rightarrow> semaphore_t \<times> sem_pc \<times> lock_call" where
  "semaphore_acquire_step s (Acq_first count') =
     (if initial_count s < count' then (s, Acq_refuse, Lock_release) else (s, Acq_loop count', No_call))"
| "semaphore_acquire_step s (Acq_loop count') = (s, Acq_second count', Lock_acquire)"
| "semaphore_acquire_step s (Acq_second count') =
     (if current_count s \<ge> count' then (s, Acq_sub count', No_call) else (s, Acq_again count', Lock_release))"
| "semaphore_acquire_step s (Acq_sub count') = (s, Acq_store count' (current_count s), No_call)"
| "semaphore_acquire_step s (Acq_store count' x) = (s\<lparr>current_count := x - count'\<rparr>, Acq_unlock, No_call)"
| "semaphore_acquire_step s Acq_unlock = (s, Acq_leave, Lock_release)"
| "semaphore_acquire_step s Acq_leave = (s, Result 0, No_call)"
| "semaphore_acquire_step s (Acq_again count') = (s, Acq_loop count', No_call)"
| "semaphore_acquire_step s Acq_refuse = (s, Result (- 1), No_call)"
| "semaphore_acquire_step s p = (s, p, No_call)"

fun semaphore_release_step :: "semaphore_t \<Rightarrow> sem_pc \<Rightarrow> semaphore_t \<times> sem_pc \<times> lock_call" where
  "semaphore_release_step s (Rel_enter count') =
     (if current_count s + count' > initial_count s then (s, Rel_refuse, Lock_release) else (s, Rel_add count', No_call))"
| "semaphore_release_step s (Rel_add count') = (s, Rel_store count' (current_count s), No_call)"
| "semaphore_release_step s (Rel_store count' x) = (s\<lparr>current_count := x + count'\<rparr>, Rel_unlock, No_call)"
| "semaphore_release_step s Rel_unlock = (s, Rel_leave, Lock_release)"
| "semaphore_release_step s Rel_leave = (s, Result 0, No_call)"
| "semaphore_release_step s Rel_refuse = (s, Result (- 1), No_call)"
| "semaphore_release_step s p = (s, p, No_call)"

definition in_release :: "sem_pc \<Rightarrow> bool" where
  "in_release p = (case p of Rel_enter _ \<Rightarrow> True | Rel_add _ \<Rightarrow> True | Rel_store _ _ \<Rightarrow> True | Rel_unlock \<Rightarrow> True
     | Rel_leave \<Rightarrow> True | Rel_refuse \<Rightarrow> True | _ \<Rightarrow> False)"

definition semaphore_step :: "semaphore_t \<Rightarrow> sem_pc \<Rightarrow> semaphore_t \<times> sem_pc \<times> lock_call" where
  "semaphore_step s p = (if in_release p then semaphore_release_step s p else semaphore_acquire_step s p)"

text \<open>
  Tasks that share a semaphore: \<open>units\<close> counts what a task took and did not give back. With
  \<open>own_only\<close> a task gives back at most that.
\<close>

record sem_state =
  lock_part :: lock_state
  sem :: semaphore_t
  sem_at :: "nat \<Rightarrow> sem_pc"
  units :: "nat \<Rightarrow> nat"

datatype sem_event = Sem_acquire nat u64 | Sem_release nat u64 | Sem_run nat

definition lock_call_do :: "nat \<Rightarrow> (nat \<Rightarrow> caller) \<Rightarrow> nat \<Rightarrow> lock_call \<Rightarrow> lock_state \<Rightarrow> lock_state option" where
  "lock_call_do n c i call l = (case call of
     No_call \<Rightarrow> Some l
   | Lock_acquire \<Rightarrow> lock_do True n c (Call_acquire i) l
   | Lock_release \<Rightarrow> lock_do True n c (Call_release i) l)"

definition units_after :: "sem_pc \<Rightarrow> nat \<Rightarrow> nat" where
  "units_after p u = (case p of Acq_store count' _ \<Rightarrow> u + unat count' | Rel_store count' _ \<Rightarrow> u - unat count' | _ \<Rightarrow> u)"

definition at_rest :: "nat \<Rightarrow> sem_state \<Rightarrow> nat \<Rightarrow> bool" where
  "at_rest n S i \<longleftrightarrow> i < n \<and> pc (snd (lock_part S) i) = Returned \<and> (case sem_at S i of Result _ \<Rightarrow> True | _ \<Rightarrow> False)"

definition sem_start :: "nat \<Rightarrow> (nat \<Rightarrow> caller) \<Rightarrow> nat \<Rightarrow> sem_pc \<times> lock_call \<Rightarrow> sem_state \<Rightarrow> sem_state option" where
  "sem_start n c i entry S =
     map_option (\<lambda>l. S\<lparr>lock_part := l, sem_at := (sem_at S)(i := fst entry)\<rparr>) (lock_call_do n c i (snd entry) (lock_part S))"

definition sem_do :: "bool \<Rightarrow> nat \<Rightarrow> (nat \<Rightarrow> caller) \<Rightarrow> sem_event \<Rightarrow> sem_state \<Rightarrow> sem_state option" where
  "sem_do own_only n c e S = (case e of
     Sem_acquire i count' \<Rightarrow>
       if at_rest n S i then sem_start n c i (semaphore_acquire_with_count (Ref (sem S)) count') S else None
   | Sem_release i count' \<Rightarrow>
       if at_rest n S i \<and> (own_only \<longrightarrow> unat count' \<le> units S i)
       then sem_start n c i (semaphore_release_with_count (Ref (sem S)) count') S else None
   | Sem_run i \<Rightarrow>
       if \<not> i < n \<or> at_rest n S i then None
       else if pc (snd (lock_part S) i) \<noteq> Returned then
         map_option (\<lambda>l. S\<lparr>lock_part := l\<rparr>) (lock_do True n c (Run i) (lock_part S))
       else (let (s', p', call) = semaphore_step (sem S) (sem_at S i)
             in map_option (\<lambda>l. S\<lparr>lock_part := l, sem := s', sem_at := (sem_at S)(i := p'),
                  units := (units S)(i := units_after (sem_at S i) (units S i))\<rparr>)
                (lock_call_do n c i call (lock_part S))))"

inductive sem_reachable :: "bool \<Rightarrow> nat \<Rightarrow> (nat \<Rightarrow> caller) \<Rightarrow> u64 \<Rightarrow> sem_state \<Rightarrow> bool"
  for own_only n c count' where
  created: "semaphore_create_with_heap True True count' = Ref (s, Ref lock) \<Longrightarrow>
    sem_reachable own_only n c count'
      \<lparr>lock_part = (lock, \<lambda>_. idle_view), sem = s, sem_at = (\<lambda>_. Result 0), units = (\<lambda>_. 0)\<rparr>"
| moved: "\<lbrakk>sem_reachable own_only n c count' S; sem_do own_only n c e S = Some S'\<rbrakk> \<Longrightarrow>
    sem_reachable own_only n c count' S'"

end
