(* ===== verification/Sync_Inv.thy ===== *)
theory Sync_Inv
  imports Sync
begin

text \<open>
  What holds in every reachable state of a lock: at most one task owns it and the lock knows which
  (\<open>lock_inv\<close>); and in every fair execution a task that waits is not left waiting while nobody
  gets the lock (\<open>quiet\<close> executions have no waiting task).
\<close>

subsection \<open>Mutual exclusion\<close>

definition owns :: "task_view \<Rightarrow> bool" where
  "owns v \<longleftrightarrow> holds v \<or> pc v \<in> {Acquire_owner_task, Acquire_owner_cpu, Release_task, Release_cpu, Release_value}"

text \<open>Task ids differ and are not 0, the id of a lock nobody owns.\<close>

definition distinct_tasks :: "nat \<Rightarrow> (nat \<Rightarrow> caller) \<Rightarrow> bool" where
  "distinct_tasks n c \<longleftrightarrow> inj_on (current_task_id \<circ> c) {..<n} \<and> (\<forall>i<n. current_task_id (c i) \<noteq> 0)"

definition view_ok :: "caller \<Rightarrow> lock_t \<Rightarrow> task_view \<Rightarrow> bool" where
  "view_ok c lock v \<longleftrightarrow>
     (holds v \<longrightarrow> owner_task_id lock = current_task_id c \<and> owner_cpu_id lock = current_cpu_id c \<and>
        pc v \<in> {Returned, Acquire_value, Acquire_cpu, Acquire_task}) \<and>
     (pc v = Acquire_owner_cpu \<longrightarrow> owner_task_id lock = current_task_id c) \<and>
     (owner_task_id lock = current_task_id c \<longrightarrow> holds v \<or> pc v \<in> {Acquire_owner_cpu, Release_task})"

definition lock_owner :: "nat \<Rightarrow> (nat \<Rightarrow> caller) \<Rightarrow> lock_t \<Rightarrow> (nat \<Rightarrow> task_view) \<Rightarrow> nat option \<Rightarrow> bool" where
  "lock_owner n c lock t own \<longleftrightarrow> \<not> for_future lock \<and> lock_value lock = (if own = None then 0 else 1) \<and>
     (\<forall>i. own = Some i \<longrightarrow> i < n) \<and> (\<forall>i<n. view_ok (c i) lock (t i) \<and> (owns (t i) \<longleftrightarrow> own = Some i))"

definition lock_inv :: "nat \<Rightarrow> (nat \<Rightarrow> caller) \<Rightarrow> lock_state \<Rightarrow> bool" where
  "lock_inv n c s \<longleftrightarrow> (\<exists>own. lock_owner n c (fst s) (snd s) own)"

lemma bit_locked_set_free [simp]: "bit_locked_set 0 0 = (False, 1)"
  by (simp add: bit_locked_set_def set_bit_eq_or)

lemma bit_locked_set_taken [simp]: "bit_locked_set 1 0 = (True, 1)"
  by (simp add: bit_locked_set_def set_bit_eq_or)

text \<open>One task moves; what the other tasks rely on is that the owner stays theirs to know.\<close>

lemma lock_owner_update:
  assumes "lock_owner n c lock t own" "i < n" "\<not> for_future lock'" "lock_value lock' = (if own' = None then 0 else 1)"
    and "view_ok (c i) lock' v" "owns v \<longleftrightarrow> own' = Some i"
    and "\<And>j. \<lbrakk>j < n; j \<noteq> i\<rbrakk> \<Longrightarrow> view_ok (c j) lock' (t j)" "\<And>j. j \<noteq> i \<Longrightarrow> own' = Some j \<longleftrightarrow> own = Some j"
  shows "lock_owner n c lock' (t(i := v)) own'"
  unfolding lock_owner_def
proof (intro conjI allI impI)
  show "j < n" if "own' = Some j" for j using that assms by (cases "j = i") (auto simp: lock_owner_def)
  show "view_ok (c j) lock' ((t(i := v)) j)" "owns ((t(i := v)) j) \<longleftrightarrow> own' = Some j" if "j < n" for j
    using that assms by (auto simp: lock_owner_def)
qed (use assms in auto)

lemma view_ok_other:
  "\<lbrakk>view_ok c lock v; \<not> owns v; owner_task_id lock' \<noteq> current_task_id c\<rbrakk> \<Longrightarrow> view_ok c lock' v"
  by (auto simp: view_ok_def owns_def)

lemma lock_inv_call:
  assumes "lock_inv n c (lock, t)" "i < n" "pc (t i) = Returned"
  shows "lock_inv n c (lock, t(i := (t i)\<lparr>pc := Acquire_value\<rparr>))"
    and "holds (t i) \<Longrightarrow> lock_inv n c (lock, t(i := (t i)\<lparr>pc := Release_task, holds := False, depth := d\<rparr>))"
proof -
  obtain own where own: "lock_owner n c lock t own" using assms(1) by (auto simp: lock_inv_def)
  then have i: "view_ok (c i) lock (t i)" "owns (t i) \<longleftrightarrow> own = Some i" "\<not> for_future lock"
      "lock_value lock = (if own = None then 0 else 1)" and
    j: "\<And>j. j < n \<Longrightarrow> view_ok (c j) lock (t j)"
    using assms(2) by (auto simp: lock_owner_def)
  have "lock_owner n c lock (t(i := (t i)\<lparr>pc := Acquire_value\<rparr>)) own"
    by (rule lock_owner_update [OF own assms(2)])
      (use i j assms(3) in \<open>auto simp: view_ok_def owns_def\<close>)
  then show "lock_inv n c (lock, t(i := (t i)\<lparr>pc := Acquire_value\<rparr>))" by (auto simp: lock_inv_def)
  assume h: "holds (t i)"
  have "lock_owner n c lock (t(i := (t i)\<lparr>pc := Release_task, holds := False, depth := d\<rparr>)) own"
    by (rule lock_owner_update [OF own assms(2)])
      (use h i j assms(3) in \<open>auto simp: view_ok_def owns_def\<close>)
  then show "lock_inv n c (lock, t(i := (t i)\<lparr>pc := Release_task, holds := False, depth := d\<rparr>))"
    by (auto simp: lock_inv_def)
qed

lemma lock_inv_run:
  assumes tasks: "distinct_tasks n c" and inv: "lock_inv n c (lock, t)" and i: "i < n" "pc (t i) \<noteq> Returned"
    and step: "lock_step (c i) lock (pc (t i)) = (lock', pc')"
  shows "lock_inv n c (lock', t(i := \<lparr>pc = pc', holds = holds (t i) \<or> pc' = Returned \<and> pc (t i) \<noteq> Release_value, depth = d\<rparr>))"
    (is "lock_inv n c (lock', t(i := ?v))")
proof -
  obtain own where own: "lock_owner n c lock t own" using inv by (auto simp: lock_inv_def)
  then have vi: "view_ok (c i) lock (t i)" "owns (t i) \<longleftrightarrow> own = Some i" "\<not> for_future lock"
      "lock_value lock = (if own = None then 0 else 1)" and
    vj: "\<And>j. j < n \<Longrightarrow> view_ok (c j) lock (t j)" "\<And>j. j < n \<Longrightarrow> owns (t j) \<longleftrightarrow> own = Some j"
    using i by (auto simp: lock_owner_def)
  have ids: "current_task_id (c j) \<noteq> 0" "j \<noteq> i \<Longrightarrow> current_task_id (c j) \<noteq> current_task_id (c i)" if "j < n" for j
    using tasks that i(1) by (auto simp: distinct_tasks_def inj_on_def)
  have others: "view_ok (c j) lock' (t j)" if "j < n" "j \<noteq> i" "own = None \<or> own = Some i"
      "owner_task_id lock' \<in> {owner_task_id lock, 0, current_task_id (c i)}" for j
  proof -
    have "\<not> owns (t j)" using that vj(2) by auto
    moreover have "owner_task_id lock \<noteq> current_task_id (c j)" using vj(1) [OF that(1)] \<open>\<not> owns (t j)\<close> by (auto simp: view_ok_def owns_def)
    ultimately show ?thesis using view_ok_other [OF vj(1) [OF that(1)], of lock'] ids [OF that(1)] that by auto
  qed
  define own' where "own' = (if pc (t i) = Release_value then None else if pc (t i) = Acquire_set \<and> own = None then Some i else own)"
  have "lock_owner n c lock' (t(i := ?v)) own'"
  proof (rule lock_owner_update [OF own i(1)])
    show "\<not> for_future lock'" using step vi(3) by (cases "pc (t i)") (auto split: if_splits prod.splits)
    show "lock_value lock' = (if own' = None then 0 else 1)"
      using step vi by (cases "pc (t i)") (auto simp: own'_def split: if_splits prod.splits)
    show "view_ok (c i) lock' ?v"
      using step vi i(2) ids(1) [OF i(1)]
      by (cases "pc (t i)") (auto simp: view_ok_def owns_def split: if_splits prod.splits)
    show "owns ?v \<longleftrightarrow> own' = Some i"
      using step vi i(2) by (cases "pc (t i)") (auto simp: view_ok_def owns_def own'_def split: if_splits prod.splits)
    show "own' = Some j \<longleftrightarrow> own = Some j" if "j \<noteq> i" for j
      using vi(2) that by (auto simp: own'_def owns_def)
    show "view_ok (c j) lock' (t j)" if j: "j < n" "j \<noteq> i" for j
    proof (cases "owns (t i)")
      case True
      then show ?thesis
        using others [OF j] vi(2,3) step
        by (cases "pc (t i)") (auto split: if_splits prod.splits)
    next
      case False
      then have "owner_task_id lock' = owner_task_id lock" "owner_cpu_id lock' = owner_cpu_id lock"
        using step by (cases "pc (t i)"; auto simp: owns_def split: if_splits prod.splits)+
      then show ?thesis using vj(1) [OF j(1)] by (simp add: view_ok_def)
    qed
  qed
  then show ?thesis by (auto simp: lock_inv_def)
qed

lemma lock_do_inv:
  assumes "distinct_tasks n c" "lock_inv n c s" "lock_do False n c e s = Some s'"
  shows "lock_inv n c s'"
proof -
  obtain lock t where s: "s = (lock, t)" by (cases s)
  show ?thesis
  proof (cases e)
    case (Call_acquire i)
    then show ?thesis using assms lock_inv_call(1) [of n c lock t i]
      by (auto simp: s lock_do_def lock_acquire_def split: if_splits)
  next
    case (Call_release i)
    then show ?thesis using assms lock_inv_call(2) [of n c lock t i]
      by (auto simp: s lock_do_def lock_release_def split: if_splits)
  next
    case (Run i)
    then show ?thesis using assms lock_inv_run [of n c lock t i]
      by (auto simp: s lock_do_def Let_def split: if_splits prod.splits)
  qed
qed

lemma lock_reachable_inv:
  "\<lbrakk>lock_reachable False n c s; distinct_tasks n c\<rbrakk> \<Longrightarrow> lock_inv n c s"
proof (induction rule: lock_reachable.induct)
  case (fresh lock)
  then have "lock_owner n c lock (\<lambda>_. idle_view) None"
    by (auto simp: lock_owner_def lock_create_with_heap_for_future_def view_ok_def owns_def idle_view_def distinct_tasks_def)
  then show ?case by (auto simp: lock_inv_def)
qed (use lock_do_inv in blast)

subsection \<open>Progress\<close>

text \<open>
  An execution: the states it goes through and the event that leads from each to the next. Tasks in
  a call run again and again, and every task that holds the lock gives it back at some time.
\<close>

definition lock_execution :: "nat \<Rightarrow> (nat \<Rightarrow> caller) \<Rightarrow> (nat \<Rightarrow> lock_state) \<Rightarrow> (nat \<Rightarrow> lock_event) \<Rightarrow> bool" where
  "lock_execution n c s e \<longleftrightarrow> lock_reachable False n c (s 0) \<and> (\<forall>k. lock_do False n c (e k) (s k) = Some (s (Suc k)))"

definition fair :: "nat \<Rightarrow> (nat \<Rightarrow> lock_state) \<Rightarrow> (nat \<Rightarrow> lock_event) \<Rightarrow> bool" where
  "fair n s e \<longleftrightarrow> (\<forall>i<n. \<forall>k. \<exists>m\<ge>k. e m = Run i \<or> pc (snd (s m) i) = Returned)"

definition releases :: "nat \<Rightarrow> (nat \<Rightarrow> lock_state) \<Rightarrow> bool" where
  "releases n s \<longleftrightarrow> (\<forall>i<n. \<forall>k. \<exists>m\<ge>k. \<not> holds (snd (s m) i))"

lemma execution_do: "lock_execution n c s e \<Longrightarrow> lock_do False n c (e k) (s k) = Some (s (Suc k))"
  by (simp add: lock_execution_def)

lemma execution_reachable:
  assumes "lock_execution n c s e"
  shows "lock_reachable False n c (s k)"
proof (induction k)
  case (Suc k)
  show ?case by (rule lock_reachable.step [OF Suc execution_do [OF assms]])
qed (use assms in \<open>simp add: lock_execution_def\<close>)

lemma lock_do_view:
  "\<lbrakk>lock_do nesting n c e s = Some s'; e \<noteq> Run j; pc (snd s j) \<noteq> Returned\<rbrakk> \<Longrightarrow> snd s' j = snd s j"
  by (auto simp: lock_do_def Let_def split: prod.splits lock_event.splits if_splits)

lemma lock_do_run:
  assumes "lock_do nesting n c (Run i) s = Some s'"
  shows "i < n" "pc (snd s i) \<noteq> Returned"
    "fst s' = fst (lock_step (c i) (fst s) (pc (snd s i)))"
    "pc (snd s' i) = snd (lock_step (c i) (fst s) (pc (snd s i)))"
    "holds (snd s' i) \<longleftrightarrow> holds (snd s i) \<or> pc (snd s' i) = Returned \<and> pc (snd s i) \<noteq> Release_value"
  using assms by (auto simp: lock_do_def Let_def split: prod.splits if_splits)

text \<open>A task in a call runs, and until then nothing about it changes.\<close>

lemma execution_runs:
  assumes exec: "lock_execution n c s e" and "fair n s e" "i < n" "pc (snd (s k) i) \<noteq> Returned"
  shows "\<exists>m\<ge>k. e m = Run i \<and> snd (s m) i = snd (s k) i"
proof (rule ccontr)
  assume none: "\<not> ?thesis"
  have same: "snd (s (k + d)) i = snd (s k) i" for d
  proof (induction d)
    case (Suc d)
    then have "e (k + d) \<noteq> Run i" using none by auto
    then show ?case using lock_do_view [OF execution_do [OF exec, of "k + d"], of i] Suc assms(4) by simp
  qed simp
  obtain m where "m \<ge> k" "e m = Run i \<or> pc (snd (s m) i) = Returned" using assms(2,3) by (auto simp: fair_def)
  moreover from this have "snd (s m) i = snd (s k) i" using same [of "m - k"] by simp
  ultimately show False using none assms(4) by auto
qed


lemma execution_step:
  assumes "lock_execution n c s e" "e m = Run i"
  shows "pc (snd (s (Suc m)) i) = snd (lock_step (c i) (fst (s m)) (pc (snd (s m) i)))"
    and "fst (s (Suc m)) = fst (lock_step (c i) (fst (s m)) (pc (snd (s m) i)))"
    and "holds (snd (s (Suc m)) i) \<longleftrightarrow> holds (snd (s m) i) \<or>
       pc (snd (s (Suc m)) i) = Returned \<and> pc (snd (s m) i) \<noteq> Release_value"
proof -
  have do: "lock_do False n c (Run i) (s m) = Some (s (Suc m))" using execution_do [OF assms(1), of m] assms(2) by simp
  show "pc (snd (s (Suc m)) i) = snd (lock_step (c i) (fst (s m)) (pc (snd (s m) i)))"
    "fst (s (Suc m)) = fst (lock_step (c i) (fst (s m)) (pc (snd (s m) i)))"
    "holds (snd (s (Suc m)) i) \<longleftrightarrow> holds (snd (s m) i) \<or>
       pc (snd (s (Suc m)) i) = Returned \<and> pc (snd (s m) i) \<noteq> Release_value"
    using lock_do_run [OF do] by simp_all
qed

text \<open>A task that tries to get the lock does so until it holds it.\<close>

lemma waiting_stays:
  assumes "lock_execution n c s e" "pc (snd (s m) i) \<notin> {Returned, Release_task, Release_cpu, Release_value}"
    and "\<not> holds (snd (s (Suc m)) i)"
  shows "pc (snd (s (Suc m)) i) \<notin> {Returned, Release_task, Release_cpu, Release_value}"
proof (cases "e m = Run i")
  case True
  show ?thesis using execution_step [OF assms(1) True] assms(2,3)
    by (cases "pc (snd (s m) i)") (auto split: prod.splits)
next
  case False
  then show ?thesis using lock_do_view [OF execution_do [OF assms(1), of m] False] assms(2) by auto
qed

text \<open>
  From here on nobody gets the lock, and nobody holds it. Then nobody is about to get it either, it
  is free at some time and stays free.
\<close>

definition nobody_from :: "nat \<Rightarrow> nat \<Rightarrow> (nat \<Rightarrow> lock_state) \<Rightarrow> bool" where
  "nobody_from k n s \<longleftrightarrow> (\<forall>m\<ge>k. \<forall>j<n. \<not> holds (snd (s m) j))"

lemma no_new_holder_nobody:
  assumes "releases n s" "\<forall>m\<ge>k. \<forall>j<n. holds (snd (s (Suc m)) j) \<longrightarrow> holds (snd (s m) j)"
  shows "\<exists>m\<ge>k. nobody_from m n s"
proof -
  have keep: "\<not> holds (snd (s (m + d)) j)" if "m \<ge> k" "j < n" "\<not> holds (snd (s m) j)" for m j d
    by (induction d) (use that assms(2) [rule_format, of "m + _" j] in auto)
  have "\<forall>j<n. \<exists>m\<ge>k. \<not> holds (snd (s m) j)" using assms(1) by (auto simp: releases_def)
  then obtain f where f: "\<forall>j<n. f j \<ge> k \<and> \<not> holds (snd (s (f j)) j)" by metis
  define m where "m = Max (insert k (f ` {..<n}))"
  have "m \<ge> k" "\<forall>j<n. f j \<le> m" by (auto simp: m_def)
  moreover have "nobody_from m n s"
    unfolding nobody_from_def
  proof (intro allI impI)
    fix m' j assume "m \<le> m'" "j < n"
    then have "f j \<le> m'" "k \<le> f j" "\<not> holds (snd (s (f j)) j)" using f \<open>\<forall>j<n. f j \<le> m\<close> by (auto intro: le_trans)
    then show "\<not> holds (snd (s m') j)" using keep [of "f j" j "m' - f j"] \<open>j < n\<close> by simp
  qed
  ultimately show ?thesis by blast
qed

definition quiet :: "nat \<Rightarrow> (nat \<Rightarrow> caller) \<Rightarrow> (nat \<Rightarrow> lock_state) \<Rightarrow> (nat \<Rightarrow> lock_event) \<Rightarrow> nat \<Rightarrow> bool" where
  "quiet n c s e k \<longleftrightarrow> lock_execution n c s e \<and> fair n s e \<and> distinct_tasks n c \<and> nobody_from k n s"

lemma quiet_runs:
  assumes "quiet n c s e k" "m \<ge> k" "j < n" "pc (snd (s m) j) \<noteq> Returned"
  shows "\<exists>m'\<ge>m. e m' = Run j \<and> pc (snd (s m') j) = pc (snd (s m) j) \<and>
    pc (snd (s (Suc m')) j) = snd (lock_step (c j) (fst (s m')) (pc (snd (s m) j))) \<and>
    fst (s (Suc m')) = fst (lock_step (c j) (fst (s m')) (pc (snd (s m) j))) \<and>
    (pc (snd (s (Suc m')) j) = Returned \<longrightarrow> pc (snd (s m) j) = Release_value)"
proof -
  have exec: "lock_execution n c s e" and fair: "fair n s e" and nobody: "nobody_from k n s"
    using assms(1) by (auto simp: quiet_def)
  obtain m' where m': "m' \<ge> m" "e m' = Run j" "snd (s m') j = snd (s m) j"
    using execution_runs [OF exec fair assms(3,4)] by blast
  then have "\<not> holds (snd (s (Suc m')) j)" using assms(2,3) nobody by (auto simp: nobody_from_def)
  then show ?thesis using m' execution_step [OF exec m'(2)] by (intro exI [of _ m']) auto
qed

lemma quiet_not_about_to:
  assumes "quiet n c s e k" "m \<ge> k" "j < n"
  shows "pc (snd (s m) j) \<noteq> Acquire_owner_task" "pc (snd (s m) j) \<noteq> Acquire_owner_cpu"
proof -
  have cpu: "pc (snd (s m) j) \<noteq> Acquire_owner_cpu" if "m \<ge> k" for m
    using quiet_runs [OF assms(1) that assms(3)] by auto
  then show "pc (snd (s m) j) \<noteq> Acquire_owner_cpu" using assms(2) .
  show "pc (snd (s m) j) \<noteq> Acquire_owner_task"
  proof
    assume "pc (snd (s m) j) = Acquire_owner_task"
    then obtain m' where "m' \<ge> m" "pc (snd (s (Suc m')) j) = Acquire_owner_cpu"
      using quiet_runs [OF assms] by auto
    then show False using cpu [of "Suc m'"] assms(2) by simp
  qed
qed

lemma lock_do_call:
  "\<lbrakk>lock_do nesting n c e s = Some s'; \<forall>j. e \<noteq> Run j\<rbrakk> \<Longrightarrow> fst s' = fst s"
  by (auto simp: lock_do_def split: prod.splits lock_event.splits if_splits)

lemma quiet_stays_free:
  assumes "quiet n c s e k" "m \<ge> k" "lock_value (fst (s m)) = 0"
  shows "lock_value (fst (s (m + d))) = 0"
proof (induction d)
  case (Suc d)
  let ?m = "m + d"
  have exec: "lock_execution n c s e" using assms(1) by (simp add: quiet_def)
  note do = execution_do [OF exec, of ?m]
  show ?case
  proof (cases "\<exists>j. e ?m = Run j")
    case True
    then obtain j where j: "e ?m = Run j" ..
    have "j < n" using lock_do_run(1) do j by simp
    then have "pc (snd (s (Suc ?m)) j) \<noteq> Acquire_owner_task" using quiet_not_about_to(1) [OF assms(1)] assms(2) by simp
    then show ?thesis using execution_step [OF exec j] Suc by (cases "pc (snd (s ?m) j)") auto
  next
    case False
    then show ?thesis using lock_do_call [OF do] Suc by auto
  qed
qed (simp add: assms)

lemma quiet_release:
  assumes "quiet n c s e k" "m \<ge> k" "j < n" "pc (snd (s m) j) \<in> {Release_task, Release_cpu, Release_value}"
  shows "\<exists>m'\<ge>k. lock_value (fst (s m')) = 0"
proof -
  have fin: "\<exists>m'\<ge>k. lock_value (fst (s m')) = 0" if m: "m \<ge> k" "pc (snd (s m) j) = Release_value" for m
  proof -
    obtain m' where "m' \<ge> m" "fst (s (Suc m')) = fst (lock_step (c j) (fst (s m')) Release_value)"
      using quiet_runs [OF assms(1) m(1) assms(3)] m(2) by auto
    then show ?thesis using m(1) by (intro exI [of _ "Suc m'"]) simp
  qed
  have cpu: "\<exists>m'\<ge>k. lock_value (fst (s m')) = 0" if m: "m \<ge> k" "pc (snd (s m) j) = Release_cpu" for m
  proof -
    obtain m' where "m' \<ge> m" "pc (snd (s (Suc m')) j) = Release_value"
      using quiet_runs [OF assms(1) m(1) assms(3)] m(2) by auto
    then show ?thesis using fin [of "Suc m'"] m(1) by simp
  qed
  show ?thesis
  proof (cases "pc (snd (s m) j) = Release_task")
    case True
    then obtain m' where "m' \<ge> m" "pc (snd (s (Suc m')) j) = Release_cpu"
      using quiet_runs [OF assms(1-3)] by auto
    then show ?thesis using cpu [of "Suc m'"] assms(2) by simp
  qed (use fin cpu assms(2,4) in auto)
qed

lemma quiet_gets_free:
  assumes "quiet n c s e k"
  shows "\<exists>m\<ge>k. lock_value (fst (s m)) = 0"
proof -
  have "lock_inv n c (s k)"
    using assms lock_reachable_inv [OF execution_reachable] by (auto simp: quiet_def)
  then obtain own where own: "lock_owner n c (fst (s k)) (snd (s k)) own" by (auto simp: lock_inv_def)
  show ?thesis
  proof (cases own)
    case None
    then show ?thesis using own by (auto simp: lock_owner_def)
  next
    case (Some j)
    then have j: "j < n" using own by (auto simp: lock_owner_def)
    then have "owns (snd (s k) j)" using own Some by (auto simp: lock_owner_def)
    moreover have "\<not> holds (snd (s k) j)" using assms j by (auto simp: quiet_def nobody_from_def)
    ultimately show ?thesis
      using quiet_release [OF assms order.refl j] quiet_not_about_to [OF assms order.refl j] by (auto simp: owns_def)
  qed
qed

text \<open>A task that tries to get the lock gets it in a few of its own steps once it is free.\<close>

lemma quiet_no_waiter:
  assumes "quiet n c s e k" "j < n" "m \<ge> k" "lock_value (fst (s m)) = 0"
  shows "pc (snd (s m) j) \<in> {Returned, Release_task, Release_cpu, Release_value}"
proof -
  have free: "lock_value (fst (s m')) = 0" if "m' \<ge> m" for m'
    using quiet_stays_free [OF assms(1,3,4), of "m' - m"] that by simp
  have next_pc: "\<exists>m2\<ge>m. \<exists>lock. lock_value lock = 0 \<and> pc (snd (s m2) j) = snd (lock_step (c j) lock p) \<and> pc (snd (s m2) j) \<noteq> Returned"
    if m': "m' \<ge> m" "pc (snd (s m') j) = p" "p \<noteq> Returned" "p \<noteq> Release_value" for m' p
  proof -
    obtain m2 where "m2 \<ge> m'" "pc (snd (s (Suc m2)) j) = snd (lock_step (c j) (fst (s m2)) p)" "pc (snd (s (Suc m2)) j) \<noteq> Returned"
      using quiet_runs [OF assms(1) _ assms(2), of m'] m' assms(3) by auto
    then show ?thesis using free [of m2] m'(1) by (intro exI [of _ "Suc m2"] conjI exI [of _ "fst (s m2)"]) auto
  qed
  have set: "pc (snd (s m') j) \<noteq> Acquire_set" if "m' \<ge> m" for m'
    using next_pc [OF that] quiet_not_about_to(1) [OF assms(1) _ assms(2)] assms(3) by fastforce
  have yield: "pc (snd (s m') j) \<noteq> Acquire_yield" if "m' \<ge> m" for m'
    using next_pc [OF that] set by fastforce
  have task: "pc (snd (s m') j) \<noteq> Acquire_task" if "m' \<ge> m" for m'
    using next_pc [OF that] set by (fastforce split: if_splits)
  have cpu: "pc (snd (s m') j) \<noteq> Acquire_cpu" if "m' \<ge> m" for m'
    using next_pc [OF that] set task by (fastforce split: if_splits)
  have "pc (snd (s m) j) \<noteq> Acquire_value"
    using next_pc [OF order.refl] set by fastforce
  then show ?thesis
    using set [of m] yield [of m] task [of m] cpu [of m] quiet_not_about_to [OF assms(1,3,2)]
    by (cases "pc (snd (s m) j)") auto
qed

end
