(* ===== verification/Sync_Props.thy ===== *)
theory Sync_Props
  imports Sync_Inv
begin

text \<open>
  The semaphore invariant, and the properties of locks and semaphores.
\<close>

subsection \<open>The invariant of a semaphore\<close>

















subsection \<open>Giving back the lock\<close>










subsection \<open>Properties\<close>

text \<open>Two tasks on two processors.\<close>

definition two_tasks :: "nat \<Rightarrow> caller" where
  "two_tasks i = (if i = 0 then lock_caller 0 (Some 7) else lock_caller 1 (Some 8))"

lemma two_tasks_distinct: "distinct_tasks 2 two_tasks"
  by (auto simp: distinct_tasks_def two_tasks_def lock_caller_def inj_on_def Let_def less_2_cases_iff)

lemma fresh_reachable:
  "lock_reachable nesting n c (\<lparr>lock_value = 0, owner_task_id = 0, owner_cpu_id = 0, for_future = False\<rparr>, \<lambda>_. idle_view)"
  by (rule lock_reachable.fresh) (simp add: lock_create_with_heap_for_future_def)

text \<open>
  C6. Mutual exclusion: however the calls of tasks with different ids interleave, at most one task
  is behind a \<open>lock_acquire\<close> it did not release, acquiring again while holding included, and
  the lock names that task as its owner.
\<close>

theorem lock_mutual_exclusion:
  assumes "lock_reachable False n c (lock, t)" "distinct_tasks n c" "i < n" "holds (t i)"
  shows "owner_task_id lock = current_task_id (c i) \<and> owner_cpu_id lock = current_cpu_id (c i) \<and> lock_value lock = 1 \<and>
    (\<forall>j<n. j \<noteq> i \<longrightarrow> \<not> holds (t j))"
proof -
  obtain own where own: "lock_owner n c lock t own"
    using lock_reachable_inv [OF assms(1,2)] by (auto simp: lock_inv_def)
  then have "own = Some i" using assms(3,4) by (auto simp: lock_owner_def owns_def)
  with own assms(3,4) show ?thesis by (auto simp: lock_owner_def view_ok_def owns_def)
qed

text \<open>Task 0 holds the lock and task 1 spins.\<close>

definition contended :: "lock_event list" where
  "contended = [Call_acquire 0, Run 0, Run 0, Run 0, Run 0, Call_acquire 1, Run 1, Run 1, Run 1]"

definition free_lock :: lock_state where
  "free_lock = (\<lparr>lock_value = 0, owner_task_id = 0, owner_cpu_id = 0, for_future = False\<rparr>, \<lambda>_. idle_view)"

lemma contended_run:
  "lock_run nesting 2 two_tasks contended free_lock =
     Some (\<lparr>lock_value = 1, owner_task_id = 7, owner_cpu_id = 1, for_future = False\<rparr>,
       (\<lambda>_. idle_view)(0 := \<lparr>pc = Returned, holds = True, depth = 1\<rparr>, 1 := \<lparr>pc = Acquire_yield, holds = False, depth = 0\<rparr>))"
  by (simp add: contended_def free_lock_def lock_do_def idle_view_def lock_acquire_def two_tasks_def lock_caller_def
      Let_def fun_upd_twist)

theorem lock_mutual_exclusion_witness:
  "\<exists>lock t. lock_reachable False 2 two_tasks (lock, t) \<and> holds (t 0) \<and>
     owner_task_id lock = current_task_id (two_tasks 0) \<and> (\<forall>j<2. j \<noteq> 0 \<longrightarrow> \<not> holds (t j))"
proof -
  let ?lock = "\<lparr>lock_value = 1, owner_task_id = 7, owner_cpu_id = 1, for_future = False\<rparr>"
  let ?t = "(\<lambda>_ :: nat. idle_view)(0 := \<lparr>pc = Returned, holds = True, depth = 1\<rparr>, 1 := \<lparr>pc = Acquire_yield, holds = False, depth = 0\<rparr>)"
  have "lock_reachable False 2 two_tasks (?lock, ?t)"
    using lock_run_reachable [OF contended_run] fresh_reachable by (simp add: free_lock_def)
  moreover from this have "owner_task_id ?lock = current_task_id (two_tasks 0) \<and> owner_cpu_id ?lock = current_cpu_id (two_tasks 0) \<and>
      lock_value ?lock = 1 \<and> (\<forall>j<2. j \<noteq> 0 \<longrightarrow> \<not> holds (?t j))"
    by (rule lock_mutual_exclusion) (simp_all add: two_tasks_distinct)
  ultimately show ?thesis by (intro exI [of _ ?lock] exI [of _ ?t]) simp
qed

text \<open>
  C8. Progress: in every execution in which tasks inside of a call keep running and holders give the
  lock back, whenever a task waits for the lock, some task gets it later.
\<close>

theorem lock_progress:
  assumes "lock_execution n c s e" "fair n s e" "releases n s" "distinct_tasks n c"
    and "i < n" "pc (snd (s k) i) \<notin> {Returned, Release_task, Release_cpu, Release_value}" "\<not> holds (snd (s k) i)"
  shows "\<exists>m\<ge>k. \<exists>j<n. \<not> holds (snd (s m) j) \<and> holds (snd (s (Suc m)) j)"
proof (rule ccontr)
  assume "\<not> ?thesis"
  then have none: "\<forall>m\<ge>k. \<forall>j<n. holds (snd (s (Suc m)) j) \<longrightarrow> holds (snd (s m) j)" by blast
  obtain m where m: "m \<ge> k" "quiet n c s e m"
    using no_new_holder_nobody [OF assms(3) none] assms(1,2,4) by (auto simp: quiet_def)
  obtain m' where m': "m' \<ge> m" "lock_value (fst (s m')) = 0" using quiet_gets_free [OF m(2)] by blast
  have "pc (snd (s (k + d)) i) \<notin> {Returned, Release_task, Release_cpu, Release_value} \<and> \<not> holds (snd (s (k + d)) i)" for d
  proof (induction d)
    case (Suc d)
    then have "\<not> holds (snd (s (Suc (k + d))) i)" using none [rule_format, of "k + d" i] assms(5) by auto
    then show ?case using waiting_stays [OF assms(1), of "k + d" i] Suc by simp
  qed (use assms(6,7) in simp)
  from this [of "m' - k"] have "pc (snd (s m') i) \<notin> {Returned, Release_task, Release_cpu, Release_value}" using m m' by simp
  then show False using quiet_no_waiter [OF m(2) assms(5) m'] by simp
qed

text \<open>An execution that repeats a sequence of events that ends where it began.\<close>

definition cyclic_events :: "lock_event list \<Rightarrow> nat \<Rightarrow> lock_event" where
  "cyclic_events es k = es ! (k mod length es)"

definition cyclic_states :: "nat \<Rightarrow> (nat \<Rightarrow> caller) \<Rightarrow> lock_event list \<Rightarrow> lock_state \<Rightarrow> nat \<Rightarrow> lock_state" where
  "cyclic_states n c es s0 k = the (lock_run False n c (take (k mod length es) es) s0)"

lemma lock_run_append:
  "lock_run nesting n c (es @ es') s = Option.bind (lock_run nesting n c es s) (lock_run nesting n c es')"
  by (induction es arbitrary: s) (auto simp: bind_eq_Some_conv split: Option.bind_split)

lemma lock_run_take:
  assumes "lock_run nesting n c es s = Some s'" "r < length es"
  obtains s1 s2 where "lock_run nesting n c (take r es) s = Some s1" "lock_do nesting n c (es ! r) s1 = Some s2"
    "lock_run nesting n c (take (Suc r) es) s = Some s2"
proof -
  have "lock_run nesting n c (take (Suc r) es @ drop (Suc r) es) s = Some s'" using assms(1) by simp
  then obtain s2 where s2: "lock_run nesting n c (take (Suc r) es) s = Some s2"
    unfolding lock_run_append by (auto simp: bind_eq_Some_conv)
  then show thesis using that assms(2) by (auto simp: take_Suc_conv_app_nth lock_run_append bind_eq_Some_conv)
qed

lemma cyclic_execution:
  assumes "lock_run False n c es s0 = Some s0" "es \<noteq> []" "lock_reachable False n c s0"
  shows "lock_execution n c (cyclic_states n c es s0) (cyclic_events es)"
  unfolding lock_execution_def
proof (intro conjI allI)
  show "lock_reachable False n c (cyclic_states n c es s0 0)" using assms(3) by (simp add: cyclic_states_def)
  fix k
  define r where "r = k mod length es"
  have r: "r < length es" using assms(2) by (simp add: r_def)
  obtain s1 s2 where s: "lock_run False n c (take r es) s0 = Some s1" "lock_do False n c (es ! r) s1 = Some s2"
      "lock_run False n c (take (Suc r) es) s0 = Some s2"
    using lock_run_take [OF assms(1) r] by blast
  have "lock_run False n c (take (Suc k mod length es) es) s0 = Some s2"
  proof (cases "Suc r = length es")
    case True
    then show ?thesis using s(3) assms(1) by (simp add: mod_Suc r_def [symmetric])
  next
    case False
    then show ?thesis using s(3) by (simp add: mod_Suc r_def [symmetric])
  qed
  with s show "lock_do False n c (cyclic_events es k) (cyclic_states n c es s0 k) = Some (cyclic_states n c es s0 (Suc k))"
    by (simp add: cyclic_states_def cyclic_events_def r_def)
qed

lemma cyclic_later: "r < length es \<Longrightarrow> \<exists>m\<ge>k. m mod length es = r"
  by (intro exI [of _ "k * length es + r"]) (auto simp: trans_le_add1)

text \<open>Both tasks take the lock in turn, the second one after spinning.\<close>

definition turns :: "lock_event list" where
  "turns = contended @ [Call_release 0, Run 0, Run 0, Run 0, Run 1, Run 1, Run 1, Run 1, Call_release 1, Run 1, Run 1, Run 1]"

lemma turns_run: "lock_run False 2 two_tasks turns free_lock = Some free_lock"
proof -
  have "(\<lambda>_ :: nat. idle_view)(0 := idle_view, 1 := idle_view) = (\<lambda>_. idle_view)" by auto
  then show ?thesis
    unfolding turns_def lock_run_append contended_run
    by (simp add: free_lock_def lock_do_def idle_view_def lock_release_def two_tasks_def lock_caller_def
        Let_def fun_upd_twist)
qed

theorem lock_progress_witness:
  "\<exists>m\<ge>9. \<exists>j<2. \<not> holds (snd (cyclic_states 2 two_tasks turns free_lock m) j) \<and>
     holds (snd (cyclic_states 2 two_tasks turns free_lock (Suc m)) j)"
proof (rule lock_progress)
  have len: "length turns = 21" by (simp add: turns_def contended_def)
  show "lock_execution 2 two_tasks (cyclic_states 2 two_tasks turns free_lock) (cyclic_events turns)"
    by (rule cyclic_execution [OF turns_run]) (use fresh_reachable in \<open>simp_all add: turns_def free_lock_def\<close>)
  show "distinct_tasks 2 two_tasks" by (rule two_tasks_distinct)
  show "releases 2 (cyclic_states 2 two_tasks turns free_lock)"
    unfolding releases_def
  proof (intro allI impI)
    fix i k :: nat
    obtain m where "m \<ge> k" "m mod length turns = 0" using cyclic_later [of 0 turns k] len by auto
    then show "\<exists>m\<ge>k. \<not> holds (snd (cyclic_states 2 two_tasks turns free_lock m) i)"
      by (intro exI [of _ m]) (simp add: cyclic_states_def free_lock_def idle_view_def)
  qed
  show "fair 2 (cyclic_states 2 two_tasks turns free_lock) (cyclic_events turns)"
    unfolding fair_def
  proof (intro allI impI)
    fix i k :: nat assume "i < 2"
    then have "\<exists>r<length turns. turns ! r = Run i"
      by (intro exI [of _ "if i = 0 then 1 else 6"]) (auto simp: less_2_cases_iff turns_def contended_def)
    then obtain m where "m \<ge> k" "turns ! (m mod length turns) = Run i" using cyclic_later by metis
    then show "\<exists>m\<ge>k. cyclic_events turns m = Run i \<or> pc (snd (cyclic_states 2 two_tasks turns free_lock m) i) = Returned"
      by (auto simp: cyclic_events_def)
  qed
  have "cyclic_states 2 two_tasks turns free_lock 9 = the (lock_run False 2 two_tasks contended free_lock)"
    by (simp add: cyclic_states_def len) (simp add: turns_def contended_def)
  then show "pc (snd (cyclic_states 2 two_tasks turns free_lock 9) 1) \<notin> {Returned, Release_task, Release_cpu, Release_value}"
      "\<not> holds (snd (cyclic_states 2 two_tasks turns free_lock 9) 1)"
    by (simp_all add: contended_run)
qed simp









end
