(* ===== verification/BigInt.thy ===== *)
theory BigInt
  imports Prelude
begin

text \<open>
  Big integers: \<open>cc/lib/bigint.64.c\<close>. A number is a doubly linked list of 48 bit items, its sign and
  a flag that says that the items of a negative number are its two's complement and not its
  magnitude. The list is the list of the values of its items, the least significant one first; the
  links of an item are always those of its neighbours.

  The operations get pointers to numbers, and the number an operation stores to may be one it reads.
  A store is the list of the numbers, a pointer its index, so that aliasing is equality of
  pointers. Loops over the items of several numbers read the items at a position before they write
  the one at that position, so they are functions of the items before the loop. Numbers an operation
  creates and destroys again are behind the numbers of its caller in the store. Memory is
  always available; the branches for a failed allocation are left out.
\<close>

subsection \<open>Numbers\<close>

record bigint_t =
  items :: "u64 list"
  sign :: int
  neged_with_sign :: bool

definition BIGINT_ITEM_BITS :: nat where
  "BIGINT_ITEM_BITS = 48"

definition BIGINT_ITEM_HEX_DIGITS :: nat where
  "BIGINT_ITEM_HEX_DIGITS = 12"

definition BIGINT_ITEM_MAX :: u64 where
  "BIGINT_ITEM_MAX = 0x0000FFFFFFFFFFFF"

definition BIGINT_ITEM_MSB :: u64 where
  "BIGINT_ITEM_MSB = 0x0000800000000000"

text \<open>A number without items, as \<open>bigint_create\<close> and \<open>bigint_destroy_items\<close> leave it.\<close>

definition bigint_zero :: bigint_t where
  "bigint_zero = \<lparr>items = [], sign = 0, neged_with_sign = False\<rparr>"

type_synonym bigints = "bigint_t list"

definition big_get :: "bigints \<Rightarrow> ptr \<Rightarrow> bigint_t option" where
  "big_get h p = (case p of NULL \<Rightarrow> None | Ref i \<Rightarrow> if i < length h then Some (h ! i) else None)"

definition big_put :: "ptr \<Rightarrow> bigint_t \<Rightarrow> bigints \<Rightarrow> bigints" where
  "big_put p b h = h[ref_of p := b]"

definition big_modify :: "bigints \<Rightarrow> ptr \<Rightarrow> (bigint_t \<Rightarrow> bigint_t) \<Rightarrow> bigints option" where
  "big_modify h p f = map_option (\<lambda>b. big_put p (f b) h) (big_get h p)"

definition bigint_create :: "bigints \<Rightarrow> ptr \<times> bigints" where
  "bigint_create h = (Ref (length h), h @ [bigint_zero])"

definition bigint_destroy_items :: "bigints \<Rightarrow> ptr \<Rightarrow> bigints" where
  "bigint_destroy_items h p = (if p = NULL then h else big_put p bigint_zero h)"

text \<open>What the caller has after the numbers created since are destroyed, and a call that gives up
  when the call before it failed.\<close>

definition drop_temps :: "bigints \<Rightarrow> int \<times> bigints \<Rightarrow> int \<times> bigints" where
  "drop_temps h r = (fst r, take (length h) (snd r))"

definition on_success :: "(int \<times> bigints) option \<Rightarrow> (bigints \<Rightarrow> (int \<times> bigints) option) \<Rightarrow> (int \<times> bigints) option" where
  "on_success m k = do {
     (r, h) \<leftarrow> m;
     if r = - 1 then Some (- 1, h) else k h
   }"

lemma on_success_mono [partial_function_mono]:
  assumes "mono_option m" "\<And>h. mono_option (\<lambda>f. k f h)"
  shows "mono_option (\<lambda>f. on_success (m f) (k f))"
  unfolding on_success_def by (intro bind_mono if_mono option.const_mono assms) (simp add: split_def, intro bind_mono assms if_mono option.const_mono)

definition bigint_item_count :: "bigint_t \<Rightarrow> nat" where
  "bigint_item_count b = length (items b)"

subsection \<open>Setting\<close>

definition split_items :: "u64 \<Rightarrow> u64 list" where
  "split_items v =
     (if v > BIGINT_ITEM_MAX then [v AND BIGINT_ITEM_MAX, drop_bit BIGINT_ITEM_BITS v] else [v])"

text \<open>An \<open>int64_t\<close> is the word with its bits.\<close>

definition bigint_set_int64 :: "bigints \<Rightarrow> ptr \<Rightarrow> u64 \<Rightarrow> (int \<times> bigints) option" where
  "bigint_set_int64 h bigint v =
     (if bigint = NULL then Some (- 1, h)
      else do {
        h1 \<leftarrow> big_modify h bigint (\<lambda>_. bigint_zero);
        if v = 0 then Some (0, h1)
        else if sint v < 0 then
          Some (0, big_put bigint \<lparr>items = split_items (- v), sign = - 1, neged_with_sign = False\<rparr> h1)
        else Some (0, big_put bigint \<lparr>items = split_items v, sign = 1, neged_with_sign = False\<rparr> h1)
      })"

definition bigint_set_uint64 :: "bigints \<Rightarrow> ptr \<Rightarrow> u64 \<Rightarrow> (int \<times> bigints) option" where
  "bigint_set_uint64 h bigint v = do {
     h1 \<leftarrow> big_modify h bigint (\<lambda>_. bigint_zero);
     if v = 0 then Some (0, h1)
     else Some (0, big_put bigint \<lparr>items = split_items v, sign = 1, neged_with_sign = False\<rparr> h1)
   }"

definition bigint_one :: "bigints \<Rightarrow> (ptr \<times> bigints) option" where
  "bigint_one h = (let (p, h1) = bigint_create h in do {
     (_, h2) \<leftarrow> bigint_set_int64 h1 p 1;
     Some (p, h2)
   })"

definition bigint_two :: "bigints \<Rightarrow> (ptr \<times> bigints) option" where
  "bigint_two h = (let (p, h1) = bigint_create h in do {
     (_, h2) \<leftarrow> bigint_set_int64 h1 p 2;
     Some (p, h2)
   })"

text \<open>The sign is that of the source, but 0 when the last item of the destination goes.\<close>

definition bigint_set_bigint :: "bigints \<Rightarrow> ptr \<Rightarrow> ptr \<Rightarrow> (int \<times> bigints) option" where
  "bigint_set_bigint h bigint src =
     (if bigint = NULL \<or> src = NULL then Some (- 1, h)
      else do {
        d \<leftarrow> big_get h bigint;
        s \<leftarrow> big_get h src;
        let sgn' = (if items s = [] \<and> items d \<noteq> [] then 0 else sign s);
        Some (0, big_put bigint \<lparr>items = items s, sign = sgn', neged_with_sign = neged_with_sign s\<rparr> h)
      })"

definition bigint_clone :: "bigints \<Rightarrow> ptr \<Rightarrow> (ptr \<times> bigints) option" where
  "bigint_clone h src =
     (if src = NULL then Some (NULL, h)
      else let (p, h1) = bigint_create h in do {
        (r, h2) \<leftarrow> bigint_set_bigint h1 p src;
        if r = - 1 then Some (NULL, h2) else Some (p, h2)
      })"

subsection \<open>Strings\<close>

text \<open>A string is the list of its bytes before the terminating 0. After an error only the sign of the
  number is left of it.\<close>

definition hex_value :: "u8 \<Rightarrow> u64 option" where
  "hex_value c =
     (if 48 \<le> c \<and> c \<le> 57 then Some (ucast c - 48)
      else if 65 \<le> c \<and> c \<le> 70 then Some (ucast c - 65 + 10)
      else if 97 \<le> c \<and> c \<le> 102 then Some (ucast c - 97 + 10)
      else None)"

fun parse_part :: "u8 list \<Rightarrow> u64 \<Rightarrow> u64 option" where
  "parse_part [] value' = Some value'"
| "parse_part (c # cs) value' = do {
     d \<leftarrow> hex_value c;
     parse_part cs (push_bit 4 value' + d)
   }"

primrec parse_parts :: "nat \<Rightarrow> nat \<Rightarrow> u8 list \<Rightarrow> u64 list \<Rightarrow> u64 list option" where
  "parse_parts 0 part_len str next' = Some next'"
| "parse_parts (Suc parts) part_len str next' = do {
     v \<leftarrow> parse_part (take part_len str) 0;
     parse_parts parts BIGINT_ITEM_HEX_DIGITS (drop part_len str) (v # next')
   }"

definition bigint_set_str :: "bigints \<Rightarrow> ptr \<Rightarrow> u8 list ref \<Rightarrow> (int \<times> bigints) option" where
  "bigint_set_str h bigint str =
     (if str = NULL \<or> bigint = NULL then Some (- 1, h)
      else do {
        b \<leftarrow> big_get h bigint;
        let s = ref_of str;
        let sgn' = (if s \<noteq> [] \<and> hd s = 45 then - 1 else 1 :: int);
        let s1 = (if s \<noteq> [] \<and> hd s = 45 then tl s else s);
        let s2 = dropWhile (\<lambda>c. c = 48) s1;
        let len = length s2;
        if len = 0 then Some (0, big_put bigint (b\<lparr>sign := 0\<rparr>) h)
        else do {
          let parts = (if len mod BIGINT_ITEM_HEX_DIGITS \<noteq> 0 then len div BIGINT_ITEM_HEX_DIGITS + 1 else len div BIGINT_ITEM_HEX_DIGITS);
          let first_len = (if len mod BIGINT_ITEM_HEX_DIGITS = 0 then BIGINT_ITEM_HEX_DIGITS else len mod BIGINT_ITEM_HEX_DIGITS);
          case parse_parts parts first_len s2 [] of
            None \<Rightarrow> Some (- 1, big_put bigint (bigint_zero\<lparr>sign := sgn'\<rparr>) h)
          | Some xs \<Rightarrow> Some (0, big_put bigint \<lparr>items = xs, sign = sgn', neged_with_sign = False\<rparr> h)
        }
      })"

subsection \<open>Two's complement\<close>

fun inc_items :: "u64 \<Rightarrow> u64 list \<Rightarrow> u64 list" where
  "inc_items carry [] = []"
| "inc_items carry (x # xs) =
     (let v = x + carry; c = drop_bit BIGINT_ITEM_BITS v
      in (v AND BIGINT_ITEM_MAX) # (if c = 0 then xs else inc_items c xs))"

definition bigint_inc_with_overflow :: "bigint_t \<Rightarrow> bigint_t" where
  "bigint_inc_with_overflow b =
     (if sign b = 0 then b\<lparr>sign := 1, items := [1]\<rparr> else b\<lparr>items := inc_items 1 (items b)\<rparr>)"

definition strip_zeros :: "u64 list \<Rightarrow> u64 list" where
  "strip_zeros xs = rev (dropWhile (\<lambda>x. x = 0) (rev xs))"

text \<open>The items of the two's complement that only repeat the sign; the first item stays.\<close>

fun strip_ones :: "u64 list \<Rightarrow> u64 list" where
  "strip_ones [] = []"
| "strip_ones (x # xs) = x # rev (dropWhile (\<lambda>x. x = BIGINT_ITEM_MAX) (rev xs))"

definition bigint_remove_leading_zeros :: "bigint_t \<Rightarrow> bigint_t" where
  "bigint_remove_leading_zeros b =
     (let xs = strip_zeros (items b)
      in if xs = [] then bigint_zero
         else if sign b = - 1 \<and> neged_with_sign b then b\<lparr>items := strip_ones xs\<rparr>
         else b\<lparr>items := xs\<rparr>)"

definition not_items :: "u64 list \<Rightarrow> u64 list" where
  "not_items xs = map (\<lambda>x. NOT x AND BIGINT_ITEM_MAX) xs"

definition bigint_not_inplace :: "bigint_t \<Rightarrow> bigint_t" where
  "bigint_not_inplace a = (if sign a = 0 then a else a\<lparr>items := not_items (items a)\<rparr>)"

definition bigint_not :: "bigints \<Rightarrow> ptr \<Rightarrow> ptr \<Rightarrow> (int \<times> bigints) option" where
  "bigint_not h result a =
     (if result = NULL \<or> a = NULL then Some (- 1, h)
      else if result = a then do {
        h1 \<leftarrow> big_modify h a bigint_not_inplace;
        Some (0, h1)
      }
      else do {
        _ \<leftarrow> big_get h result;
        x \<leftarrow> big_get h a;
        Some (0, big_put result \<lparr>items = not_items (items x), sign = sign x, neged_with_sign = False\<rparr> h)
      })"

definition bigint_neg_with_sign_inplace :: "bool \<Rightarrow> bigint_t \<Rightarrow> bigint_t" where
  "bigint_neg_with_sign_inplace force a =
     (if sign a = 0 then a
      else if \<not> force \<and> sign a > 0 then a
      else if \<not> force \<and> neged_with_sign a \<and> sign a < 0 then a
      else let b = bigint_inc_with_overflow (bigint_not_inplace a)
           in b\<lparr>neged_with_sign := \<not> neged_with_sign b\<rparr>)"

text \<open>The callers pass the same number twice, as \<open>bigint_neg_with_sign\<close> then works in place.\<close>

definition bigint_sign_extend :: "nat \<Rightarrow> bigint_t \<Rightarrow> bigint_t" where
  "bigint_sign_extend item_count b =
     (if bigint_item_count b \<ge> item_count then b
      else let b1 = (if sign b < 0 \<and> \<not> neged_with_sign b then bigint_neg_with_sign_inplace False b else b)
           in b1\<lparr>items := items b1 @ replicate (item_count - bigint_item_count b) (if sign b1 < 0 then BIGINT_ITEM_MAX else 0)\<rparr>)"

text \<open>The digits of \<open>%llx\<close> and \<open>%012llx\<close>.\<close>

definition hex_digit :: "u64 \<Rightarrow> u8" where
  "hex_digit d = (if d < 10 then 48 + ucast d else 87 + ucast d)"

primrec hex_padded :: "nat \<Rightarrow> u64 \<Rightarrow> u8 list" where
  "hex_padded 0 v = []"
| "hex_padded (Suc n) v = hex_padded n (drop_bit 4 v) @ [hex_digit (v AND 15)]"

definition hex_plain :: "u64 \<Rightarrow> u8 list" where
  "hex_plain v = (if v = 0 then [48] else dropWhile (\<lambda>c. c = 48) (hex_padded 16 v))"

definition bigint_to_str :: "bigints \<Rightarrow> ptr \<Rightarrow> (u8 list ref \<times> bigints) option" where
  "bigint_to_str h bigint =
     (if bigint = NULL then Some (NULL, h)
      else do {
        b \<leftarrow> big_get h bigint;
        if items b = [] \<or> sign b = 0 then Some (Ref [48], h)
        else do {
          let b1 = (if sign b < 0 \<and> neged_with_sign b then bigint_neg_with_sign_inplace True b else b);
          let h1 = big_put bigint b1 h;
          case rev (strip_zeros (items b1)) of
            [] \<Rightarrow> Some (Ref [48], h1)
          | x # xs \<Rightarrow> Some (Ref ((if sign b < 0 then [45] else []) @ hex_plain x @ concat (map (hex_padded 12) xs)), h1)
        }
      })"

subsection \<open>Tests\<close>

definition bigint_is_zero :: "bigints \<Rightarrow> ptr \<Rightarrow> bool option" where
  "bigint_is_zero h a = (if a = NULL then Some True else map_option (\<lambda>x. sign x = 0) (big_get h a))"

definition bigint_is_negative :: "bigints \<Rightarrow> ptr \<Rightarrow> bool option" where
  "bigint_is_negative h a = (if a = NULL then Some False else map_option (\<lambda>x. sign x < 0) (big_get h a))"

definition lsb_value :: "bigint_t \<Rightarrow> u64 option" where
  "lsb_value b = (case items b of [] \<Rightarrow> None | x # _ \<Rightarrow> Some x)"

definition bigint_is_odd :: "bigints \<Rightarrow> ptr \<Rightarrow> bool option" where
  "bigint_is_odd h a =
     (if a = NULL then Some False
      else do {
        x \<leftarrow> big_get h a;
        if sign x = 0 then Some False else map_option (\<lambda>v. v AND 1 \<noteq> 0) (lsb_value x)
      })"

definition bigint_is_even :: "bigints \<Rightarrow> ptr \<Rightarrow> bool option" where
  "bigint_is_even h a =
     (if a = NULL then Some False
      else do {
        x \<leftarrow> big_get h a;
        if sign x = 0 then Some True
        else if items x = [] then Some False
        else map_option (\<lambda>v. v AND 1 = 0) (lsb_value x)
      })"

text \<open>The index of the most significant bit, 0 for 0.\<close>

fun msb_index :: "nat \<Rightarrow> nat" where
  "msb_index n = (if n < 2 then 0 else Suc (msb_index (n div 2)))"

definition bit_most_significant :: "u64 \<Rightarrow> nat" where
  "bit_most_significant num = msb_index (unat num)"

definition bigint_bit_length :: "bigint_t \<Rightarrow> nat" where
  "bigint_bit_length b =
     (if sign b = 0 then 0
      else case rev (strip_zeros (items b)) of
        [] \<Rightarrow> 0
      | x # xs \<Rightarrow> bit_most_significant x + BIGINT_ITEM_BITS * length xs)"

definition bigint_is_int64 :: "bigints \<Rightarrow> ptr \<Rightarrow> u64 \<Rightarrow> bool option" where
  "bigint_is_int64 h a value' =
     (if a = NULL then Some False
      else do {
        x \<leftarrow> big_get h a;
        if sign x = 0 then Some (value' = 0)
        else if sign x < 0 \<and> sint value' > 0 then Some False
        else if sign x > 0 \<and> sint value' < 0 then Some False
        else do {
          let uvalue = (if sint value' < 0 then - value' else value');
          let low = uvalue AND BIGINT_ITEM_MAX;
          let high = drop_bit BIGINT_ITEM_BITS uvalue;
          case items x of
            [] \<Rightarrow> Some False
          | v # vs \<Rightarrow>
              if v \<noteq> low then Some False
              else if high = 0 then Some (vs = [])
              else if length vs \<noteq> 1 then Some False
              else Some (hd vs = high)
        }
      })"

definition bigint_is_uint64 :: "bigints \<Rightarrow> ptr \<Rightarrow> u64 \<Rightarrow> bool option" where
  "bigint_is_uint64 h a value' =
     (if a = NULL then Some False
      else do {
        x \<leftarrow> big_get h a;
        if sign x = 0 then Some (value' = 0)
        else do {
          let low = value' AND BIGINT_ITEM_MAX;
          let high = drop_bit BIGINT_ITEM_BITS value';
          let bit_count = bigint_bit_length x;
          if bit_count > 63 then Some False
          else do {
            v \<leftarrow> lsb_value x;
            if v \<noteq> low then Some False
            else if high = 0 then Some (bit_count \<le> 47)
            else if length (items x) < 2 then None
            else Some (items x ! 1 = high)
          }
        }
      })"

end
