(* ===== verification/BigInt_Arith.thy ===== *)
theory BigInt_Arith
  imports BigInt
begin

text \<open>
  The operations on big integers of \<open>cc/lib/bigint.64.c\<close>: bitwise operations, shifts, bits, sums,
  comparison, products, powers and division.
\<close>

subsection \<open>Negation and bitwise operations\<close>

text \<open>A negative number in two's complement changed back to its magnitude.\<close>

definition big_magnitude :: "bigint_t \<Rightarrow> bigint_t" where
  "big_magnitude x = (if sign x < 0 \<and> neged_with_sign x then bigint_neg_with_sign_inplace True x else x)"

definition bigint_neg :: "bigints \<Rightarrow> ptr \<Rightarrow> ptr \<Rightarrow> (int \<times> bigints) option" where
  "bigint_neg h result a =
     (if result = NULL \<or> a = NULL then Some (- 1, h)
      else do {
        x \<leftarrow> big_get h a;
        h1 \<leftarrow> big_modify h a big_magnitude;
        if result = a then do {
          h2 \<leftarrow> big_modify h1 result (\<lambda>r. r\<lparr>sign := - sign r\<rparr>);
          Some (0, h2)
        }
        else if sign x = 0 then Some (0, h1)
        else on_success (bigint_set_bigint h1 result a) (\<lambda>h2. do {
          h3 \<leftarrow> big_modify h2 result (\<lambda>r. r\<lparr>sign := - sign r\<rparr>);
          Some (0, h3)
        })
      })"

text \<open>Both operands in two's complement and of the same number of items.\<close>

definition big_negate_negative :: "bigint_t \<Rightarrow> bigint_t" where
  "big_negate_negative x = (if sign x < 0 then bigint_neg_with_sign_inplace False x else x)"

definition big_align :: "bigints \<Rightarrow> ptr \<Rightarrow> ptr \<Rightarrow> nat \<Rightarrow> bigints option" where
  "big_align h a b extra = do {
     h1 \<leftarrow> big_modify h a big_negate_negative;
     h2 \<leftarrow> big_modify h1 b big_negate_negative;
     x \<leftarrow> big_get h2 a;
     y \<leftarrow> big_get h2 b;
     let item_count = max (bigint_item_count x) (bigint_item_count y) + extra;
     h3 \<leftarrow> big_modify h2 a (bigint_sign_extend item_count);
     big_modify h3 b (bigint_sign_extend item_count)
   }"

text \<open>The number an operation works on: a new one when the result is its first operand.\<close>

definition big_start :: "bigints \<Rightarrow> ptr \<Rightarrow> ptr \<Rightarrow> ptr \<times> bigints" where
  "big_start h result a = (if result = a then bigint_create h else (result, bigint_destroy_items h result))"

definition big_finish :: "ptr \<Rightarrow> ptr \<Rightarrow> ptr \<Rightarrow> bigints \<Rightarrow> (int \<times> bigints) option" where
  "big_finish result a tmp h = (if result = a then do {
       (_, h1) \<leftarrow> bigint_set_bigint h result tmp;
       Some (0, h1)
     } else Some (0, h))"

text \<open>The loop over the items of both operands and the end of a bitwise operation.\<close>

definition big_zip :: "(u64 \<Rightarrow> u64 \<Rightarrow> u64) \<Rightarrow> bigints \<Rightarrow> ptr \<Rightarrow> ptr \<Rightarrow> ptr \<Rightarrow> int \<Rightarrow> bigints option" where
  "big_zip f h tmp a b sgn' = do {
     x \<leftarrow> big_get h a;
     y \<leftarrow> big_get h b;
     big_modify h tmp (\<lambda>r. bigint_remove_leading_zeros
       \<lparr>items = map2 f (items x) (items y), sign = sgn', neged_with_sign = neged_with_sign r \<or> sgn' < 0\<rparr>)
   }"

definition bigint_and :: "bigints \<Rightarrow> ptr \<Rightarrow> ptr \<Rightarrow> ptr \<Rightarrow> (int \<times> bigints) option" where
  "bigint_and h result a b =
     (if result = NULL \<or> a = NULL \<or> b = NULL then Some (- 1, h)
      else let (tmp, h1) = big_start h result a in map_option (drop_temps h) (do {
        x \<leftarrow> big_get h1 a;
        y \<leftarrow> big_get h1 b;
        if sign x = 0 \<or> sign y = 0 then do {
          h2 \<leftarrow> big_modify h1 tmp (sign_update (\<lambda>_. 0));
          big_finish result a tmp h2
        }
        else do {
          let sgn' = (if sign x < 0 \<and> sign y < 0 then - 1 else 1);
          h2 \<leftarrow> big_align h1 a b 0;
          h3 \<leftarrow> big_zip (AND) h2 tmp a b sgn';
          big_finish result a tmp h3
        }
      }))"

definition bigint_or_inplace :: "bigints \<Rightarrow> ptr \<Rightarrow> ptr \<Rightarrow> (int \<times> bigints) option" where
  "bigint_or_inplace h result a = do {
     r \<leftarrow> big_get h result;
     x \<leftarrow> big_get h a;
     if sign r = 0 then bigint_set_bigint h result a
     else if sign x = 0 then bigint_set_bigint h result a
     else do {
       h1 \<leftarrow> big_modify h result big_negate_negative;
       h2 \<leftarrow> big_modify h1 result (sign_update (\<lambda>s. if s > 0 \<and> sign x > 0 then 1 else - 1));
       h3 \<leftarrow> big_modify h2 a big_negate_negative;
       r3 \<leftarrow> big_get h3 result;
       x3 \<leftarrow> big_get h3 a;
       let item_count = max (bigint_item_count r3) (bigint_item_count x3);
       h4 \<leftarrow> big_modify h3 result (bigint_sign_extend item_count);
       h5 \<leftarrow> big_modify h4 a (bigint_sign_extend item_count);
       x5 \<leftarrow> big_get h5 a;
       h6 \<leftarrow> big_modify h5 result (\<lambda>r. bigint_remove_leading_zeros
         (r\<lparr>items := map2 (OR) (items r) (items x5), neged_with_sign := neged_with_sign r \<or> sign r < 0\<rparr>));
       Some (0, h6)
     }
   }"

definition bigint_or :: "bigints \<Rightarrow> ptr \<Rightarrow> ptr \<Rightarrow> ptr \<Rightarrow> (int \<times> bigints) option" where
  "bigint_or h result a b =
     (if result = NULL \<or> a = NULL \<or> b = NULL then Some (- 1, h)
      else if result = a then bigint_or_inplace h result b
      else do {
        let h1 = bigint_destroy_items h result;
        x \<leftarrow> big_get h1 a;
        y \<leftarrow> big_get h1 b;
        if sign x = 0 then bigint_set_bigint h1 result b
        else if sign y = 0 then bigint_set_bigint h1 result a
        else do {
          let sgn' = (if sign x > 0 \<and> sign y > 0 then 1 else - 1);
          h2 \<leftarrow> big_align h1 a b 0;
          h3 \<leftarrow> big_zip (OR) h2 result a b sgn';
          Some (0, h3)
        }
      })"

definition bigint_xor :: "bigints \<Rightarrow> ptr \<Rightarrow> ptr \<Rightarrow> ptr \<Rightarrow> (int \<times> bigints) option" where
  "bigint_xor h result a b =
     (if result = NULL \<or> a = NULL \<or> b = NULL then Some (- 1, h)
      else let (tmp, h1) = big_start h result a in map_option (drop_temps h) (do {
        x \<leftarrow> big_get h1 a;
        y \<leftarrow> big_get h1 b;
        if sign x = 0 then bigint_set_bigint h1 result b
        else if sign y = 0 then (if result = a then Some (0, h1) else bigint_set_bigint h1 result a)
        else do {
          let sgn' = (if sign x < 0 \<and> sign y < 0 then 1 else if sign x > 0 \<and> sign y > 0 then 1 else - 1);
          h2 \<leftarrow> big_align h1 a b 0;
          h3 \<leftarrow> big_zip (XOR) h2 tmp a b sgn';
          big_finish result a tmp h3
        }
      }))"

subsection \<open>Shifts\<close>

fun shl_one_items :: "u64 \<Rightarrow> u64 list \<Rightarrow> u64 list \<times> u64" where
  "shl_one_items carry [] = ([], carry)"
| "shl_one_items carry (x # xs) =
     (let (ys, c) = shl_one_items (drop_bit (BIGINT_ITEM_BITS - 1) x) xs
      in (((push_bit 1 x OR carry) AND BIGINT_ITEM_MAX) # ys, c))"

definition shl_one_number :: "bigint_t \<Rightarrow> bigint_t" where
  "shl_one_number a =
     (if sign a = 0 then a
      else let (ys, carry) = shl_one_items 0 (items a)
           in if carry = 0 then a\<lparr>items := ys\<rparr>
              else a\<lparr>items := ys @ [if sign a < 0 \<and> neged_with_sign a then BIGINT_ITEM_MAX else carry]\<rparr>)"

definition bigint_shl_one :: "bigints \<Rightarrow> ptr \<Rightarrow> (int \<times> bigints) option" where
  "bigint_shl_one h a = (if a = NULL then Some (- 1, h) else map_option (Pair 0) (big_modify h a shl_one_number))"

text \<open>From the most significant item down.\<close>

fun shr_items :: "nat \<Rightarrow> u64 \<Rightarrow> u64 list \<Rightarrow> u64 list" where
  "shr_items bit_shift carry [] = []"
| "shr_items bit_shift carry (x # xs) =
     (carry OR drop_bit bit_shift x) #
     shr_items bit_shift (push_bit (BIGINT_ITEM_BITS - bit_shift) x AND BIGINT_ITEM_MAX) xs"

fun shr_one_items :: "u64 \<Rightarrow> u64 list \<Rightarrow> u64 list" where
  "shr_one_items carry [] = []"
| "shr_one_items carry (x # xs) = (carry OR drop_bit 1 x) # shr_one_items (push_bit (BIGINT_ITEM_BITS - 1) (x AND 1)) xs"

definition shr_one_number :: "bigint_t \<Rightarrow> bigint_t" where
  "shr_one_number a =
     (if sign a = 0 then a
      else bigint_remove_leading_zeros
        (a\<lparr>items := rev (shr_one_items (if sign a < 0 \<and> neged_with_sign a then BIGINT_ITEM_MSB else 0) (rev (items a)))\<rparr>))"

definition bigint_shr_one :: "bigints \<Rightarrow> ptr \<Rightarrow> (int \<times> bigints) option" where
  "bigint_shr_one h a = (if a = NULL then Some (- 1, h) else map_option (Pair 0) (big_modify h a shr_one_number))"

text \<open>The loop of a left shift writes the items of the result; the items behind are what is left of them.\<close>

fun shl_items :: "nat \<Rightarrow> u64 \<Rightarrow> u64 list \<Rightarrow> u64 list \<Rightarrow> (u64 list \<times> u64 list \<times> u64) option" where
  "shl_items bit_shift carry [] rs = Some ([], rs, carry)"
| "shl_items bit_shift carry (x # xs) [] = None"
| "shl_items bit_shift carry (x # xs) (r # rs) = do {
     (ys, rest, c) \<leftarrow> shl_items bit_shift (drop_bit (BIGINT_ITEM_BITS - bit_shift) x) xs rs;
     Some (((push_bit bit_shift x OR carry) AND BIGINT_ITEM_MAX) # ys, rest, c)
   }"

definition shl_number :: "nat \<Rightarrow> bigint_t \<Rightarrow> bigint_t \<Rightarrow> bigint_t option" where
  "shl_number shift a r = do {
     let item_shift = shift div BIGINT_ITEM_BITS;
     let bit_shift = shift mod BIGINT_ITEM_BITS;
     (ys, rest, carry) \<leftarrow> shl_items bit_shift 0 (items a) (items r);
     let top = (if sign r < 0 \<and> neged_with_sign r
       then carry OR (BIGINT_ITEM_MAX - drop_bit (BIGINT_ITEM_BITS - bit_most_significant carry) BIGINT_ITEM_MAX) else carry);
     let ys1 = (if carry = 0 then ys @ map (\<lambda>_. 0) rest else ys @ top # map (\<lambda>_. 0) (tl rest));
     Some (r\<lparr>items := replicate item_shift 0 @ ys1\<rparr>)
   }"

text \<open>The number of items the result needs at least.\<close>

definition shl_item_count :: "nat \<Rightarrow> bigint_t \<Rightarrow> nat" where
  "shl_item_count shift a =
     (let bits = bigint_bit_length a + shift mod BIGINT_ITEM_BITS + 1
      in bits div BIGINT_ITEM_BITS + (if bits mod BIGINT_ITEM_BITS \<noteq> 0 then 1 else 0))"

definition shl_left :: "bigints \<Rightarrow> ptr \<Rightarrow> ptr \<Rightarrow> nat \<Rightarrow> (int \<times> bigints) option" where
  "shl_left h result a shift = do {
     x \<leftarrow> big_get h a;
     if sign x = 0 then Some (0, h)
     else do {
       h1 \<leftarrow> big_modify h result (\<lambda>r. r\<lparr>sign := sign x, neged_with_sign := neged_with_sign x\<rparr>);
       h2 \<leftarrow> big_modify h1 result (bigint_sign_extend (shl_item_count shift x));
       x2 \<leftarrow> big_get h2 a;
       r2 \<leftarrow> big_get h2 result;
       r3 \<leftarrow> shl_number shift x2 r2;
       Some (0, big_put result r3 h2)
     }
   }"

definition shr_right :: "bigints \<Rightarrow> ptr \<Rightarrow> ptr \<Rightarrow> ptr \<Rightarrow> nat \<Rightarrow> (int \<times> bigints) option" where
  "shr_right h result a tmp shift = do {
     x \<leftarrow> big_get h a;
     let item_shift = shift div BIGINT_ITEM_BITS;
     let bit_shift = shift mod BIGINT_ITEM_BITS;
     let carry = (if sign x < 0 \<and> neged_with_sign x then BIGINT_ITEM_MAX - drop_bit bit_shift BIGINT_ITEM_MAX else 0);
     let ys = drop item_shift (rev (shr_items bit_shift carry (rev (items x))));
     h1 \<leftarrow> big_modify h tmp (\<lambda>_. bigint_remove_leading_zeros \<lparr>items = ys, sign = sign x, neged_with_sign = neged_with_sign x\<rparr>);
     big_finish result a tmp h1
   }"

text \<open>Shifting by a negative amount shifts the other way; the number a right shift works on is then
  the new one.\<close>

definition bigint_shl :: "bigints \<Rightarrow> ptr \<Rightarrow> ptr \<Rightarrow> int \<Rightarrow> (int \<times> bigints) option" where
  "bigint_shl h result a shift =
     (if result = NULL \<or> a = NULL then Some (- 1, h)
      else do {
        x \<leftarrow> big_get h a;
        if sign x = 0 then Some (0, h)
        else if shift < 0 then
          let (tmp, h1) = big_start h result a in map_option (drop_temps h) (do {
            y \<leftarrow> big_get h1 a;
            if sign y = 0 then Some (0, h1) else shr_right h1 result a tmp (nat (- shift))
          })
        else shl_left h result a (nat shift)
      })"

definition bigint_shr :: "bigints \<Rightarrow> ptr \<Rightarrow> ptr \<Rightarrow> int \<Rightarrow> (int \<times> bigints) option" where
  "bigint_shr h result a shift =
     (if result = NULL \<or> a = NULL then Some (- 1, h)
      else let (tmp, h1) = big_start h result a in map_option (drop_temps h) (do {
        x \<leftarrow> big_get h1 a;
        if sign x = 0 then Some (0, h1)
        else if shift < 0 then shl_left h1 tmp a (nat (- shift))
        else shr_right h1 result a tmp (nat shift)
      }))"

subsection \<open>Bits\<close>

text \<open>Bits are written to an item that is there; items are appended until it is.\<close>

definition write_bit :: "(u64 \<Rightarrow> u64) \<Rightarrow> nat \<Rightarrow> bigint_t \<Rightarrow> bigint_t option" where
  "write_bit f i b =
     (if items b = [] then None
      else let xs = items b @ replicate (i + 1 - bigint_item_count b) 0
           in Some (b\<lparr>items := xs[i := f (xs ! i)]\<rparr>))"

definition bigint_set_bit :: "bigints \<Rightarrow> ptr \<Rightarrow> nat \<Rightarrow> bool \<Rightarrow> (int \<times> bigints) option" where
  "bigint_set_bit h bigint bit' v =
     (if bigint = NULL then Some (- 1, h)
      else do {
        b \<leftarrow> big_get h bigint;
        if sign b = 0 \<and> \<not> v then Some (0, h)
        else do {
          let b1 = (if sign b = 0 then b\<lparr>sign := 1, items := [0]\<rparr> else b);
          let mask = push_bit (bit' mod BIGINT_ITEM_BITS) 1;
          b2 \<leftarrow> write_bit (\<lambda>x. if v then x OR mask else x AND NOT mask) (bit' div BIGINT_ITEM_BITS) b1;
          Some (0, big_put bigint b2 h)
        }
      })"

definition bigint_get_bit :: "bigints \<Rightarrow> ptr \<Rightarrow> nat \<Rightarrow> (int \<times> bool) option" where
  "bigint_get_bit h bigint bit' =
     (if bigint = NULL then Some (- 1, False)
      else do {
        b \<leftarrow> big_get h bigint;
        let i = bit' div BIGINT_ITEM_BITS;
        if sign b = 0 then Some (0, False)
        else if i < bigint_item_count b
          then Some (0, drop_bit (bit' mod BIGINT_ITEM_BITS) (items b ! i) AND 1 \<noteq> 0)
        else Some (0, False)
      })"

definition bigint_flip_bit :: "bigints \<Rightarrow> ptr \<Rightarrow> nat \<Rightarrow> (int \<times> bigints) option" where
  "bigint_flip_bit h bigint bit' =
     (if bigint = NULL then Some (- 1, h)
      else do {
        b \<leftarrow> big_get h bigint;
        let b1 = (if sign b = 0 then b\<lparr>sign := 1, items := [0]\<rparr> else b);
        b2 \<leftarrow> write_bit (\<lambda>x. x XOR push_bit (bit' mod BIGINT_ITEM_BITS) 1) (bit' div BIGINT_ITEM_BITS) b1;
        Some (0, big_put bigint b2 h)
      })"

definition bigint_clear_bit :: "bigints \<Rightarrow> ptr \<Rightarrow> nat \<Rightarrow> (int \<times> bigints) option" where
  "bigint_clear_bit h bigint bit' =
     (if bigint = NULL then Some (- 1, h)
      else do {
        b \<leftarrow> big_get h bigint;
        let i = bit' div BIGINT_ITEM_BITS;
        if sign b = 0 \<or> \<not> i < bigint_item_count b then Some (0, h)
        else Some (0, big_put bigint
          (b\<lparr>items := (items b)[i := items b ! i AND NOT (push_bit (bit' mod BIGINT_ITEM_BITS) 1)]\<rparr>) h)
      })"

subsection \<open>Sums\<close>

text \<open>The loops end with the shorter operand; items of the result behind it become 0.\<close>

fun sub_items :: "bool \<Rightarrow> u64 list \<Rightarrow> u64 list \<Rightarrow> u64 list \<Rightarrow> (u64 list \<times> bool) option" where
  "sub_items borrow (x # xs) (y # ys) [] = None"
| "sub_items borrow (x # xs) (y # ys) (r # rs) =
     (let next_borrow = borrow \<and> x = 0;
          a_value = (if borrow then if x = 0 then BIGINT_ITEM_MAX else x - 1 else x);
          borrow1 = (if a_value < y then True else if \<not> next_borrow then False else borrow);
          a_value1 = (if a_value < y then a_value + (BIGINT_ITEM_MAX + 1) else a_value)
      in do {
        (zs, b) \<leftarrow> sub_items borrow1 xs ys rs;
        Some (((a_value1 - y) AND BIGINT_ITEM_MAX) # zs, b)
      })"
| "sub_items borrow xs ys rs = Some (map (\<lambda>_. 0) rs, borrow)"

definition bigint_sub :: "bigints \<Rightarrow> ptr \<Rightarrow> ptr \<Rightarrow> ptr \<Rightarrow> (int \<times> bigints) option" where
  "bigint_sub h result a b =
     (if result = NULL \<or> a = NULL \<or> b = NULL then Some (- 1, h)
      else do {
        x \<leftarrow> big_get h a;
        y \<leftarrow> big_get h b;
        if sign x = 0 then bigint_neg h result b
        else if sign y = 0 then (if a = result then Some (0, h) else bigint_set_bigint h result a)
        else do {
          let item_count = max (bigint_item_count x) (bigint_item_count y);
          h1 \<leftarrow> big_align h a b 0;
          h2 \<leftarrow> (if a \<noteq> result then big_modify h1 result (bigint_sign_extend item_count) else Some h1);
          x2 \<leftarrow> big_get h2 a;
          y2 \<leftarrow> big_get h2 b;
          r2 \<leftarrow> big_get h2 result;
          (zs, borrow) \<leftarrow> sub_items False (items x2) (items y2) (items r2);
          let r3 = (if borrow then \<lparr>items = zs, sign = - 1, neged_with_sign = True\<rparr> else r2\<lparr>items := zs, sign := 1\<rparr>);
          Some (0, big_put result (bigint_remove_leading_zeros r3) h2)
        }
      })"

fun add_items :: "u64 \<Rightarrow> u64 list \<Rightarrow> u64 list \<Rightarrow> u64 list \<Rightarrow> (u64 list \<times> u64 list \<times> u64) option" where
  "add_items carry (x # xs) (y # ys) [] = None"
| "add_items carry (x # xs) (y # ys) (r # rs) =
     (let v = x + y + carry in do {
        (zs, rest, c) \<leftarrow> add_items (drop_bit BIGINT_ITEM_BITS v) xs ys rs;
        Some ((v AND BIGINT_ITEM_MAX) # zs, rest, c)
      })"
| "add_items carry xs ys rs = Some ([], rs, carry)"

text \<open>The result after the loop: \<open>sgn'\<close> is -2 when the signs differ and the carry tells the sign. The
  item for a carry out of positive numbers comes behind the last item written.\<close>

definition add_result :: "int \<Rightarrow> u64 list \<Rightarrow> u64 list \<Rightarrow> u64 \<Rightarrow> bigint_t \<Rightarrow> bigint_t" where
  "add_result sgn' zs rest carry r =
     (let r1 = r\<lparr>items := zs @ map (\<lambda>_. 0) rest\<rparr>
      in if carry \<noteq> 0 then
           (if sgn' = - 2 then r1\<lparr>sign := 1, neged_with_sign := False\<rparr>
            else if sgn' = 1 then r1\<lparr>items := zs @ [carry], sign := 1\<rparr>
            else r1\<lparr>sign := - 1, neged_with_sign := True\<rparr>)
         else if sgn' \<noteq> - 2 then r1\<lparr>sign := sgn'\<rparr>
         else r1\<lparr>sign := - 1, neged_with_sign := True\<rparr>)"

definition bigint_add :: "bigints \<Rightarrow> ptr \<Rightarrow> ptr \<Rightarrow> ptr \<Rightarrow> (int \<times> bigints) option" where
  "bigint_add h result a b =
     (if result = NULL \<or> a = NULL \<or> b = NULL then Some (- 1, h)
      else do {
        x \<leftarrow> big_get h a;
        y \<leftarrow> big_get h b;
        if sign x = 0 then bigint_set_bigint h result b
        else if sign y = 0 then (if result = a then Some (0, h) else bigint_set_bigint h result a)
        else do {
          h1 \<leftarrow> big_modify h a big_negate_negative;
          h2 \<leftarrow> big_modify h1 b big_negate_negative;
          x2 \<leftarrow> big_get h2 a;
          y2 \<leftarrow> big_get h2 b;
          let sgn' = (if sign x2 < 0 \<and> sign y2 < 0 then - 1 else if sign x2 < 0 \<or> sign y2 < 0 then - 2 else 1);
          let item_count = max (bigint_item_count x2) (bigint_item_count y2) + 1;
          h3 \<leftarrow> (if result \<noteq> a then big_modify h2 result (\<lambda>r. (bigint_sign_extend item_count r)\<lparr>sign := 1\<rparr>) else Some h2);
          h4 \<leftarrow> big_modify h3 a (bigint_sign_extend item_count);
          h5 \<leftarrow> big_modify h4 b (bigint_sign_extend item_count);
          x5 \<leftarrow> big_get h5 a;
          y5 \<leftarrow> big_get h5 b;
          r5 \<leftarrow> big_get h5 result;
          (zs, rest, carry) \<leftarrow> add_items 0 (items x5) (items y5) (items r5);
          Some (0, big_put result (bigint_remove_leading_zeros (add_result sgn' zs rest carry r5)) h5)
        }
      })"

subsection \<open>Comparison\<close>

text \<open>From the most significant item down.\<close>

fun cmp_items :: "int \<Rightarrow> u64 list \<Rightarrow> u64 list \<Rightarrow> int" where
  "cmp_items sgn' (x # xs) (y # ys) =
     (if x < y then - sgn' else if x > y then sgn' else cmp_items sgn' xs ys)"
| "cmp_items sgn' xs ys = 0"

definition bigint_cmp :: "bigints \<Rightarrow> ptr \<Rightarrow> ptr \<Rightarrow> (int \<times> bigints) option" where
  "bigint_cmp h a b =
     (if a = NULL \<or> b = NULL then Some (- 1, h)
      else do {
        x \<leftarrow> big_get h a;
        y \<leftarrow> big_get h b;
        if sign x < sign y then Some (- 1, h)
        else if sign x > sign y then Some (1, h)
        else if sign x = 0 then Some (0, h)
        else do {
          h1 \<leftarrow> big_modify h a big_magnitude;
          h2 \<leftarrow> big_modify h1 b big_magnitude;
          x2 \<leftarrow> big_get h2 a;
          y2 \<leftarrow> big_get h2 b;
          let a_length = bigint_bit_length x2;
          let b_length = bigint_bit_length y2;
          if a_length < b_length then Some (- sign x2, h2)
          else if a_length > b_length then Some (sign x2, h2)
          else Some (cmp_items (sign x2) (rev (strip_zeros (items x2))) (rev (strip_zeros (items y2))), h2)
        }
      })"

subsection \<open>Products and powers\<close>

type_synonym u128 = "128 word"

fun mul_row :: "u64 \<Rightarrow> u128 \<Rightarrow> u64 list \<Rightarrow> u64 list \<Rightarrow> u64 list option" where
  "mul_row v carry [] [] = None"
| "mul_row v carry [] (r # rs) = Some (ucast carry # map (\<lambda>_. 0) rs)"
| "mul_row v carry (y # ys) [] = None"
| "mul_row v carry (y # ys) (r # rs) =
     (let w = ucast v * ucast y + carry in do {
        zs \<leftarrow> mul_row v (drop_bit BIGINT_ITEM_BITS w) ys rs;
        Some (ucast (w AND ucast BIGINT_ITEM_MAX) # zs)
      })"

primrec mul_loop :: "ptr \<Rightarrow> ptr \<Rightarrow> ptr \<Rightarrow> u64 list \<Rightarrow> bigints \<Rightarrow> (int \<times> bigints) option" where
  "mul_loop b result row_result [] h = Some (0, h)"
| "mul_loop b result row_result (v # vs) h = do {
     y \<leftarrow> big_get h b;
     row \<leftarrow> big_get h row_result;
     zs \<leftarrow> mul_row v 0 (items y) (items row);
     on_success (bigint_shl (big_put row_result (row\<lparr>items := zs\<rparr>) h) result result (int BIGINT_ITEM_BITS)) (\<lambda>h1.
       on_success (bigint_add h1 result result row_result) (mul_loop b result row_result vs))
   }"

definition bigint_mul :: "bigints \<Rightarrow> ptr \<Rightarrow> ptr \<Rightarrow> ptr \<Rightarrow> (int \<times> bigints) option" where
  "bigint_mul h result a b =
     (if result = NULL \<or> a = NULL \<or> b = NULL then Some (- 1, h)
      else let (tmp, h1) = big_start h result a in map_option (drop_temps h) (do {
        x \<leftarrow> big_get h1 a;
        y \<leftarrow> big_get h1 b;
        if sign x = 0 \<or> sign y = 0 then do {
          h2 \<leftarrow> big_modify h1 tmp (sign_update (\<lambda>_. 0));
          big_finish result a tmp h2
        }
        else do {
          h2 \<leftarrow> big_modify h1 a big_magnitude;
          h3 \<leftarrow> big_modify h2 b big_magnitude;
          x3 \<leftarrow> big_get h3 a;
          y3 \<leftarrow> big_get h3 b;
          let (row_result, h4) = bigint_create h3;
          h5 \<leftarrow> big_modify h4 row_result (\<lambda>r. (bigint_sign_extend (bigint_item_count y3 + 1) r)\<lparr>sign := 1\<rparr>);
          on_success (mul_loop b tmp row_result (rev (items x3)) h5) (\<lambda>h6. do {
            h7 \<leftarrow> big_modify h6 tmp (\<lambda>r. r\<lparr>sign := sign x3 * sign y3, neged_with_sign := False\<rparr>);
            big_finish result a tmp h7
          })
        }
      }))"

partial_function (option) pow_loop :: "ptr \<Rightarrow> ptr \<Rightarrow> ptr \<Rightarrow> bigints \<Rightarrow> (int \<times> bigints) option" where
  "pow_loop result base exp' h = do {
     e \<leftarrow> big_get h exp';
     if sign e > 0 then do {
       odd' \<leftarrow> bigint_is_odd h exp';
       on_success (if odd' then bigint_mul h result result base else Some (0, h)) (\<lambda>h1.
         on_success (bigint_mul h1 base base base) (\<lambda>h2.
           on_success (bigint_shr_one h2 exp') (\<lambda>h3. pow_loop result base exp' h3)))
     }
     else Some (0, h)
   }"

declare pow_loop.simps [code]

definition bigint_pow :: "bigints \<Rightarrow> ptr \<Rightarrow> ptr \<Rightarrow> ptr \<Rightarrow> (int \<times> bigints) option" where
  "bigint_pow h result a b =
     (if result = NULL \<or> a = NULL \<or> b = NULL then Some (- 1, h)
      else let (tmp, h1) = big_start h result a in map_option (drop_temps h) (do {
        x \<leftarrow> big_get h1 a;
        y \<leftarrow> big_get h1 b;
        if sign x = 0 \<and> sign y = 0 then Some (- 1, h1)
        else if sign x = 0 then do {
          h2 \<leftarrow> big_modify h1 tmp (sign_update (\<lambda>_. 0));
          big_finish result a tmp h2
        }
        else if sign y = 0 then do {
          (_, h2) \<leftarrow> bigint_set_int64 h1 tmp 1;
          big_finish result a tmp h2
        }
        else if sign y < 0 then Some (- 1, h1)
        else do {
          (base, h2) \<leftarrow> bigint_clone h1 a;
          (exp', h3) \<leftarrow> bigint_clone h2 b;
          on_success (bigint_set_uint64 h3 tmp 1) (\<lambda>h4.
            on_success (pow_loop tmp base exp' h4) (big_finish result a tmp))
        }
      }))"

subsection \<open>Division\<close>

text \<open>One bit of the dividend after the other, the most significant one first.\<close>

primrec div_loop :: "ptr \<Rightarrow> ptr \<Rightarrow> ptr \<Rightarrow> ptr \<Rightarrow> nat \<Rightarrow> bigints \<Rightarrow> (int \<times> bigints) option" where
  "div_loop quo tmp_remainder a b 0 h = Some (0, h)"
| "div_loop quo tmp_remainder a b (Suc i) h =
     on_success (bigint_shl_one h tmp_remainder) (\<lambda>h1. do {
       (_, bit') \<leftarrow> bigint_get_bit h1 a i;
       on_success (if bit' then bigint_set_bit h1 tmp_remainder 0 True else Some (0, h1)) (\<lambda>h2. do {
         (c, h3) \<leftarrow> bigint_cmp h2 tmp_remainder b;
         on_success
           (if c \<noteq> - 1 then
              on_success (bigint_sub h3 tmp_remainder tmp_remainder b) (\<lambda>h4. bigint_set_bit h4 quo i True)
            else Some (0, h3))
           (div_loop quo tmp_remainder a b i)
       })
     })"

definition bigint_div_unsigned :: "bigints \<Rightarrow> ptr \<Rightarrow> ptr \<Rightarrow> ptr \<Rightarrow> ptr \<Rightarrow> (int \<times> bigints) option" where
  "bigint_div_unsigned h result remainder a b =
     (if result = NULL \<or> a = NULL \<or> b = NULL then Some (- 1, h)
      else let (tmp, h1) = big_start h result a in map_option (drop_temps h) (do {
        x \<leftarrow> big_get h1 a;
        y \<leftarrow> big_get h1 b;
        if sign y = 0 then Some (- 1, h1)
        else if sign x = 0 then Some (0, if result = a then bigint_destroy_items h1 result else h1)
        else do {
          let (tmp_remainder, h2) = bigint_create h1;
          on_success (div_loop tmp tmp_remainder a b (max (bigint_bit_length x) (bigint_bit_length y) + 1) h2) (\<lambda>h3. do {
            h4 \<leftarrow> (if remainder = NULL then Some h3
              else do {
                h4 \<leftarrow> big_modify h3 tmp_remainder bigint_remove_leading_zeros;
                map_option snd (bigint_set_bigint h4 remainder tmp_remainder)
              });
            h5 \<leftarrow> big_modify h4 tmp bigint_remove_leading_zeros;
            big_finish result a tmp h5
          })
        }
      }))"

text \<open>A new number with the absolute value of a number that is not 0, and the dividend and divisor of
  a division whose operands are not both positive.\<close>

definition big_absolute :: "bigints \<Rightarrow> ptr \<Rightarrow> (ptr \<times> int \<times> bigints) option" where
  "big_absolute h a = (let (p, h1) = bigint_create h in do {
     x \<leftarrow> big_get h1 a;
     (r, h2) \<leftarrow> (if sign x \<noteq> - 1
       then on_success (bigint_set_bigint h1 p a) (\<lambda>h2. map_option (Pair 0) (big_modify h2 p (sign_update (\<lambda>_. 1))))
       else do {
         h2 \<leftarrow> big_modify h1 a big_magnitude;
         bigint_neg h2 p a
       });
     Some (p, r, h2)
   })"

definition bigint_div_with_remainder :: "bigints \<Rightarrow> ptr \<Rightarrow> ptr \<Rightarrow> ptr \<Rightarrow> ptr \<Rightarrow> (int \<times> bigints) option" where
  "bigint_div_with_remainder h result remainder a b =
     (if result = NULL \<or> a = NULL \<or> b = NULL then Some (- 1, h)
      else map_option (drop_temps h) (do {
        let h1 = (if result = a then h else bigint_destroy_items h result);
        x \<leftarrow> big_get h1 a;
        y \<leftarrow> big_get h1 b;
        if sign y = 0 then Some (- 1, h1)
        else if sign x = 0 then Some (0, if result = a then big_put result bigint_zero h1 else h1)
        else if sign y = 1 \<and> sign x = 1 then bigint_div_unsigned h1 result remainder a b
        else do {
          (neg_a, r1, h2) \<leftarrow> big_absolute h1 a;
          if r1 = - 1 then Some (- 1, h2)
          else do {
            (neg_b, r2, h3) \<leftarrow> big_absolute h2 b;
            if r2 = - 1 then Some (- 1, h3)
            else do {
              (ret, h4) \<leftarrow> bigint_div_unsigned h3 result remainder neg_a neg_b;
              if sign y = - 1 \<and> sign x = - 1 then do {
                h5 \<leftarrow> big_modify h4 result (\<lambda>r. r\<lparr>sign := 1, neged_with_sign := False\<rparr>);
                Some (ret, h5)
              }
              else if ret = - 1 then Some (- 1, h4)
              else do {
                (one, h5) \<leftarrow> bigint_one h4;
                on_success (bigint_add h5 result result one) (\<lambda>h6. do {
                  h7 \<leftarrow> big_modify h6 result (sign_update (\<lambda>_. - 1));
                  Some (ret, h7)
                })
              }
            }
          }
        }
      }))"

definition bigint_div :: "bigints \<Rightarrow> ptr \<Rightarrow> ptr \<Rightarrow> ptr \<Rightarrow> (int \<times> bigints) option" where
  "bigint_div h result a b = bigint_div_with_remainder h result NULL a b"

definition bigint_mod :: "bigints \<Rightarrow> ptr \<Rightarrow> ptr \<Rightarrow> ptr \<Rightarrow> (int \<times> bigints) option" where
  "bigint_mod h result a b =
     (if result = NULL \<or> a = NULL \<or> b = NULL then Some (- 1, h)
      else map_option (drop_temps h) (do {
        let (tmp_result, h1) = bigint_create h;
        let (tmp_remainder, h2) = bigint_create h1;
        on_success (bigint_div_with_remainder h2 tmp_result tmp_remainder a b) (\<lambda>h3. do {
          x \<leftarrow> big_get h3 a;
          y \<leftarrow> big_get h3 b;
          on_success
            (if sign x > 0 \<and> sign y > 0 then Some (0, h3)
             else if sign x < 0 \<and> sign y < 0 then
               map_option (Pair 0) (big_modify h3 tmp_remainder (\<lambda>r. (big_magnitude r)\<lparr>sign := - 1, neged_with_sign := False\<rparr>))
             else if sign x < 0 then
               on_success (bigint_sub h3 tmp_remainder tmp_remainder b) (\<lambda>h4.
                 map_option (Pair 0) (big_modify h4 tmp_remainder (\<lambda>r. (bigint_neg_with_sign_inplace True r)\<lparr>sign := 1\<rparr>)))
             else
               on_success (bigint_add h3 tmp_remainder tmp_remainder b) (\<lambda>h4.
                 map_option (Pair 0) (big_modify h4 tmp_remainder (sign_update (\<lambda>_. - 1)))))
            (\<lambda>h5. do {
               h6 \<leftarrow> big_modify h5 tmp_remainder bigint_remove_leading_zeros;
               bigint_set_bigint h6 result tmp_remainder
             })
        })
      }))"

definition bigint_mul_mod :: "bigints \<Rightarrow> ptr \<Rightarrow> ptr \<Rightarrow> ptr \<Rightarrow> ptr \<Rightarrow> (int \<times> bigints) option" where
  "bigint_mul_mod h result a b c =
     (if result = NULL \<or> a = NULL \<or> b = NULL \<or> c = NULL then Some (- 1, h)
      else do {
        z \<leftarrow> big_get h c;
        x \<leftarrow> big_get h a;
        y \<leftarrow> big_get h b;
        if sign z = 0 then Some (- 1, h)
        else if sign x = 0 \<or> sign y = 0 then
          (if a = result then Some (0, h) else Some (0, bigint_destroy_items h result))
        else on_success (bigint_mul h result a b) (\<lambda>h1. bigint_mod h1 result result c)
      })"

partial_function (option) pow_mod_loop :: "ptr \<Rightarrow> ptr \<Rightarrow> ptr \<Rightarrow> ptr \<Rightarrow> bigints \<Rightarrow> (int \<times> bigints) option" where
  "pow_mod_loop result base exp' c h = do {
     e \<leftarrow> big_get h exp';
     if sign e > 0 then do {
       odd' \<leftarrow> bigint_is_odd h exp';
       on_success (if odd' then bigint_mul_mod h result result base c else Some (0, h)) (\<lambda>h1.
         on_success (bigint_mul_mod h1 base base base c) (\<lambda>h2.
           on_success (bigint_shr_one h2 exp') (\<lambda>h3. pow_mod_loop result base exp' c h3)))
     }
     else Some (0, h)
   }"

definition bigint_pow_mod :: "bigints \<Rightarrow> ptr \<Rightarrow> ptr \<Rightarrow> ptr \<Rightarrow> ptr \<Rightarrow> (int \<times> bigints) option" where
  "bigint_pow_mod h result a b c =
     (if result = NULL \<or> a = NULL \<or> b = NULL \<or> c = NULL then Some (- 1, h)
      else let (tmp, h1) = big_start h result a in map_option (drop_temps h) (do {
        x \<leftarrow> big_get h1 a;
        y \<leftarrow> big_get h1 b;
        if sign x = 0 \<and> sign y = 0 then Some (- 1, h1)
        else if sign x = 0 then do {
          h2 \<leftarrow> big_modify h1 tmp (sign_update (\<lambda>_. 0));
          big_finish result a tmp h2
        }
        else if sign y = 0 then do {
          (_, h2) \<leftarrow> bigint_set_int64 h1 tmp 1;
          big_finish result a tmp h2
        }
        else if sign y < 0 then Some (- 1, h1)
        else do {
          (base, h2) \<leftarrow> bigint_clone h1 a;
          on_success (bigint_mod h2 base base c) (\<lambda>h3. do {
            (exp', h4) \<leftarrow> bigint_clone h3 b;
            on_success (bigint_set_uint64 h4 tmp 1) (\<lambda>h5.
              on_success (pow_mod_loop tmp base exp' c h5) (\<lambda>h6. do {
                h7 \<leftarrow> big_modify h6 tmp bigint_remove_leading_zeros;
                big_finish result a tmp h7
              }))
          })
        }
      }))"

partial_function (option) gcd_loop :: "ptr \<Rightarrow> ptr \<Rightarrow> ptr \<Rightarrow> bigints \<Rightarrow> (int \<times> bigints) option" where
  "gcd_loop tmp_a tmp_b tmp h = do {
     x \<leftarrow> big_get h tmp_a;
     if sign x \<noteq> 0 then
       on_success (bigint_mod h tmp tmp_b tmp_a) (\<lambda>h1.
         on_success (bigint_set_bigint h1 tmp_b tmp_a) (\<lambda>h2.
           on_success (bigint_set_bigint h2 tmp_a tmp) (\<lambda>h3. gcd_loop tmp_a tmp_b tmp h3)))
     else Some (0, h)
   }"

declare pow_mod_loop.simps [code] gcd_loop.simps [code]

definition bigint_gcd :: "bigints \<Rightarrow> ptr \<Rightarrow> ptr \<Rightarrow> ptr \<Rightarrow> (int \<times> bigints) option" where
  "bigint_gcd h result a b =
     (if result = NULL \<or> a = NULL \<or> b = NULL then Some (- 1, h)
      else let (res, h1) = big_start h result a in map_option (drop_temps h) (do {
        (c, h2) \<leftarrow> bigint_cmp h1 a b;
        if c = 0 then (if result = a then map_option (\<lambda>r. (0, snd r)) (bigint_set_bigint h2 result a) else Some (0, h2))
        else do {
          (p, h3) \<leftarrow> bigint_clone h2 a;
          (q, h4) \<leftarrow> bigint_clone h3 b;
          let (tmp, h5) = bigint_create h4;
          let tmp_a = (if c = - 1 then p else q);
          let tmp_b = (if c = - 1 then q else p);
          on_success (gcd_loop tmp_a tmp_b tmp h5) (\<lambda>h6.
            on_success (bigint_set_bigint h6 res tmp_b) (\<lambda>h7. do {
              h8 \<leftarrow> big_modify h7 res (\<lambda>r. bigint_remove_leading_zeros (if sign r = - 1 then r\<lparr>sign := 1\<rparr> else r));
              big_finish result a res h8
            }))
        }
      }))"

end
