(* ===== verification/BigInt_Value.thy ===== *)
theory BigInt_Value
  imports BigInt_Arith
begin

text \<open>
  The integer a big integer stands for (\<open>bval\<close>), and what the loops over the items of numbers do to the
  values of their items.
\<close>

subsection \<open>Items\<close>

fun items_val :: "u64 list \<Rightarrow> nat" where
  "items_val [] = 0"
| "items_val (x # xs) = unat x + 2 ^ 48 * items_val xs"

definition radix :: "nat \<Rightarrow> nat" where
  "radix n = 2 ^ (48 * n)"

lemma radix_simps [simp]: "radix 0 = 1" "radix (Suc n) = 281474976710656 * radix n" "0 < radix n" "Suc 0 \<le> radix n"
  by (simp_all add: radix_def power_add)

lemma radix_add: "radix (m + n) = radix m * radix n"
  by (simp add: radix_def power_add algebra_simps)

definition items_ok :: "u64 list \<Rightarrow> bool" where
  "items_ok xs \<longleftrightarrow> (\<forall>x\<in>set xs. unat x < 2 ^ 48)"

lemma items_ok_simps [simp]:
  "items_ok []" "items_ok (x # xs) \<longleftrightarrow> unat x < 2 ^ 48 \<and> items_ok xs"
  "items_ok (xs @ ys) \<longleftrightarrow> items_ok xs \<and> items_ok ys" "items_ok (rev xs) \<longleftrightarrow> items_ok xs"
  "items_ok (replicate n x) \<longleftrightarrow> n = 0 \<or> unat x < 2 ^ 48"
  by (auto simp: items_ok_def)

lemma items_ok_zeros [simp]: "items_ok (map (\<lambda>_. 0) xs)"
  by (simp add: items_ok_def)

lemma items_val_append [simp]: "items_val (xs @ ys) = items_val xs + radix (length xs) * items_val ys"
  by (induction xs) (simp_all add: algebra_simps)

lemma items_val_zeros [simp]: "items_val (replicate n 0) = 0" "items_val (map (\<lambda>_. 0) xs) = 0"
proof -
  show zeros: "items_val (replicate n 0) = 0" for n by (induction n) simp_all
  show "items_val (map (\<lambda>_. 0) xs) = 0" using zeros [of "length xs"] by (simp add: map_replicate_const)
qed

lemma items_val_less: "items_ok xs \<Longrightarrow> items_val xs < radix (length xs)"
proof (induction xs)
  case (Cons x xs)
  then have "items_val xs + 1 \<le> radix (length xs)" by simp
  then have "281474976710656 * (items_val xs + 1) \<le> 281474976710656 * radix (length xs)" by (rule mult_le_mono2)
  then show ?case using Cons.prems by simp
qed simp

declare BIGINT_ITEM_BITS_def [simp] BIGINT_ITEM_HEX_DIGITS_def [simp]

lemma ITEM_MAX_mask: "BIGINT_ITEM_MAX = mask 48"
  by (simp add: BIGINT_ITEM_MAX_def mask_numeral mask_eq_exp_minus_1)

lemma unat_and_max [simp]: "unat (x AND BIGINT_ITEM_MAX) = unat x mod 2 ^ 48"
  unfolding ITEM_MAX_mask take_bit_eq_mask [symmetric] by (simp only: unsigned_take_bit_eq) (simp add: take_bit_eq_mod)

lemma unat_item_max: "unat BIGINT_ITEM_MAX = 2 ^ 48 - 1"
  by (simp add: BIGINT_ITEM_MAX_def)

lemma unat_drop_item [simp]: "unat (drop_bit n (x :: u64)) = unat x div 2 ^ n"
  by (simp only: unat_drop_bit_eq) (simp add: drop_bit_eq_div)

subsection \<open>Leading items\<close>

lemma trailing_split: "\<exists>n. xs = rev (dropWhile (\<lambda>x. x = c) (rev xs)) @ replicate n c"
proof (induction xs rule: rev_induct)
  case (snoc x xs)
  then obtain n where "xs = rev (dropWhile (\<lambda>x. x = c) (rev xs)) @ replicate n c" ..
  then have "xs @ [c] = rev (dropWhile (\<lambda>x. x = c) (rev xs)) @ replicate (Suc n) c"
    by (metis append.assoc replicate_Suc replicate_append_same)
  then have "\<exists>n. xs @ [c] = rev (dropWhile (\<lambda>x. x = c) (rev xs)) @ replicate n c" by blast
  then show ?case by (cases "x = c") (simp_all add: exI [of _ 0])
qed simp

lemma strip_zeros_split:
  obtains n where "xs = strip_zeros xs @ replicate n 0"
  using trailing_split [of xs 0] that by (auto simp: strip_zeros_def)

lemma strip_zeros_val [simp]: "items_val (strip_zeros xs) = items_val xs"
proof -
  obtain n where "xs = strip_zeros xs @ replicate n 0" by (rule strip_zeros_split)
  then have "items_val xs = items_val (strip_zeros xs @ replicate n 0)" by (rule arg_cong)
  then show ?thesis by simp
qed

lemma strip_zeros_ok [simp]: "items_ok xs \<Longrightarrow> items_ok (strip_zeros xs)"
  by (metis items_ok_simps(3) strip_zeros_split)

lemma strip_zeros_last: "strip_zeros xs \<noteq> [] \<Longrightarrow> last (strip_zeros xs) \<noteq> 0"
  using hd_dropWhile [of "\<lambda>x. x = 0" "rev xs"] by (simp add: strip_zeros_def last_rev del: dropWhile_eq_Nil_conv)

lemma items_val_zero_iff: "items_val xs = 0 \<longleftrightarrow> (\<forall>x\<in>set xs. x = 0)"
  by (induction xs) (auto simp: unat_eq_0)

lemma strip_zeros_Nil [simp]: "strip_zeros xs = [] \<longleftrightarrow> items_val xs = 0"
  by (auto simp: strip_zeros_def items_val_zero_iff)

text \<open>The value of items in two's complement.\<close>

definition neg_val :: "u64 list \<Rightarrow> int" where
  "neg_val xs = int (items_val xs) - int (radix (length xs))"

lemma neg_val_append_max: "neg_val (xs @ replicate n BIGINT_ITEM_MAX) = neg_val xs"
proof (induction n)
  case (Suc n)
  have "neg_val (ys @ [BIGINT_ITEM_MAX]) = neg_val ys" for ys
    by (simp add: neg_val_def BIGINT_ITEM_MAX_def)
  from this [of "xs @ replicate n BIGINT_ITEM_MAX"] Suc show ?case by (simp add: replicate_append_same)
qed simp

lemma strip_ones_split:
  assumes "xs \<noteq> []"
  obtains n where "xs = strip_ones xs @ replicate n BIGINT_ITEM_MAX" "strip_ones xs \<noteq> []"
proof -
  obtain y ys where xs: "xs = y # ys" using assms by (cases xs) auto
  obtain n where "ys = rev (dropWhile (\<lambda>x. x = BIGINT_ITEM_MAX) (rev ys)) @ replicate n BIGINT_ITEM_MAX"
    using trailing_split [of ys BIGINT_ITEM_MAX] by blast
  then show thesis using that [of n] by (simp add: xs)
qed

lemma strip_ones_neg_val: "xs \<noteq> [] \<Longrightarrow> neg_val (strip_ones xs) = neg_val xs"
  by (metis neg_val_append_max strip_ones_split)

lemma strip_ones_ok: "items_ok xs \<Longrightarrow> items_ok (strip_ones xs)"
  by (cases "xs = []") (simp, metis items_ok_simps(3) strip_ones_split)

subsection \<open>Two's complement\<close>

lemma unat_not_item: "unat x < 2 ^ 48 \<Longrightarrow> unat (NOT x AND BIGINT_ITEM_MAX) = 2 ^ 48 - 1 - unat x"
proof -
  assume "unat x < 2 ^ 48"
  have "NOT x = - 1 - x" by (simp add: not_eq_complement)
  then have "unat (NOT x) = 2 ^ 64 - 1 - unat x" using unat_sub [of x "- 1"]
    by (simp add: unsigned_minus_1_eq_mask mask_eq_exp_minus_1)
  moreover have "2 ^ 64 - 1 - unat x = 281474976710655 - unat x + 281474976710656 * 65535" using \<open>unat x < 2 ^ 48\<close> by simp
  ultimately have "unat (NOT x) mod 281474976710656 = (281474976710655 - unat x) mod 281474976710656"
    by (simp only: mod_mult_self2)
  then show ?thesis by simp
qed

lemma not_items_val: "items_ok xs \<Longrightarrow> items_val (not_items xs) + items_val xs + 1 = radix (length xs)"
proof (induction xs)
  case (Cons x xs)
  then have "281474976710656 * (items_val (not_items xs) + items_val xs + 1) = 281474976710656 * radix (length xs)" by simp
  then show ?case using Cons.prems unat_not_item [of x] by (simp add: not_items_def)
qed (simp add: not_items_def)

lemma not_items_ok [simp]: "items_ok (not_items xs)" "length (not_items xs) = length xs"
  by (auto simp: not_items_def items_ok_def)

lemma inc_items_val:
  "\<lbrakk>items_ok xs; unat c < 2 ^ 48\<rbrakk> \<Longrightarrow> items_val (inc_items c xs) = (items_val xs + unat c) mod radix (length xs)"
proof (induction xs arbitrary: c)
  case (Cons x xs)
  define v where "v = x + c"
  have v: "unat v = unat x + unat c" using Cons.prems by (simp add: v_def unat_word_ariths)
  let ?d = "drop_bit BIGINT_ITEM_BITS v"
  have d: "unat ?d = unat v div 2 ^ 48" "unat ?d < 2 ^ 48" using Cons.prems v by (auto simp: BIGINT_ITEM_BITS_def)
  have tail: "items_val (if ?d = 0 then xs else inc_items ?d xs) = (items_val xs + unat ?d) mod radix (length xs)"
    using Cons.IH [OF _ d(2)] Cons.prems items_val_less [of xs] unat_0 by (cases "?d = 0") (simp_all del: unat_drop_item)
  have "inc_items c (x # xs) = (v AND BIGINT_ITEM_MAX) # (if ?d = 0 then xs else inc_items ?d xs)"
    by (simp add: Let_def v_def)
  then have "items_val (inc_items c (x # xs)) = unat v mod 2 ^ 48 + 2 ^ 48 * ((items_val xs + unat v div 2 ^ 48) mod radix (length xs))"
    using tail by (simp only: items_val.simps unat_and_max d(1))
  also have "\<dots> = (unat v + 2 ^ 48 * items_val xs) mod (2 ^ 48 * radix (length xs))"
    unfolding mod_mult2_eq [of _ "2 ^ 48"] by (simp only: add.commute div_mult_self1 mod_mult_self1 zero_neq_numeral power_eq_0_iff) simp
  also have "unat v + 2 ^ 48 * items_val xs = items_val (x # xs) + unat c" using v by simp
  finally show ?case by simp
qed simp

lemma inc_items_ok [simp]: "items_ok xs \<Longrightarrow> items_ok (inc_items c xs)" "length (inc_items c xs) = length xs"
  by (induction xs arbitrary: c) (auto simp: Let_def)

subsection \<open>Sums\<close>

lemma add_items_ok:
  assumes "items_ok xs" "items_ok ys" "unat c \<le> 1" "length ys = length xs" "length xs \<le> length rs"
  shows "\<exists>zs c'. add_items c xs ys rs = Some (zs, drop (length xs) rs, c') \<and> items_ok zs \<and> length zs = length xs \<and>
    unat c' \<le> 1 \<and> items_val zs + radix (length xs) * unat c' = items_val xs + items_val ys + unat c"
  using assms
proof (induction c xs ys rs rule: add_items.induct)
  case (2 c x xs y ys r rs)
  define v where "v = x + y + c"
  have v: "unat v = unat x + unat y + unat c" using "2.prems" by (simp add: v_def unat_word_ariths)
  let ?d = "drop_bit BIGINT_ITEM_BITS v"
  have d: "unat ?d = unat v div 2 ^ 48" "unat ?d \<le> 1" using "2.prems" v by (auto simp: BIGINT_ITEM_BITS_def)
  obtain zs c' where zs: "add_items ?d xs ys rs = Some (zs, drop (length xs) rs, c')" "items_ok zs" "length zs = length xs"
      "unat c' \<le> 1" "items_val zs + radix (length xs) * unat c' = items_val xs + items_val ys + unat ?d"
    using "2.IH" [OF v_def] "2.prems" d(2) by (auto simp del: BIGINT_ITEM_BITS_def unat_drop_item)
  define A where "A = radix (length xs) * unat c'"
  have "281474976710656 * (unat v div 281474976710656) + unat v mod 281474976710656 = unat x + unat y + unat c"
    using v by (simp only: mult_div_mod_eq)
  moreover have "items_val zs + A = items_val xs + items_val ys + unat v div 281474976710656"
    using zs(5) d(1) by (simp add: A_def)
  ultimately have "unat v mod 281474976710656 + 281474976710656 * items_val zs + 281474976710656 * A =
      unat x + 281474976710656 * items_val xs + (unat y + 281474976710656 * items_val ys) + unat c"
    by linarith
  then have "items_val ((v AND BIGINT_ITEM_MAX) # zs) + radix (Suc (length xs)) * unat c' = items_val (x # xs) + items_val (y # ys) + unat c"
    by (simp add: A_def)
  moreover have "add_items c (x # xs) (y # ys) (r # rs) = Some ((v AND BIGINT_ITEM_MAX) # zs, drop (length xs) rs, c')"
    using zs(1) by (simp add: Let_def v_def del: BIGINT_ITEM_BITS_def)
  ultimately show ?case using zs(2-4) by simp
qed (auto simp: Suc_le_length_iff)

lemma sub_items_ok:
  assumes "items_ok xs" "items_ok ys" "length ys = length xs" "length xs \<le> length rs"
  shows "\<exists>zs b'. sub_items b xs ys rs = Some (zs @ map (\<lambda>_. 0) (drop (length xs) rs), b') \<and> items_ok zs \<and> length zs = length xs \<and>
    items_val zs + items_val ys + of_bool b = items_val xs + radix (length xs) * of_bool b'"
  using assms
proof (induction b xs ys rs rule: sub_items.induct)
  case (2 b x xs y ys r rs)
  define nb where "nb \<longleftrightarrow> b \<and> x = 0"
  define a where "a = (if b then if x = 0 then BIGINT_ITEM_MAX else x - 1 else x)"
  define b1 where "b1 = (if a < y then True else if \<not> nb then False else b)"
  define a1 where "a1 = (if a < y then a + (BIGINT_ITEM_MAX + 1) else a)"
  obtain zs b' where zs: "sub_items b1 xs ys rs = Some (zs @ map (\<lambda>_. 0) (drop (length xs) rs), b')" "items_ok zs" "length zs = length xs"
      "items_val zs + items_val ys + of_bool b1 = items_val xs + radix (length xs) * of_bool b'"
    using "2.IH" [OF nb_def a_def b1_def a1_def] "2.prems" by auto
  have small: "unat x < 2 ^ 48" "unat y < 2 ^ 48" using "2.prems" by auto
  have ua: "unat a = (if b then if x = 0 then 2 ^ 48 - 1 else unat x - 1 else unat x)"
    using unat_minus_one64 [of x] by (auto simp: a_def unat_item_max unat_gt_0)
  have "unat (BIGINT_ITEM_MAX + 1) = 2 ^ 48" by (simp add: BIGINT_ITEM_MAX_def)
  then have ua1: "unat a1 = (if a < y then unat a + 2 ^ 48 else unat a)"
    using ua small by (auto simp: a1_def unat_word_ariths)
  have "y \<le> a1" using ua1 small(2) by (auto simp: word_le_nat_alt word_less_nat_alt)
  then have w: "unat (a1 - y) = unat a1 - unat y" "unat y \<le> unat a1" by (auto simp: unat_sub word_le_nat_alt)
  moreover have "unat a1 - unat y < 281474976710656" using ua1 ua small by (auto simp: word_less_nat_alt)
  ultimately have and': "unat ((a1 - y) AND BIGINT_ITEM_MAX) = unat a1 - unat y" "unat ((a1 - y) AND BIGINT_ITEM_MAX) < 281474976710656" by simp_all
  have d: "unat ((a1 - y) AND BIGINT_ITEM_MAX) + unat y + of_bool b = unat x + 281474976710656 * of_bool b1"
    unfolding and'(1) using w(2) ua1 ua small unat_gt_0 [of x]
    by (cases b; cases "x = 0"; cases "a < y") (auto simp: b1_def nb_def word_less_nat_alt)
  have "281474976710656 * (items_val zs + items_val ys + of_bool b1) = 281474976710656 * (items_val xs + radix (length xs) * of_bool b')"
    by (simp only: zs(4))
  then show ?case
    using zs d and'(2) by (simp add: Let_def nb_def [symmetric] a_def [symmetric] b1_def [symmetric] a1_def [symmetric] del: unat_and_max)
qed (auto simp: Suc_le_length_iff)

end
