(* ===== verification/BigInt_Ops.thy ===== *)
theory BigInt_Ops
  imports BigInt_Value
begin

text \<open>
  Big integers as integers: the value of a number, what is a well-formed one, and the operations on
  single numbers.
\<close>

subsection \<open>Values and well-formed numbers\<close>

definition bval :: "bigint_t \<Rightarrow> int" where
  "bval b = (if sign b = 0 then 0 else if sign b > 0 then int (items_val (items b))
     else if neged_with_sign b then neg_val (items b) else - int (items_val (items b)))"

definition wf_big :: "bigint_t \<Rightarrow> bool" where
  "wf_big b \<longleftrightarrow> items_ok (items b) \<and> sign b \<in> {- 1, 0, 1} \<and> (sign b \<noteq> 0 \<longrightarrow> items b \<noteq> []) \<and>
     (sign b = - 1 \<and> \<not> neged_with_sign b \<longrightarrow> items_val (items b) \<noteq> 0)"

lemma wf_sign: "wf_big b \<Longrightarrow> sign b = - 1 \<or> sign b = 0 \<or> sign b = 1"
  by (auto simp: wf_big_def)

lemma neg_val_neg: "items_ok xs \<Longrightarrow> neg_val xs < 0"
  using items_val_less [of xs] by (simp add: neg_val_def)

lemma bval_neg: "wf_big b \<Longrightarrow> sign b = - 1 \<Longrightarrow> bval b < 0"
  using neg_val_neg [of "items b"] by (auto simp: wf_big_def bval_def)

lemma wf_zero [simp]: "wf_big bigint_zero" "bval bigint_zero = 0" "sign bigint_zero = 0" "items bigint_zero = []"
    "neged_with_sign bigint_zero = False"
  by (simp_all add: wf_big_def bval_def bigint_zero_def)

lemma big_get_Ref [simp]: "i < length h \<Longrightarrow> big_get h (Ref i) = Some (h ! i)"
  by (simp add: big_get_def)

lemma big_put_Ref [simp]: "big_put (Ref i) b h = h[i := b]"
  by (simp add: big_put_def)

lemma big_modify_Ref [simp]: "i < length h \<Longrightarrow> big_modify h (Ref i) f = Some (h[i := f (h ! i)])"
  by (simp add: big_modify_def)

subsection \<open>Removing leading items\<close>

lemma last_nonzero:
  assumes "items_ok xs" "radix (length xs - 1) \<le> items_val xs" "xs \<noteq> []"
  shows "last xs \<noteq> 0"
proof -
  obtain ys x where xs: "xs = ys @ [x]" using assms(3) by (cases xs rule: rev_cases) auto
  then have "x \<noteq> 0" using assms(1,2) items_val_less [of ys] by (cases "x = 0") auto
  then show ?thesis by (simp add: xs)
qed

lemma strip_zeros_append_zeros [simp]: "strip_zeros (xs @ map (\<lambda>_. 0) ys) = strip_zeros xs"
proof -
  have "dropWhile (\<lambda>x. x = 0) (replicate n 0 @ zs) = dropWhile (\<lambda>x. x = 0) zs" for n and zs :: "u64 list"
    by (induction n) auto
  then show ?thesis by (simp add: strip_zeros_def map_replicate_const)
qed

lemma strip_zeros_id: "xs \<noteq> [] \<Longrightarrow> last xs \<noteq> 0 \<Longrightarrow> strip_zeros xs = xs"
  by (cases xs rule: rev_cases) (auto simp: strip_zeros_def)

lemma remove_zeros_pos:
  assumes "items_ok (items b)" "sign b = 1"
  shows "wf_big (bigint_remove_leading_zeros b)" "bval (bigint_remove_leading_zeros b) = int (items_val (items b))"
    "sign (bigint_remove_leading_zeros b) = (if items_val (items b) = 0 then 0 else 1)"
  using assms by (auto simp: bigint_remove_leading_zeros_def wf_big_def bval_def Let_def bigint_zero_def)

lemma remove_zeros_neg:
  assumes "items_ok xs" "xs \<noteq> []" "last xs \<noteq> 0" "strip_zeros (items b) = xs" "sign b = - 1" "neged_with_sign b"
  shows "wf_big (bigint_remove_leading_zeros b)" "bval (bigint_remove_leading_zeros b) = neg_val xs"
    "sign (bigint_remove_leading_zeros b) = - 1"
proof -
  have "strip_ones xs \<noteq> []" using assms(2) by (cases xs) auto
  then show "wf_big (bigint_remove_leading_zeros b)" "bval (bigint_remove_leading_zeros b) = neg_val xs"
    "sign (bigint_remove_leading_zeros b) = - 1"
    using assms strip_ones_ok [of xs] strip_ones_neg_val [of xs]
    by (auto simp: bigint_remove_leading_zeros_def Let_def wf_big_def bval_def simp del: strip_zeros_Nil)
qed

subsection \<open>Two's complement\<close>

lemma complement_val:
  assumes "items_ok xs" "items_val xs \<noteq> 0"
  shows "items_val (inc_items 1 (not_items xs)) = radix (length xs) - items_val xs"
proof -
  have "items_val (not_items xs) + 1 = radix (length xs) - items_val xs" using not_items_val [OF assms(1)] by linarith
  then show ?thesis
    using inc_items_val [of "not_items xs" 1] items_val_less [OF assms(1)] assms(2) by simp
qed

text \<open>Changing between magnitude and two's complement keeps the value.\<close>

lemma neg_with_sign_ok:
  assumes "wf_big b" "sign b = - 1" "force \<longleftrightarrow> neged_with_sign b" "items_val (items b) \<noteq> 0"
  defines "b' \<equiv> bigint_neg_with_sign_inplace force b"
  shows "wf_big b'" "bval b' = bval b" "sign b' = - 1" "neged_with_sign b' \<longleftrightarrow> \<not> neged_with_sign b"
    "length (items b') = length (items b)" "items_val (items b') \<noteq> 0"
proof -
  have b': "b' = b\<lparr>items := inc_items 1 (not_items (items b)), neged_with_sign := \<not> neged_with_sign b\<rparr>"
    using assms(2,3) by (auto simp: b'_def bigint_neg_with_sign_inplace_def bigint_not_inplace_def bigint_inc_with_overflow_def Let_def)
  have ok: "items_ok (items b)" using assms(1) by (simp add: wf_big_def)
  have v: "items_val (items b') = radix (length (items b)) - items_val (items b)" "items_val (items b) < radix (length (items b))"
    using complement_val [OF ok assms(4)] items_val_less [OF ok] by (simp_all add: b')
  then show ne: "items_val (items b') \<noteq> 0" by simp
  show "wf_big b'" using ne ok assms(1,2) by (simp add: b' wf_big_def) (metis Suc_length_conv inc_items_ok(2) length_0_conv not_items_ok(2))
  show "bval b' = bval b" using v assms(2) by (auto simp: b' bval_def neg_val_def)
  show "sign b' = - 1" "neged_with_sign b' \<longleftrightarrow> \<not> neged_with_sign b" "length (items b') = length (items b)"
    using assms(2) by (simp_all add: b')
qed

lemma negate_negative_ok:
  assumes "wf_big b"
  shows "wf_big (big_negate_negative b)" "bval (big_negate_negative b) = bval b" "sign (big_negate_negative b) = sign b"
    "length (items (big_negate_negative b)) = length (items b)"
    "sign b < 0 \<Longrightarrow> neged_with_sign (big_negate_negative b)"
proof -
  have "wf_big (big_negate_negative b) \<and> bval (big_negate_negative b) = bval b \<and> sign (big_negate_negative b) = sign b \<and>
    length (items (big_negate_negative b)) = length (items b) \<and> (sign b < 0 \<longrightarrow> neged_with_sign (big_negate_negative b))"
  proof (cases "sign b < 0 \<and> \<not> neged_with_sign b")
    case True
    then have "sign b = - 1" using wf_sign [OF assms] by auto
    then show ?thesis using neg_with_sign_ok [of b False] assms True by (simp add: big_negate_negative_def wf_big_def)
  next
    case False
    then show ?thesis using assms by (auto simp: big_negate_negative_def bigint_neg_with_sign_inplace_def)
  qed
  then show "wf_big (big_negate_negative b)" "bval (big_negate_negative b) = bval b" "sign (big_negate_negative b) = sign b"
    "length (items (big_negate_negative b)) = length (items b)"
    "sign b < 0 \<Longrightarrow> neged_with_sign (big_negate_negative b)" by auto
qed

lemma sign_extend_alt:
  "bigint_sign_extend n b = (if n \<le> length (items b) then b
     else let b1 = big_negate_negative b in b1\<lparr>items := items b1 @ replicate (n - length (items b)) (if sign b1 < 0 then BIGINT_ITEM_MAX else 0)\<rparr>)"
  by (auto simp: bigint_sign_extend_def big_negate_negative_def bigint_item_count_def bigint_neg_with_sign_inplace_def Let_def)

lemma sign_extend_length: "length (items (bigint_sign_extend n b)) = max n (length (items b))"
  by (auto simp: sign_extend_alt big_negate_negative_def bigint_neg_with_sign_inplace_def bigint_not_inplace_def
      bigint_inc_with_overflow_def Let_def)

lemma sign_extend_ok:
  assumes "wf_big b"
  shows "wf_big (bigint_sign_extend n b)" "bval (bigint_sign_extend n b) = bval b" "sign (bigint_sign_extend n b) = sign b"
    "length (items (bigint_sign_extend n b)) = max n (length (items b))"
    "sign b < 0 \<Longrightarrow> neged_with_sign b \<Longrightarrow> neged_with_sign (bigint_sign_extend n b)"
proof -
  let ?b = "big_negate_negative b"
  note nn = negate_negative_ok [OF assms]
  have "wf_big (bigint_sign_extend n b) \<and> bval (bigint_sign_extend n b) = bval b" if "\<not> n \<le> length (items b)"
    using that nn by (auto simp: sign_extend_alt Let_def wf_big_def bval_def neg_val_append_max unat_item_max)
  then show "wf_big (bigint_sign_extend n b)" "bval (bigint_sign_extend n b) = bval b"
    using assms by (auto simp: sign_extend_alt)
  show "sign (bigint_sign_extend n b) = sign b" "length (items (bigint_sign_extend n b)) = max n (length (items b))"
    using nn by (auto simp: sign_extend_alt Let_def)
  show "neged_with_sign (bigint_sign_extend n b)" if "sign b < 0" "neged_with_sign b"
    using nn that by (auto simp: sign_extend_alt Let_def)
qed

end
