(* ===== verification/BigInt_Sum.thy ===== *)
theory BigInt_Sum
  imports BigInt_Ops
begin

text \<open>
  Sums, differences and comparison of big integers, for every way their pointers may alias.
\<close>

subsection \<open>Stores\<close>

text \<open>Another representation of the same number; only a negative one may change its flag.\<close>

definition same_number :: "bigint_t \<Rightarrow> bigint_t \<Rightarrow> bool" where
  "same_number b b' \<longleftrightarrow> (wf_big b \<longrightarrow> wf_big b' \<and> bval b' = bval b \<and> sign b' = sign b \<and>
     (0 \<le> sign b \<longrightarrow> neged_with_sign b' = neged_with_sign b))"

lemma same_number_refl [simp]: "same_number b b"
  by (simp add: same_number_def)

lemma same_number_trans: "same_number b b' \<Longrightarrow> same_number b' b'' \<Longrightarrow> same_number b b''"
  by (simp add: same_number_def)

lemma same_number_negate [simp]: "same_number b (big_negate_negative b)"
  using negate_negative_ok [of b] by (auto simp: same_number_def big_negate_negative_def)

lemma same_number_extend [simp]: "same_number b (bigint_sign_extend n b)"
  using sign_extend_ok [of b n] by (auto simp: same_number_def sign_extend_alt big_negate_negative_def Let_def)

lemma same_number_align [simp]: "same_number b (bigint_sign_extend n (big_negate_negative b))"
  by (rule same_number_trans [of _ "big_negate_negative b"]) simp_all

text \<open>Only the number at \<open>r\<close> gets another value; other numbers may change their representation.\<close>

definition only_changes :: "nat \<Rightarrow> bigints \<Rightarrow> bigints \<Rightarrow> bool" where
  "only_changes r h h' \<longleftrightarrow> length h' = length h \<and> (\<forall>i<length h. i \<noteq> r \<longrightarrow> same_number (h ! i) (h' ! i))"

lemma only_changes_refl [simp]: "only_changes r h h"
  by (simp add: only_changes_def)

lemma only_changes_trans: "only_changes r h h' \<Longrightarrow> only_changes r h' h'' \<Longrightarrow> only_changes r h h''"
  by (auto simp: only_changes_def intro: same_number_trans)

lemma only_changes_put: "only_changes r h h' \<Longrightarrow> only_changes r h (h'[r := b])"
  by (auto simp: only_changes_def)

lemma only_changes_repr:
  assumes "only_changes r h h'" "i < length h" "i \<noteq> r \<Longrightarrow> same_number (h' ! i) b"
  shows "only_changes r h (h'[i := b])"
  unfolding only_changes_def
proof (intro conjI allI impI)
  fix k assume "k < length h" "k \<noteq> r"
  then show "same_number (h ! k) (h'[i := b] ! k)"
    using assms by (cases "k = i") (auto simp: only_changes_def intro: same_number_trans)
qed (use assms in \<open>simp add: only_changes_def\<close>)

subsection \<open>Aligned operands\<close>

text \<open>Items that are an integer in two's complement, with room for the sign.\<close>

definition twos :: "nat \<Rightarrow> int \<Rightarrow> u64 list \<Rightarrow> bool" where
  "twos n v xs \<longleftrightarrow> items_ok xs \<and> length xs = Suc n \<and> - int (radix n) \<le> v \<and> v < int (radix n) \<and>
     int (items_val xs) = (if v < 0 then v + int (radix (Suc n)) else v)"

lemma radix_mono: "m \<le> n \<Longrightarrow> radix m \<le> radix n"
  by (simp add: radix_def)

lemma aligned_twos:
  assumes "wf_big x" "sign x \<noteq> 0" "length (items x) \<le> n"
  shows "twos n (bval x) (items (bigint_sign_extend (Suc n) (big_negate_negative x)))"
proof -
  let ?x = "big_negate_negative x" and ?X = "bigint_sign_extend (Suc n) (big_negate_negative x)"
  note nn = negate_negative_ok [OF assms(1)]
  note ext = sign_extend_ok [OF nn(1), of "Suc n"]
  have len: "length (items ?X) = Suc n" using ext(4) nn(4) assms(3) by simp
  have ok: "items_ok (items ?X)" using ext(1) by (simp add: wf_big_def)
  have small: "items_val (items ?x) < radix n"
    using items_val_less [of "items ?x"] nn(1,4) radix_mono [OF assms(3)] by (simp add: wf_big_def)
  consider "sign x = 1" | "sign x = - 1" using wf_sign [OF assms(1)] assms(2) by auto
  then show ?thesis
  proof cases
    case 1
    then have "bval ?X = int (items_val (items ?X))" "bval ?x = int (items_val (items ?x))" using ext(3) nn(3) by (simp_all add: bval_def)
    then show ?thesis using small ext(2) nn(2) len ok by (simp add: twos_def)
  next
    case 2
    then have "bval ?X = neg_val (items ?X)" "bval ?x = neg_val (items ?x)" using ext(3,5) nn(3,5) by (simp_all add: bval_def)
    moreover have "neg_val (items ?x) \<ge> - int (radix n)" using nn(4) radix_mono [OF assms(3)] by (simp add: neg_val_def)
    moreover have "bval x < 0" by (rule bval_neg [OF assms(1) 2])
    ultimately show ?thesis using ext(2) nn(2) len ok by (simp add: twos_def neg_val_def)
  qed
qed

lemma negate_negative_idem [simp]: "wf_big x \<Longrightarrow> big_negate_negative (big_negate_negative x) = big_negate_negative x"
  using negate_negative_ok(3,5) [of x]
  by (auto simp: big_negate_negative_def [of "big_negate_negative x"] bigint_neg_with_sign_inplace_def)

lemma sign_extend_idem [simp]: "wf_big x \<Longrightarrow> bigint_sign_extend n (bigint_sign_extend n x) = bigint_sign_extend n x"
  using sign_extend_ok(4) [of x n] by (simp add: bigint_sign_extend_def [of n "bigint_sign_extend n x"] bigint_item_count_def)

subsection \<open>Addition\<close>

text \<open>What the loop of an addition computes, read with the sign the code gives it.\<close>

lemma add_result_ok:
  assumes "twos n v xs" "twos n w ys" "Suc n \<le> length rs"
  defines "sgn' \<equiv> (if v < 0 \<and> w < 0 then - 1 else if v < 0 \<or> w < 0 then - 2 else 1)"
  shows "\<exists>zs rest carry. add_items 0 xs ys rs = Some (zs, rest, carry) \<and>
    wf_big (bigint_remove_leading_zeros (add_result sgn' zs rest carry r)) \<and>
    bval (bigint_remove_leading_zeros (add_result sgn' zs rest carry r)) = v + w \<and>
    sign (bigint_remove_leading_zeros (add_result sgn' zs rest carry r)) = sgn (v + w)"
proof -
  have len: "length xs = Suc n" "length ys = Suc n" "items_ok xs" "items_ok ys" using assms(1,2) by (auto simp: twos_def)
  obtain zs c where zs: "add_items 0 xs ys rs = Some (zs, drop (Suc n) rs, c)" "items_ok zs" "length zs = Suc n" "unat c \<le> 1"
      "items_val zs + radix (Suc n) * unat c = items_val xs + items_val ys"
    using add_items_ok [of xs ys 0 rs] len assms(3) by auto
  let ?r = "add_result sgn' zs (drop (Suc n) rs) c r"
  define R where "R = int (radix n)"
  have R: "0 < R" "int (radix (Suc n)) = 281474976710656 * R" by (simp_all add: R_def)
  have vx: "- R \<le> v" "v < R" "int (items_val xs) = (if v < 0 then v + 281474976710656 * R else v)"
    and vy: "- R \<le> w" "w < R" "int (items_val ys) = (if w < 0 then w + 281474976710656 * R else w)"
    using assms(1,2) by (auto simp: twos_def R_def)
  have vz: "int (items_val zs) < 281474976710656 * R" "0 \<le> int (items_val zs)"
    using items_val_less [OF zs(2)] zs(3) R(2) by auto
  have "unat c = 0 \<and> c = 0 \<or> unat c = 1 \<and> c \<noteq> 0" using zs(4) unat_eq_0 [of c] by linarith
  then have sum: "c = 0 \<and> int (items_val zs) = int (items_val xs) + int (items_val ys) \<or>
      c \<noteq> 0 \<and> int (items_val zs) + 281474976710656 * R = int (items_val xs) + int (items_val ys)"
    using zs(5) R(2) by (metis mult.right_neutral mult_0_right of_nat_add add_0_right)
  have "wf_big (bigint_remove_leading_zeros ?r) \<and> bval (bigint_remove_leading_zeros ?r) = v + w \<and>
      sign (bigint_remove_leading_zeros ?r) = sgn (v + w)"
  proof (cases "v < 0 \<or> w < 0")
    case False
    then have "c = 0" "int (items_val zs) = v + w" using sum vz vx vy by auto
    then show ?thesis
      using False zs(2) remove_zeros_pos [of ?r] by (auto simp: sgn'_def add_result_def Let_def sgn_if)
  next
    case True
    show ?thesis
    proof (cases "v + w \<ge> 0")
      case pos: True
      then have "\<not> (v < 0 \<and> w < 0)" by auto
      then have "c \<noteq> 0" "int (items_val zs) = v + w" using True pos sum vz vx vy by (auto split: if_splits)
      then show ?thesis
        using \<open>\<not> (v < 0 \<and> w < 0)\<close> True zs(2) remove_zeros_pos [of ?r] by (auto simp: sgn'_def add_result_def Let_def sgn_if)
    next
      case neg: False
      have val: "int (items_val zs) = v + w + 281474976710656 * R"
        using True neg sum vz vx vy by (auto split: if_splits)
      then have "int (radix n) \<le> int (items_val zs)" using vx vy R by (simp add: R_def)
      moreover have "zs \<noteq> []" using zs(3) by auto
      ultimately have last: "last zs \<noteq> 0" "zs \<noteq> []" using last_nonzero [OF zs(2)] zs(3) by auto
      have "sign ?r = - 1" "neged_with_sign ?r" "strip_zeros (items ?r) = zs"
        using True neg strip_zeros_id [OF last(2,1)] sum vz vx vy val
        by (auto simp: sgn'_def add_result_def Let_def split: if_splits)
      then show ?thesis
        using remove_zeros_neg [OF zs(2) last(2,1), of ?r] val zs(3) neg by (simp add: neg_val_def sgn_if R_def)
    qed
  qed
  with zs(1) show ?thesis by blast
qed

lemma set_bigint_ok:
  assumes "r < length h" "a < length h" "wf_big (h ! a)"
  shows "\<exists>h'. bigint_set_bigint h (Ref r) (Ref a) = Some (0, h') \<and> only_changes r h h' \<and>
    wf_big (h' ! r) \<and> bval (h' ! r) = bval (h ! a) \<and> sign (h' ! r) = sign (h ! a) \<and> (\<forall>i. i \<noteq> r \<longrightarrow> h' ! i = h ! i)"
  using assms by (auto simp: bigint_set_bigint_def Let_def only_changes_def wf_big_def bval_def)

text \<open>Numbers that are neither the result nor an operand stay as they are, and no operand gets shorter.\<close>

definition grows :: "nat \<Rightarrow> nat \<Rightarrow> nat \<Rightarrow> bigints \<Rightarrow> bigints \<Rightarrow> bool" where
  "grows r a b h h' \<longleftrightarrow> (\<forall>i<length h. i \<noteq> r \<longrightarrow> length (items (h ! i)) \<le> length (items (h' ! i)) \<and>
     (i \<noteq> a \<longrightarrow> i \<noteq> b \<longrightarrow> h' ! i = h ! i))"

lemma grows_refl [simp]: "grows r a b h h"
  by (simp add: grows_def)

lemma grows_put: "grows r a b h h' \<Longrightarrow> grows r a b h (h'[r := x])"
  by (simp add: grows_def)

lemma grows_operand:
  "grows r a b h h' \<Longrightarrow> length h' = length h \<Longrightarrow> p = a \<or> p = b \<Longrightarrow> length (items (h' ! p)) \<le> length (items x) \<Longrightarrow> grows r a b h (h'[p := x])"
  unfolding grows_def by (intro allI impI, case_tac "i = p") (auto intro: order_trans)

lemma negate_negative_length [simp]: "length (items (big_negate_negative b)) = length (items b)"
  by (simp add: big_negate_negative_def bigint_neg_with_sign_inplace_def bigint_not_inplace_def bigint_inc_with_overflow_def Let_def)

text \<open>The operands after the preparation of an addition or a subtraction.\<close>

lemma add_prepared:
  fixes m :: nat
  assumes "r < length h" "a < length h" "b < length h" "wf_big (h ! a)" "wf_big (h ! b)"
  defines "x \<equiv> big_negate_negative (h ! a)" and "y \<equiv> big_negate_negative (h ! b)"
  defines "h2 \<equiv> h[a := x, b := big_negate_negative (h[a := x] ! b)]"
  defines "h3 \<equiv> (if r \<noteq> a then h2[r := (bigint_sign_extend m (h2 ! r))\<lparr>sign := 1\<rparr>] else h2)"
  defines "h4 \<equiv> h3[a := bigint_sign_extend m (h3 ! a)]"
  defines "h5 \<equiv> h4[b := bigint_sign_extend m (h4 ! b)]"
  shows "only_changes r h h5" "items (h5 ! a) = items (bigint_sign_extend m x)" "items (h5 ! b) = items (bigint_sign_extend m y)"
    "m \<le> length (items (h5 ! r))" "grows r a b h h5"
proof -
  note nn = negate_negative_ok
  note ext = sign_extend_ok
  have len: "length h2 = length h" "length h3 = length h" "length h4 = length h" by (simp_all add: h2_def h3_def h4_def)
  have o2: "only_changes r h h2"
    unfolding h2_def x_def by (intro only_changes_repr only_changes_refl) (use assms(1-3) in auto)
  have o3: "only_changes r h h3" using o2 by (auto simp: h3_def only_changes_put)
  have o4: "only_changes r h h4"
    unfolding h4_def by (intro only_changes_repr o3) (use assms(1-3) in auto)
  show "only_changes r h h5"
    unfolding h5_def by (intro only_changes_repr o4) (use assms(1-3) in auto)
  have ab: "h2 ! a = x" "h2 ! b = y" using assms(1-5) by (auto simp: h2_def x_def y_def nth_list_update)
  have wf: "wf_big x" "wf_big y" using nn(1) assms(4,5) by (auto simp: x_def y_def)
  have h3a: "h3 ! a = x" using ab assms(2) by (simp add: h3_def)
  show "items (h5 ! a) = items (bigint_sign_extend m x)"
    using h3a wf assms(2,3) len by (cases "a = b") (simp_all add: h5_def h4_def)
  show "items (h5 ! b) = items (bigint_sign_extend m y)"
  proof (cases "a = b")
    case True
    then show ?thesis using h3a ab wf assms(2,3) len by (simp add: h5_def h4_def)
  next
    case False
    then have "h5 ! b = bigint_sign_extend m (h3 ! b)" using assms(3) len by (simp add: h5_def h4_def)
    moreover have "h3 ! b = y \<or> h3 ! b = (bigint_sign_extend m y)\<lparr>sign := 1\<rparr>"
      using ab assms(3) len by (cases "r = b") (auto simp: h3_def)
    moreover have "bigint_sign_extend m ((bigint_sign_extend m y)\<lparr>sign := 1\<rparr>) = (bigint_sign_extend m y)\<lparr>sign := 1\<rparr>"
      using sign_extend_length [of m y] by (simp add: sign_extend_alt [of m "(bigint_sign_extend m y)\<lparr>sign := 1\<rparr>"])
    ultimately show ?thesis by auto
  qed
  show "m \<le> length (items (h5 ! r))"
    using assms(1-3) len by (cases "r = a"; cases "r = b") (auto simp: h5_def h4_def h3_def sign_extend_length nth_list_update)
  have "grows r a b h h2" using assms(1-3) by (auto simp: grows_def h2_def x_def nth_list_update)
  then have "grows r a b h h3" by (auto simp: h3_def grows_put)
  then have "grows r a b h h4" unfolding h4_def using len by (intro grows_operand) (simp_all add: sign_extend_length)
  then show "grows r a b h h5" unfolding h5_def using len by (intro grows_operand) (simp_all add: sign_extend_length)
qed

lemma bigint_add_ok:
  assumes "r < length h" "a < length h" "b < length h" "wf_big (h ! a)" "wf_big (h ! b)"
  shows "\<exists>h'. bigint_add h (Ref r) (Ref a) (Ref b) = Some (0, h') \<and> only_changes r h h' \<and>
    wf_big (h' ! r) \<and> bval (h' ! r) = bval (h ! a) + bval (h ! b) \<and> grows r a b h h'"
proof -
  consider "sign (h ! a) = 0" | "sign (h ! a) \<noteq> 0" "sign (h ! b) = 0" | "sign (h ! a) \<noteq> 0" "sign (h ! b) \<noteq> 0" by blast
  then show ?thesis
  proof cases
    case 1
    then show ?thesis using set_bigint_ok [OF assms(1,3,5)] assms by (auto simp: bigint_add_def bval_def grows_def)
  next
    case 2
    then show ?thesis using set_bigint_ok [OF assms(1,2,4)] assms
      by (cases "r = a") (auto simp: bigint_add_def bval_def [of "h ! b"] grows_def)
  next
    case 3
    define x y n where "x = big_negate_negative (h ! a)" and "y = big_negate_negative (h ! b)"
      and "n = max (length (items (h ! a))) (length (items (h ! b)))"
    define h2 where "h2 = h[a := x, b := big_negate_negative (h[a := x] ! b)]"
    define h3 where "h3 = (if r \<noteq> a then h2[r := (bigint_sign_extend (Suc n) (h2 ! r))\<lparr>sign := 1\<rparr>] else h2)"
    define h4 where "h4 = h3[a := bigint_sign_extend (Suc n) (h3 ! a)]"
    define h5 where "h5 = h4[b := bigint_sign_extend (Suc n) (h4 ! b)]"
    note prep = add_prepared [OF assms, of "Suc n", folded x_def y_def, folded h2_def, folded h3_def, folded h4_def, folded h5_def]
    have len: "length h2 = length h" "length h3 = length h" "length h4 = length h" "length h5 = length h"
      by (simp_all add: h2_def h3_def h4_def h5_def)
    have ab: "h2 ! a = x" "h2 ! b = y" using assms by (auto simp: h2_def x_def y_def nth_list_update)
    have "twos n (bval (h ! a)) (items (h5 ! a))" "twos n (bval (h ! b)) (items (h5 ! b))"
      using aligned_twos [OF assms(4) 3(1), of n] aligned_twos [OF assms(5) 3(2), of n] prep(2,3) by (simp_all add: x_def y_def n_def)
    note sum = add_result_ok [OF this prep(4), of "h5 ! r"]
    define sgn' where "sgn' = (if bval (h ! a) < 0 \<and> bval (h ! b) < 0 then - 1 else if bval (h ! a) < 0 \<or> bval (h ! b) < 0 then - 2 else 1 :: int)"
    obtain zs rest carry where zs: "add_items 0 (items (h5 ! a)) (items (h5 ! b)) (items (h5 ! r)) = Some (zs, rest, carry)"
        and res: "wf_big (bigint_remove_leading_zeros (add_result sgn' zs rest carry (h5 ! r)))"
          "bval (bigint_remove_leading_zeros (add_result sgn' zs rest carry (h5 ! r))) = bval (h ! a) + bval (h ! b)"
      using sum unfolding sgn'_def by blast
    have neg: "sign (h ! i) < 0 \<longleftrightarrow> bval (h ! i) < 0" if "wf_big (h ! i)" for i
      using wf_sign [OF that] bval_neg [OF that] by (auto simp: bval_def)
    have sg: "(if sign x < 0 \<and> sign y < 0 then - 1 else if sign x < 0 \<or> sign y < 0 then - 2 else 1) = sgn'"
      using negate_negative_ok(3) assms(4,5) neg by (simp add: x_def y_def sgn'_def)
    have cnt: "max (length (items x)) (length (items y)) = n"
      using negate_negative_ok(4) assms(4,5) by (simp add: x_def y_def n_def)
    have m: "big_modify h (Ref a) big_negate_negative = Some (h[a := x])"
        "big_modify (h[a := x]) (Ref b) big_negate_negative = Some h2"
        "r \<noteq> a \<Longrightarrow> big_modify h2 (Ref r) (\<lambda>r. (bigint_sign_extend (Suc n) r)\<lparr>sign := 1\<rparr>) = Some h3"
        "big_modify h3 (Ref a) (bigint_sign_extend (Suc n)) = Some h4" "big_modify h4 (Ref b) (bigint_sign_extend (Suc n)) = Some h5"
      using assms(1-3) len by (simp_all add: h2_def [symmetric] x_def h3_def h4_def h5_def) (simp add: h2_def x_def)
    have h3: "h2 = h3" if "r = a" using that by (simp add: h3_def)
    have "bigint_add h (Ref r) (Ref a) (Ref b) = Some (0, h5[r := bigint_remove_leading_zeros (add_result sgn' zs rest carry (h5 ! r))])"
      using 3 assms(1-3) len ab zs
      by (cases "r = a") (simp_all add: bigint_add_def Let_def bigint_item_count_def sg cnt m h3 del: big_modify_Ref)
    then show ?thesis using res prep(1,5) len assms(1) by (auto intro: only_changes_put grows_put)
  qed
qed

subsection \<open>Proper numbers\<close>

text \<open>
  Numbers with the sign of their value, whose flag is only set for negative numbers, and whose items
  are not all 0: in two's complement such items stand for minus a power of the radix, and
  changing to the magnitude loses that.
\<close>

definition proper :: "bigint_t \<Rightarrow> bool" where
  "proper b \<longleftrightarrow> wf_big b \<and> (sign b \<noteq> 0 \<longrightarrow> items_val (items b) \<noteq> 0) \<and> (sign b = 1 \<longrightarrow> \<not> neged_with_sign b)"

lemma proper_wf: "proper b \<Longrightarrow> wf_big b"
  by (simp add: proper_def)

lemma proper_sign: "proper b \<Longrightarrow> sign b = sgn (bval b)"
  using wf_sign [of b] bval_neg [of b] by (auto simp: proper_def bval_def sgn_if)

lemma magnitude_ok:
  assumes "proper b"
  shows "proper (big_magnitude b)" "bval (big_magnitude b) = bval b" "sign (big_magnitude b) = sign b"
    "sign b \<noteq> 0 \<Longrightarrow> \<not> neged_with_sign (big_magnitude b)" "sign b \<noteq> 0 \<Longrightarrow> int (items_val (items (big_magnitude b))) = \<bar>bval b\<bar>"
proof -
  have "proper (big_magnitude b) \<and> bval (big_magnitude b) = bval b \<and> sign (big_magnitude b) = sign b \<and>
      (sign b \<noteq> 0 \<longrightarrow> \<not> neged_with_sign (big_magnitude b))"
  proof (cases "sign b < 0 \<and> neged_with_sign b")
    case True
    then have "sign b = - 1" using wf_sign [of b] assms by (auto simp: proper_def)
    then show ?thesis using neg_with_sign_ok [of b True] assms True by (simp add: big_magnitude_def proper_def)
  next
    case False
    then show ?thesis using assms wf_sign [of b] by (auto simp: big_magnitude_def proper_def)
  qed
  then show all: "proper (big_magnitude b)" "bval (big_magnitude b) = bval b" "sign (big_magnitude b) = sign b"
    "sign b \<noteq> 0 \<Longrightarrow> \<not> neged_with_sign (big_magnitude b)" by auto
  show "int (items_val (items (big_magnitude b))) = \<bar>bval b\<bar>" if "sign b \<noteq> 0"
    using all that wf_sign [OF proper_wf [OF assms]] bval_def [of "big_magnitude b"] by auto
qed

lemma same_number_magnitude: "proper b \<Longrightarrow> same_number b (big_magnitude b)"
  using magnitude_ok(1-3) [of b] by (auto simp: same_number_def proper_def big_magnitude_def)

lemma bigint_eta [simp]: "\<lparr>items = items b, sign = sign b, neged_with_sign = neged_with_sign b\<rparr> = b"
  by (cases b) simp

subsection \<open>Negation\<close>

lemma bigint_neg_ok:
  assumes "r < length h" "a < length h" "proper (h ! a)" "r = a \<or> sign (h ! a) \<noteq> 0"
  shows "\<exists>h'. bigint_neg h (Ref r) (Ref a) = Some (0, h') \<and> only_changes r h h' \<and> proper (h' ! r) \<and> bval (h' ! r) = - bval (h ! a)"
proof -
  let ?x = "big_magnitude (h ! a)"
  note mag = magnitude_ok [OF assms(3)]
  have flip: "proper (?x\<lparr>sign := - sign ?x\<rparr>) \<and> bval (?x\<lparr>sign := - sign ?x\<rparr>) = - bval ?x"
    using mag(1,3,4) wf_sign [of ?x] by (auto simp: proper_def wf_big_def bval_def)
  have oc: "only_changes r h (h[a := ?x])"
    using same_number_magnitude [OF assms(3)] by (intro only_changes_repr) (simp_all add: assms)
  show ?thesis
  proof (cases "r = a")
    case True
    then show ?thesis
      using assms(1,2) flip mag(2) only_changes_put [OF oc] by (auto simp: bigint_neg_def)
  next
    case False
    have x: "items ?x \<noteq> []" using mag(1,3) False assms(4) by (simp add: proper_def wf_big_def)
    then have set: "bigint_set_bigint (h[a := ?x]) (Ref r) (Ref a) = Some (0, h[a := ?x, r := ?x])"
      using False assms(1,2) by (simp add: bigint_set_bigint_def Let_def)
    have "bigint_neg h (Ref r) (Ref a) = Some (0, h[a := ?x, r := ?x\<lparr>sign := - sign ?x\<rparr>])"
      using False assms(1,2,4) set by (simp add: bigint_neg_def on_success_def)
    then show ?thesis using flip mag(2) oc assms(1) by (auto intro: only_changes_put)
  qed
qed

subsection \<open>Subtraction\<close>

lemma big_align_eval:
  fixes k :: nat
  assumes "a < length h" "b < length h" "wf_big (h ! a)" "wf_big (h ! b)"
  defines "n \<equiv> max (length (items (h ! a))) (length (items (h ! b))) + k"
  shows "big_align h (Ref a) (Ref b) k =
    Some (h[a := bigint_sign_extend n (big_negate_negative (h ! a)), b := bigint_sign_extend n (big_negate_negative (h ! b))])"
proof (cases "a = b")
  case True
  then show ?thesis
    using assms(1,3) negate_negative_ok [OF assms(3)]
    by (simp add: big_align_def bigint_item_count_def n_def Let_def)
next
  case False
  then have "h[a := p, b := q, a := p'] = h[a := p', b := q]" for p q p' by (simp add: list_update_swap)
  with False show ?thesis
    using assms(1-4) negate_negative_ok(4) by (simp add: big_align_def bigint_item_count_def n_def Let_def)
qed

lemma bigint_sub_ok:
  assumes "r < length h" "a < length h" "b < length h" "wf_big (h ! a)" "wf_big (h ! b)"
    and "sign (h ! a) = sign (h ! b)" "sign (h ! a) \<noteq> 0" "bval (h ! b) \<le> bval (h ! a)"
  shows "\<exists>h'. bigint_sub h (Ref r) (Ref a) (Ref b) = Some (0, h') \<and> only_changes r h h' \<and>
    wf_big (h' ! r) \<and> bval (h' ! r) = bval (h ! a) - bval (h ! b) \<and> sign (h' ! r) = sgn (bval (h ! a) - bval (h ! b)) \<and>
    (r = a \<and> sign (h ! a) = 1 \<and> \<not> neged_with_sign (h ! a) \<longrightarrow> \<not> neged_with_sign (h' ! r))"
proof -
  define n where "n = max (length (items (h ! a))) (length (items (h ! b)))"
  define x y where "x = bigint_sign_extend n (big_negate_negative (h ! a))" and "y = bigint_sign_extend n (big_negate_negative (h ! b))"
  define h1 where "h1 = h[a := x, b := y]"
  define h2 where "h2 = (if a \<noteq> r then h1[r := bigint_sign_extend n (h1 ! r)] else h1)"
  note nn = negate_negative_ok and ext = sign_extend_ok
  have x: "wf_big x" "bval x = bval (h ! a)" "sign x = sign (h ! a)" "length (items x) = n"
    and y: "wf_big y" "bval y = bval (h ! b)" "sign y = sign (h ! b)" "length (items y) = n"
    using nn ext assms(4,5) by (auto simp: x_def y_def n_def)
  have ab: "h1 ! a = x" "h1 ! b = y" using assms(2,3) by (auto simp: h1_def x_def y_def nth_list_update)
  have h2: "h2 ! a = x" "items (h2 ! b) = items y" "length h1 = length h" "length h2 = length h" "n \<le> length (items (h2 ! r))"
    using ab assms(1-3) x(4) by (auto simp: h2_def h1_def sign_extend_length nth_list_update sign_extend_alt [of n y] y(4))
  have oc: "only_changes r h h2"
  proof -
    have "same_number (h ! a) x" "same_number (h ! b) y" by (simp_all add: x_def y_def)
    then have "only_changes r h h1" unfolding h1_def
      by (intro only_changes_repr only_changes_refl) (use assms(1-3) x_def y_def in \<open>auto simp: nth_list_update\<close>)
    then show ?thesis by (auto simp: h2_def intro: only_changes_put)
  qed
  have ok: "items_ok (items x)" "items_ok (items y)" using x(1) y(1) by (auto simp: wf_big_def)
  obtain zs br where zs: "sub_items False (items x) (items y) (items (h2 ! r)) = Some (zs @ map (\<lambda>_. 0) (drop n (items (h2 ! r))), br)"
      "items_ok zs" "length zs = n" "items_val zs + items_val (items y) = items_val (items x) + radix n * of_bool br"
    using sub_items_ok [OF ok, of "items (h2 ! r)" False] x(4) y(4) h2(5) by auto
  have diff: "int (items_val (items x)) - int (items_val (items y)) = bval (h ! a) - bval (h ! b)"
  proof -
    consider "sign (h ! a) = 1" | "sign (h ! a) = - 1" using wf_sign [OF assms(4)] assms(7) by auto
    then show ?thesis
    proof cases
      case 1
      then show ?thesis using x(2,3) y(2,3) assms(6) by (simp add: bval_def)
    next
      case 2
      then have "neged_with_sign x" "neged_with_sign y" using nn(3,5) ext(5) assms(4-6) nn(1) by (auto simp: x_def y_def)
      then show ?thesis using 2 x y assms(6) by (simp add: bval_def neg_val_def)
    qed
  qed
  then have "items_val (items y) \<le> items_val (items x)" using assms(8) by simp
  then have "\<not> br" using zs(4) items_val_less [OF zs(2)] zs(3) by (cases br) auto
  with zs(4) diff have v: "int (items_val zs) = bval (h ! a) - bval (h ! b)" by simp
  let ?r = "(h2 ! r)\<lparr>items := zs @ map (\<lambda>_. 0) (drop n (items (h2 ! r))), sign := 1\<rparr>"
  have "bigint_sub h (Ref r) (Ref a) (Ref b) = Some (0, h2[r := bigint_remove_leading_zeros ?r])"
  proof -
    have "big_align h (Ref a) (Ref b) 0 = Some h1"
      using big_align_eval [OF assms(2-5), of 0] by (simp add: h1_def x_def y_def n_def)
    moreover have "a \<noteq> r \<Longrightarrow> big_modify h1 (Ref r) (bigint_sign_extend n) = Some h2" "a = r \<Longrightarrow> h1 = h2"
      using assms(1) h2(3) by (simp_all add: h2_def)
    moreover have "sign (h ! b) \<noteq> 0" using assms(6,7) by simp
    ultimately show ?thesis
      using assms(1-3,7) h2 zs(1) \<open>\<not> br\<close>
      by (cases "a = r") (simp_all add: bigint_sub_def Let_def bigint_item_count_def n_def [symmetric] del: big_modify_Ref)
  qed
  moreover have "wf_big (bigint_remove_leading_zeros ?r)" "bval (bigint_remove_leading_zeros ?r) = bval (h ! a) - bval (h ! b)"
      "sign (bigint_remove_leading_zeros ?r) = sgn (bval (h ! a) - bval (h ! b))"
    using remove_zeros_pos [of ?r] zs(2) v assms(8) by (auto simp: sgn_if)
  moreover have "neged_with_sign (bigint_remove_leading_zeros ?r) \<longrightarrow> neged_with_sign (h2 ! r)"
    by (simp add: bigint_remove_leading_zeros_def Let_def)
  moreover have "\<not> neged_with_sign (h2 ! r)" if "r = a" "sign (h ! a) = 1" "\<not> neged_with_sign (h ! a)"
    using that h2(1) by (simp add: x_def big_negate_negative_def sign_extend_alt Let_def)
  ultimately show ?thesis using oc h2(4) assms(1) by (auto intro: only_changes_put)
qed

end
