(* ===== verification/BigInt_Cmp.thy ===== *)
theory BigInt_Cmp
  imports BigInt_Sum
begin

text \<open>
  Comparison of big integers and the number of their bits.
\<close>

subsection \<open>The most significant bit\<close>

lemma msb_index_bounds: "0 < n \<Longrightarrow> 2 ^ msb_index n \<le> n \<and> n < 2 ^ Suc (msb_index n)"
proof (induction n rule: msb_index.induct)
  case (1 n)
  show ?case
  proof (cases "n < 2")
    case False
    then have ih: "2 ^ msb_index (n div 2) \<le> n div 2" "n div 2 < 2 ^ Suc (msb_index (n div 2))" using "1.IH" by simp_all
    have "2 * 2 ^ msb_index (n div 2) \<le> n" "n < 2 * 2 ^ Suc (msb_index (n div 2))" using ih by linarith+
    then show ?thesis using False by (simp add: msb_index.simps [of n])
  qed (use 1 in simp)
qed

declare msb_index.simps [simp del]

lemma msb_index_eq: "2 ^ k \<le> n \<Longrightarrow> n < 2 ^ Suc k \<Longrightarrow> msb_index n = k"
proof -
  assume a: "2 ^ k \<le> n" "n < 2 ^ Suc k"
  have "0 < n" using a(1) by (cases n) auto
  then have n: "2 ^ msb_index n \<le> n" "n < 2 ^ Suc (msb_index n)" using msb_index_bounds [of n] by auto
  have "k < Suc (msb_index n)" by (rule power_less_imp_less_exp [OF _ order.strict_trans1 [OF a(1) n(2)]]) simp
  moreover have "msb_index n < Suc k" by (rule power_less_imp_less_exp [OF _ order.strict_trans1 [OF n(1) a(2)]]) simp
  ultimately show ?thesis by simp
qed

lemma msb_index_less_iff: "0 < m \<Longrightarrow> 0 < n \<Longrightarrow> msb_index m < msb_index n \<Longrightarrow> m < n"
proof -
  assume a: "0 < m" "0 < n" "msb_index m < msb_index n"
  then have "m < 2 ^ Suc (msb_index m)" "2 ^ msb_index n \<le> n"
    using msb_index_bounds by blast+
  moreover have "(2 :: nat) ^ Suc (msb_index m) \<le> 2 ^ msb_index n" using a(3) by (intro power_increasing) simp_all
  ultimately show ?thesis by linarith
qed

lemma items_val_bits:
  assumes "items_ok (ys @ [t])" "t \<noteq> 0"
  shows "msb_index (items_val (ys @ [t])) = msb_index (unat t) + 48 * length ys"
proof (rule msb_index_eq)
  let ?k = "msb_index (unat t)"
  have t: "2 ^ ?k \<le> unat t" "unat t < 2 ^ Suc ?k" using msb_index_bounds [of "unat t"] assms(2) by (auto simp: unat_gt_0)
  have ys: "items_val ys < radix (length ys)" using items_val_less assms(1) by simp
  have e: "items_val (ys @ [t]) = items_val ys + radix (length ys) * unat t" by simp
  have r: "2 ^ (?k + 48 * length ys) = radix (length ys) * 2 ^ ?k" by (simp add: radix_def power_add)
  have "radix (length ys) * 2 ^ ?k \<le> radix (length ys) * unat t" using t(1) by (rule mult_le_mono2)
  then show "2 ^ (?k + 48 * length ys) \<le> items_val (ys @ [t])" unfolding r e by linarith
  have "radix (length ys) * (unat t + 1) \<le> radix (length ys) * 2 ^ Suc ?k" using t(2) by (intro mult_le_mono2) simp
  then show "items_val (ys @ [t]) < 2 ^ Suc (?k + 48 * length ys)" unfolding power_Suc r e using ys by (simp add: algebra_simps)
qed

lemma strip_zeros_snoc:
  assumes "items_ok xs" "items_val xs \<noteq> 0"
  obtains ys t where "strip_zeros xs = ys @ [t]" "t \<noteq> 0" "items_ok (ys @ [t])" "items_val (ys @ [t]) = items_val xs"
proof -
  have "strip_zeros xs \<noteq> []" using assms(2) by simp
  then obtain ys t where s: "strip_zeros xs = ys @ [t]" by (cases "strip_zeros xs" rule: rev_cases) auto
  then have "t \<noteq> 0" using strip_zeros_last [of xs] by simp
  then show thesis using that s strip_zeros_ok [OF assms(1)] strip_zeros_val [of xs] by metis
qed

lemma bit_length_eq:
  assumes "items_ok (items b)" "sign b \<noteq> 0"
  shows "bigint_bit_length b = msb_index (items_val (items b))"
proof (cases "items_val (items b) = 0")
  case True
  then have "strip_zeros (items b) = []" by simp
  then show ?thesis using True by (simp add: bigint_bit_length_def msb_index.simps [of 0] del: strip_zeros_Nil)
next
  case False
  then obtain ys t where s: "strip_zeros (items b) = ys @ [t]" "t \<noteq> 0" "items_ok (ys @ [t])" "items_val (ys @ [t]) = items_val (items b)"
    using strip_zeros_snoc [OF assms(1)] by metis
  then show ?thesis using assms(2) items_val_bits [OF s(3,2)]
    by (simp add: bigint_bit_length_def bit_most_significant_def)
qed

subsection \<open>Comparison\<close>

lemma sgn_int_diff: "sgn (int p - int q) = (if p < q then - 1 else if q < p then 1 else 0)"
  by (simp add: sgn_if)

lemma leading_item:
  assumes "(u :: nat) < R" "v < R"
  shows "sgn (int (u + R * x) - int (v + R * y)) = (if x < y then - 1 else if y < x then 1 else sgn (int u - int v))"
proof -
  have "u + R * x < v + R * y" if "x < y" "u < R" for u v x y :: nat
  proof -
    have "u + R * x < R * (x + 1)" using that(2) by simp
    also have "\<dots> \<le> R * y" using that(1) by (intro mult_le_mono2) simp
    finally show ?thesis by simp
  qed
  from this [of x y u v] this [of y x v u] show ?thesis
    using assms by (cases x y rule: linorder_cases) (simp_all add: sgn_int_diff del: of_nat_add)
qed

lemma cmp_items_ok:
  assumes "length us = length vs" "items_ok us" "items_ok vs"
  shows "cmp_items s us vs = s * sgn (int (items_val (rev us)) - int (items_val (rev vs)))"
  using assms
proof (induction us vs rule: list_induct2)
  case (Cons x us y vs)
  have "items_val (rev us) < radix (length us)" "items_val (rev vs) < radix (length us)"
    using items_val_less [of "rev us"] items_val_less [of "rev vs"] Cons by auto
  from leading_item [OF this, of "unat x" "unat y"] show ?case
    using Cons by (auto simp: word_less_nat_alt)
qed simp

lemma cmp_magnitudes:
  assumes "items_ok xs" "items_ok ys" "items_val xs \<noteq> 0" "items_val ys \<noteq> 0"
  shows "(if msb_index (items_val xs) < msb_index (items_val ys) then - s
    else if msb_index (items_val ys) < msb_index (items_val xs) then s
    else cmp_items s (rev (strip_zeros xs)) (rev (strip_zeros ys))) = s * sgn (int (items_val xs) - int (items_val ys))"
proof -
  obtain us t where us: "strip_zeros xs = us @ [t]" "t \<noteq> 0" "items_ok (us @ [t])" "items_val (us @ [t]) = items_val xs"
    using strip_zeros_snoc [OF assms(1,3)] by metis
  obtain vs u where vs: "strip_zeros ys = vs @ [u]" "u \<noteq> 0" "items_ok (vs @ [u])" "items_val (vs @ [u]) = items_val ys"
    using strip_zeros_snoc [OF assms(2,4)] by metis
  have small: "msb_index (unat w) < 48" if "unat w < 2 ^ 48" "w \<noteq> 0" for w :: u64
  proof -
    have "(2 :: nat) ^ msb_index (unat w) < 2 ^ 48" using msb_index_bounds [of "unat w"] that by (auto simp: unat_gt_0 intro: order.strict_trans1)
    then show ?thesis by (rule power_less_imp_less_exp [rotated]) simp
  qed
  consider "msb_index (items_val xs) < msb_index (items_val ys)" | "msb_index (items_val ys) < msb_index (items_val xs)"
    | "msb_index (items_val xs) = msb_index (items_val ys)" by linarith
  then show ?thesis
  proof cases
    case 1
    then show ?thesis using msb_index_less_iff [of "items_val xs" "items_val ys"] assms(3,4) by (simp add: sgn_if)
  next
    case 2
    then show ?thesis using msb_index_less_iff [of "items_val ys" "items_val xs"] assms(3,4) by (simp add: sgn_if)
  next
    case 3
    then have "msb_index (unat t) + 48 * length us = msb_index (unat u) + 48 * length vs"
      using items_val_bits [OF us(3,2)] items_val_bits [OF vs(3,2)] us(4) vs(4) by simp
    then have "length us = length vs" using small [of t] small [of u] us(2,3) vs(2,3) by simp
    then show ?thesis
      using 3 cmp_items_ok [of "rev (strip_zeros xs)" "rev (strip_zeros ys)" s] us vs strip_zeros_ok [OF assms(1)] strip_zeros_ok [OF assms(2)]
      by (simp only: rev_rev_ident strip_zeros_val items_ok_simps length_rev) simp
  qed
qed

lemma bigint_cmp_ok:
  assumes "a < length h" "b < length h" "proper (h ! a)" "proper (h ! b)"
  shows "\<exists>h'. bigint_cmp h (Ref a) (Ref b) = Some (sgn (bval (h ! a) - bval (h ! b)), h') \<and>
    length h' = length h \<and> (\<forall>i<length h. h' ! i = h ! i \<or> h' ! i = big_magnitude (h ! i))"
proof -
  let ?x = "big_magnitude (h ! a)" and ?y = "big_magnitude (h ! b)"
  note sg = proper_sign [OF assms(3)] proper_sign [OF assms(4)]
  consider "sign (h ! a) < sign (h ! b)" | "sign (h ! b) < sign (h ! a)" | "sign (h ! a) = sign (h ! b)" "sign (h ! a) = 0"
    | "sign (h ! a) = sign (h ! b)" "sign (h ! a) \<noteq> 0" by linarith
  then show ?thesis
  proof cases
    case 4
    note ma = magnitude_ok [OF assms(3)] and mb = magnitude_ok [OF assms(4)]
    have idem: "big_magnitude ?y = ?y" using mb(3,4) 4 by (simp add: big_magnitude_def [of ?y])
    define h2 where "h2 = h[a := ?x, b := ?y]"
    have ev: "big_modify h (Ref a) big_magnitude = Some (h[a := ?x])" "big_modify (h[a := ?x]) (Ref b) big_magnitude = Some h2"
      using assms(1,2) idem by (auto simp: h2_def nth_list_update)
    have get: "h2 ! a = ?x" "h2 ! b = ?y" "length h2 = length h" using assms(1,2) by (auto simp: h2_def nth_list_update)
    have ok: "items_ok (items ?x)" "items_ok (items ?y)" "items_val (items ?x) \<noteq> 0" "items_val (items ?y) \<noteq> 0" "sign ?x \<noteq> 0" "sign ?y \<noteq> 0"
      using ma(1,3) mb(1,3) 4 by (auto simp: proper_def wf_big_def)
    have "sign ?x * sgn (int (items_val (items ?x)) - int (items_val (items ?y))) = sgn (bval (h ! a) - bval (h ! b))"
      using ma(3,5) mb(3,5) 4 sg by (auto simp: sgn_if split: if_splits)
    then have "bigint_cmp h (Ref a) (Ref b) = Some (sgn (bval (h ! a) - bval (h ! b)), h2)"
      using cmp_magnitudes [OF ok(1-4), of "sign ?x"] 4 assms(1,2) ev get ok bit_length_eq
      by (simp add: bigint_cmp_def Let_def del: big_modify_Ref split: if_splits)
    then show ?thesis using assms(1,2) by (auto simp: h2_def nth_list_update)
  qed (use assms sg in \<open>auto simp: bigint_cmp_def sgn_if split: if_splits\<close>)
qed

end
