(* ===== verification/BigInt_Mul.thy ===== *)
theory BigInt_Mul
  imports BigInt_Cmp
begin

text \<open>
  Products of big integers: the left shift by whole items, one row of the schoolbook
  multiplication, and the loop over the rows.
\<close>

subsection \<open>Shifting to the left in place\<close>

lemma wf_nonneg: "wf_big b \<Longrightarrow> 0 \<le> bval b \<Longrightarrow> sign b = 0 \<or> sign b = 1"
  using wf_sign [of b] bval_neg [of b] by auto

lemma or_low_bits: "unat (c :: u64) < 2 ^ k \<Longrightarrow> push_bit k x OR c = push_bit k x + c"
proof -
  assume "unat c < 2 ^ k"
  then have "take_bit k c = c" by (simp add: word_unat_eq_iff unsigned_take_bit_eq take_bit_nat_eq_self_iff)
  then have lt: "n < k" if "bit c n" for n using that bit_take_bit_iff [of k c n] by simp
  have "push_bit k x AND c = 0" by (rule bit_eqI) (auto simp: bit_simps dest: lt)
  then show ?thesis by (simp add: disjunctive_add_eq_or)
qed

lemma shl_word:
  assumes "unat x < 2 ^ 48" "unat (c :: u64) < 2 ^ k" "k < 48"
  shows "unat ((push_bit k x OR c) AND BIGINT_ITEM_MAX) + 2 ^ 48 * unat (drop_bit (48 - k) x) = 2 ^ k * unat x + unat c"
    "unat (drop_bit (48 - k) x) < 2 ^ k"
proof -
  have p: "(2 :: nat) ^ 48 = 2 ^ k * 2 ^ (48 - k)" using assms(3) by (simp flip: power_add)
  have "unat (push_bit k x) = (2 ^ k * unat x) mod 2 ^ 64"
    by (simp only: unsigned_push_bit_eq take_bit_eq_mod) (simp add: push_bit_eq_mult mult.commute)
  then have "unat (push_bit k x + c) = (2 ^ k * unat x + unat c) mod 2 ^ 64"
    by (simp add: unat_word_ariths mod_simps)
  then have "unat ((push_bit k x OR c) AND BIGINT_ITEM_MAX) = (2 ^ k * unat x + unat c) mod 2 ^ 48"
    by (simp add: or_low_bits [OF assms(2)] mod_mod_cancel)
  moreover have "(2 ^ k * unat x + unat c) div 2 ^ k = unat x" using assms(2) by simp
  then have "(2 ^ k * unat x + unat c) div 2 ^ 48 = unat x div 2 ^ (48 - k)" unfolding p div_mult2_eq by simp
  ultimately show "unat ((push_bit k x OR c) AND BIGINT_ITEM_MAX) + 2 ^ 48 * unat (drop_bit (48 - k) x) = 2 ^ k * unat x + unat c"
    by (metis unat_drop_item mod_mult_div_eq)
  show "unat (drop_bit (48 - k) x) < 2 ^ k" using assms(1) unfolding p by (simp add: less_mult_imp_div_less)
qed

lemma shl_items_ok:
  assumes "items_ok xs" "length xs \<le> length rs" "k < 48" "unat c < 2 ^ k"
  shows "\<exists>ys c'. shl_items k c xs rs = Some (ys, drop (length xs) rs, c') \<and> items_ok ys \<and> length ys = length xs \<and>
    items_val ys + radix (length xs) * unat c' = 2 ^ k * items_val xs + unat c"
  using assms
proof (induction xs arbitrary: c rs)
  case (Cons x xs)
  obtain r rs' where rs: "rs = r # rs'" using Cons.prems(2) by (cases rs) auto
  let ?d = "drop_bit (48 - k) x" and ?z = "(push_bit k x OR c) AND BIGINT_ITEM_MAX"
  note w = shl_word [of x c k]
  obtain ys c' where ys: "shl_items k ?d xs rs' = Some (ys, drop (length xs) rs', c')" "items_ok ys" "length ys = length xs"
      "items_val ys + radix (length xs) * unat c' = 2 ^ k * items_val xs + unat ?d"
    using Cons.IH [of rs' ?d] Cons.prems rs w by auto
  have z: "unat ?z < 2 ^ 48" by (simp only: unat_and_max) simp
  have z1: "unat ?z + 2 ^ 48 * unat ?d = 2 ^ k * unat x + unat c" using w Cons.prems by simp
  have "unat ?z + 281474976710656 * items_val ys + 281474976710656 * (radix (length xs) * unat c') =
      2 ^ k * (unat x + 281474976710656 * items_val xs) + unat c"
    using z1 arg_cong [OF ys(4), of "\<lambda>n. 281474976710656 * n"] by (simp add: algebra_simps del: unat_and_max unat_drop_item)
  then show ?case using ys rs z by (simp add: algebra_simps del: unat_and_max unat_drop_item)
qed simp

lemma round_up: "n \<le> 48 * (n div 48 + (if n mod 48 \<noteq> 0 then 1 else (0 :: nat)))"
  using mult_div_mod_eq [of 48 n] mod_less_divisor [of 48 n] by (auto simp del: mult_div_mod_eq)

lemma bit_length_room:
  assumes "items_ok (items b)" "sign b \<noteq> 0"
  shows "2 ^ (k mod 48) * items_val (items b) < radix (shl_item_count k b)"
proof -
  let ?m = "msb_index (items_val (items b))" and ?s = "k mod 48"
  have bl: "bigint_bit_length b = ?m" using bit_length_eq assms by simp
  have "items_val (items b) < 2 ^ Suc ?m"
    using msb_index_bounds [of "items_val (items b)"] by (cases "items_val (items b) = 0") simp_all
  then have "2 ^ ?s * items_val (items b) < 2 ^ ?s * 2 ^ Suc ?m" by simp
  also have "\<dots> = 2 ^ (?m + ?s + 1)" by (simp add: power_add)
  also have "\<dots> \<le> 2 ^ (48 * shl_item_count k b)"
    using round_up [of "?m + ?s + 1"] by (intro power_increasing) (simp_all only: shl_item_count_def bl Let_def BIGINT_ITEM_BITS_def one_le_numeral)
  finally show ?thesis by (simp add: radix_def)
qed

lemma bigint_shl_inplace_ok:
  assumes "r < length h" "wf_big (h ! r)" "0 \<le> bval (h ! r)"
  shows "\<exists>b. bigint_shl h (Ref r) (Ref r) (int k) = Some (0, h[r := b]) \<and> wf_big b \<and> bval b = 2 ^ k * bval (h ! r) \<and>
    sign b = sign (h ! r) \<and> neged_with_sign b = neged_with_sign (h ! r)"
proof (cases "sign (h ! r) = 0")
  case True
  then show ?thesis using assms by (intro exI [of _ "h ! r"]) (simp add: bigint_shl_def bval_def)
next
  case False
  then have s: "sign (h ! r) = 1" using wf_nonneg assms by blast
  define n where "n = shl_item_count k (h ! r)"
  define x where "x = bigint_sign_extend n (h ! r)"
  note ext = sign_extend_ok [OF assms(2), of n, folded x_def]
  have val: "items_val (items x) = items_val (items (h ! r))" using ext(2,3) s by (simp add: bval_def)
  have ok: "items_ok (items x)" "items x \<noteq> []" using ext(1,3) s by (auto simp: wf_big_def)
  have ng: "neged_with_sign x = neged_with_sign (h ! r)" using s by (simp add: x_def sign_extend_alt big_negate_negative_def Let_def)
  obtain ys c where ys: "shl_items (k mod 48) 0 (items x) (items x) = Some (ys, [], c)" "items_ok ys" "length ys = length (items x)"
      "items_val ys + radix (length ys) * unat c = 2 ^ (k mod 48) * items_val (items x)"
    using shl_items_ok [of "items x" "items x" "k mod 48" 0] ok by auto
  have "2 ^ (k mod 48) * items_val (items x) < radix n"
    using bit_length_room [of "h ! r" k] assms(2) s val by (simp add: n_def wf_big_def)
  also have "\<dots> \<le> radix (length ys)" using ys(3) ext(4) by (intro radix_mono) simp
  finally have "radix (length ys) * unat c < radix (length ys)" using ys(4) by linarith
  then have c: "c = 0" by (simp add: unat_eq_zero)
  let ?b = "x\<lparr>items := replicate (k div 48) 0 @ ys\<rparr>"
  have "radix (k div 48) * 2 ^ (k mod 48) = (2 :: nat) ^ k" by (simp add: radix_def power_add [symmetric])
  then have "radix (k div 48) * items_val ys = 2 ^ k * items_val (items x)"
    using ys(4) c by (simp add: mult.assoc [symmetric])
  then have "int (radix (k div 48)) * int (items_val ys) = 2 ^ k * int (items_val (items x))"
    by (metis of_nat_mult of_nat_numeral of_nat_power)
  then have "bval ?b = 2 ^ k * bval (h ! r)" using ext(3) s val by (simp add: bval_def)
  moreover have "wf_big ?b" using ys(2,3) ok ext(3) s by (auto simp: wf_big_def)
  moreover have "(h ! r)\<lparr>sign := 1\<rparr> = h ! r" using s by (cases "h ! r") simp
  then have same: "bigint_sign_extend n ((h ! r)\<lparr>sign := 1\<rparr>) = x" by (simp only: x_def)
  have "bigint_shl h (Ref r) (Ref r) (int k) = Some (0, h[r := ?b])"
    using assms(1) s ys(1) c ext(3)
    by (simp add: bigint_shl_def shl_left_def shl_number_def Let_def n_def [symmetric] same BIGINT_ITEM_BITS_def)
  ultimately show ?thesis using ext(3) s ng by (intro exI [of _ ?b]) simp
qed

subsection \<open>Multiplication\<close>

lemma mul_row_word:
  fixes v y :: u64 and c :: u128
  assumes "unat v < 2 ^ 48" "unat y < 2 ^ 48" "unat c < 2 ^ 48"
  defines "w \<equiv> ucast v * ucast y + c"
  shows "unat (drop_bit 48 w) < 2 ^ 48" "unat (ucast (w AND ucast BIGINT_ITEM_MAX) :: u64) < 2 ^ 48"
    "unat (ucast (w AND ucast BIGINT_ITEM_MAX) :: u64) + 2 ^ 48 * unat (drop_bit 48 w) = unat v * unat y + unat c"
proof -
  have "unat v * unat y \<le> (2 ^ 48 - 1) * (2 ^ 48 - 1)" using assms(1,2) by (intro mult_le_mono) simp_all
  then have b: "unat v * unat y + unat c < 2 ^ 96" using assms(3) by simp
  have "unat (ucast v :: u128) = unat v" "unat (ucast y :: u128) = unat y" using assms(1,2) by (simp_all add: unsigned_ucast_eq take_bit_nat_eq_self)
  then have w: "unat w = unat v * unat y + unat c" using b by (simp add: w_def unat_word_ariths)
  have d: "unat (drop_bit 48 w) = unat w div 2 ^ 48" by (simp only: unat_drop_bit_eq) (simp add: drop_bit_eq_div)
  then show "unat (drop_bit 48 w) < 2 ^ 48" using b w by (simp add: less_mult_imp_div_less)
  have "(ucast BIGINT_ITEM_MAX :: u128) = mask 48" by (simp add: BIGINT_ITEM_MAX_def mask_eq_exp_minus_1)
  then have "w AND ucast BIGINT_ITEM_MAX = take_bit 48 w" by (simp only: take_bit_eq_mask)
  then have l: "unat (ucast (w AND ucast BIGINT_ITEM_MAX) :: u64) = unat w mod 2 ^ 48"
    by (simp only: unsigned_ucast_eq unsigned_take_bit_eq take_bit_take_bit) (simp add: take_bit_eq_mod)
  then show "unat (ucast (w AND ucast BIGINT_ITEM_MAX) :: u64) < 2 ^ 48" by simp
  show "unat (ucast (w AND ucast BIGINT_ITEM_MAX) :: u64) + 2 ^ 48 * unat (drop_bit 48 w) = unat v * unat y + unat c"
    unfolding l d w [symmetric] by simp
qed

lemma mul_row_ok:
  assumes "unat v < 2 ^ 48" "items_ok ys" "length ys < length rs" "unat c < 2 ^ 48"
  shows "\<exists>zs. mul_row v c ys rs = Some zs \<and> items_ok zs \<and> length zs = length rs \<and> items_val zs = unat v * items_val ys + unat c"
  using assms(2-4)
proof (induction ys arbitrary: c rs)
  case Nil
  then obtain r rs' where rs: "rs = r # rs'" by (cases rs) auto
  have "unat (ucast c :: u64) = unat c" using Nil by (simp add: unsigned_ucast_eq take_bit_nat_eq_self)
  then show ?case using Nil rs by simp
next
  case (Cons y ys)
  obtain r rs' where rs: "rs = r # rs'" using Cons.prems(2) by (cases rs) auto
  define w :: u128 where "w = ucast v * ucast y + c"
  have y: "unat y < 2 ^ 48" using Cons.prems(1) by simp
  note row = mul_row_word [OF assms(1) y Cons.prems(3), folded w_def]
  obtain zs where zs: "mul_row v (drop_bit 48 w) ys rs' = Some zs" "items_ok zs" "length zs = length rs'"
      "items_val zs = unat v * items_val ys + unat (drop_bit 48 w)"
    using Cons.IH [of rs' "drop_bit 48 w"] Cons.prems row(1) rs by auto
  define z where "z = (ucast (w AND ucast BIGINT_ITEM_MAX) :: u64)"
  have "unat z + 281474976710656 * items_val zs = unat v * (unat y + 281474976710656 * items_val ys) + unat c"
    using row(3) zs(4) by (simp add: z_def [symmetric] algebra_simps)
  moreover have "mul_row v c (y # ys) rs = Some (z # zs)"
    using zs(1) by (simp add: rs w_def [symmetric] z_def [symmetric] BIGINT_ITEM_BITS_def)
  ultimately show ?case using zs(2,3) row(2) rs by (simp add: z_def [symmetric])
qed

lemma mul_loop_ok:
  assumes "b \<noteq> t" "b \<noteq> w" "t \<noteq> w" "b < length h" "t < length h" "w < length h" "items_ok vs" "items_ok (items (h ! b))"
    and "wf_big (h ! t)" "0 \<le> bval (h ! t)" "wf_big (h ! w)" "sign (h ! w) = 1" "length (items (h ! b)) < length (items (h ! w))"
  shows "\<exists>h'. mul_loop (Ref b) (Ref t) (Ref w) vs h = Some (0, h') \<and> length h' = length h \<and>
    (\<forall>i<length h. i \<noteq> t \<longrightarrow> i \<noteq> w \<longrightarrow> h' ! i = h ! i) \<and> wf_big (h' ! t) \<and>
    bval (h' ! t) = int (radix (length vs)) * bval (h ! t) + int (items_val (rev vs) * items_val (items (h ! b)))"
  using assms(4-)
proof (induction vs arbitrary: h)
  case (Cons v vs)
  let ?y = "items (h ! b)"
  obtain zs where zs: "mul_row v 0 ?y (items (h ! w)) = Some zs" "items_ok zs" "length zs = length (items (h ! w))"
      "items_val zs = unat v * items_val ?y"
    using mul_row_ok [of v ?y "items (h ! w)" 0] Cons.prems by auto
  define h0 where "h0 = h[w := (h ! w)\<lparr>items := zs\<rparr>]"
  have t0: "h0 ! t = h ! t" "t < length h0" using assms(3) Cons.prems by (simp_all add: h0_def)
  obtain s where s: "bigint_shl h0 (Ref t) (Ref t) 48 = Some (0, h0[t := s])" "wf_big s" "bval s = 2 ^ 48 * bval (h ! t)"
    using bigint_shl_inplace_ok [of t h0 48] t0 Cons.prems by auto
  define h1 where "h1 = h0[t := s]"
  have w1: "h1 ! w = (h ! w)\<lparr>items := zs\<rparr>" "h1 ! t = s" "length h1 = length h" using assms(3) Cons.prems by (simp_all add: h1_def h0_def)
  have "wf_big (h1 ! w)" "bval (h1 ! w) = int (unat v * items_val ?y)"
    using Cons.prems zs w1 by (auto simp: wf_big_def bval_def)
  then obtain h2 where h2: "bigint_add h1 (Ref t) (Ref t) (Ref w) = Some (0, h2)" "only_changes t h1 h2" "wf_big (h2 ! t)"
      "bval (h2 ! t) = 2 ^ 48 * bval (h ! t) + int (unat v * items_val ?y)" "grows t t w h1 h2"
    using bigint_add_ok [of t h1 t w] s w1 Cons.prems by auto
  have len: "length h2 = length h" using h2(2) w1 by (simp add: only_changes_def)
  have w2: "wf_big (h2 ! w)" "sign (h2 ! w) = 1" "length (items (h ! w)) \<le> length (items (h2 ! w))"
    using h2(2,5) w1 assms(3) Cons.prems \<open>wf_big (h1 ! w)\<close> zs(3) by (auto simp: only_changes_def same_number_def grows_def)
  have other: "h2 ! i = h ! i" if "i < length h" "i \<noteq> t" "i \<noteq> w" for i
    using h2(5) w1(3) that by (simp add: grows_def h1_def h0_def)
  have b2: "h2 ! b = h ! b" using other assms(1,2) Cons.prems by simp
  obtain h3 where h3: "mul_loop (Ref b) (Ref t) (Ref w) vs h2 = Some (0, h3)" "length h3 = length h"
      "\<forall>i<length h. i \<noteq> t \<longrightarrow> i \<noteq> w \<longrightarrow> h3 ! i = h2 ! i" "wf_big (h3 ! t)"
      "bval (h3 ! t) = int (radix (length vs)) * bval (h2 ! t) + int (items_val (rev vs) * items_val ?y)"
    using Cons.IH [of h2] Cons.prems len w2 b2 h2(3,4) by auto
  have "mul_loop (Ref b) (Ref t) (Ref w) (v # vs) h = Some (0, h3)"
    using zs(1) s(1) h2(1) h3(1) Cons.prems by (simp add: h0_def [symmetric] h1_def [symmetric] BIGINT_ITEM_BITS_def on_success_def)
  moreover have "bval (h3 ! t) = int (radix (length (v # vs))) * bval (h ! t) + int (items_val (rev (v # vs)) * items_val ?y)"
    unfolding h3(5) h2(4) by (simp add: algebra_simps)
  ultimately show ?case using h3(2-4) other by auto
qed simp

lemma magnitude_idem: "proper b \<Longrightarrow> big_magnitude (big_magnitude b) = big_magnitude b"
  using magnitude_ok(3,4) [of b] by (auto simp: big_magnitude_def [of "big_magnitude b"])

lemma set_bigint_eval:
  assumes "r < length h" "a < length h" "wf_big (h ! a)"
  shows "bigint_set_bigint h (Ref r) (Ref a) = Some (0, h[r := h ! a])"
proof -
  have "(if items (h ! a) = [] \<and> items (h ! r) \<noteq> [] then 0 else sign (h ! a)) = sign (h ! a)"
    using assms(3) by (auto simp: wf_big_def)
  then show ?thesis using assms(1,2) by (simp add: bigint_set_bigint_def Let_def)
qed

text \<open>Operands may change from two's complement to their magnitude, and other numbers stay as they are.\<close>

definition magnitudes :: "nat \<Rightarrow> bigints \<Rightarrow> bigints \<Rightarrow> bool" where
  "magnitudes r h h' \<longleftrightarrow> length h' = length h \<and> (\<forall>i<length h. i \<noteq> r \<longrightarrow> h' ! i = h ! i \<or> h' ! i = big_magnitude (h ! i))"

lemma magnitudes_proper:
  "magnitudes r h h' \<Longrightarrow> i < length h \<Longrightarrow> i \<noteq> r \<Longrightarrow> proper (h ! i) \<Longrightarrow> proper (h' ! i) \<and> bval (h' ! i) = bval (h ! i) \<and> sign (h' ! i) = sign (h ! i)"
  using magnitude_ok(1-3) [of "h ! i"] by (auto simp: magnitudes_def)

lemma mul_core:
  assumes "t < length h" "a < length h" "b < length h" "t \<noteq> a" "t \<noteq> b" "h ! t = bigint_zero"
    and "proper (h ! a)" "proper (h ! b)" "sign (h ! a) \<noteq> 0" "sign (h ! b) \<noteq> 0"
  defines "h3 \<equiv> h[a := big_magnitude (h ! a), b := big_magnitude (h ! b)]"
  defines "row \<equiv> (bigint_sign_extend (length (items (h3 ! b)) + 1) bigint_zero)\<lparr>sign := 1\<rparr>"
  shows "\<exists>h6. mul_loop (Ref b) (Ref t) (Ref (length h)) (rev (items (h3 ! a))) (h3 @ [row]) = Some (0, h6) \<and>
    length h6 = Suc (length h) \<and> (\<forall>i<length h. i \<noteq> t \<longrightarrow> h6 ! i = h3 ! i) \<and>
    proper ((h6 ! t)\<lparr>sign := sign (h ! a) * sign (h ! b), neged_with_sign := False\<rparr>) \<and>
    bval ((h6 ! t)\<lparr>sign := sign (h ! a) * sign (h ! b), neged_with_sign := False\<rparr>) = bval (h ! a) * bval (h ! b)"
proof -
  let ?x = "big_magnitude (h ! a)" and ?y = "big_magnitude (h ! b)"
  note ma = magnitude_ok [OF assms(7)] and mb = magnitude_ok [OF assms(8)]
  have get: "h3 ! a = ?x" "h3 ! b = ?y" "h3 ! t = bigint_zero" "length h3 = length h" using assms(1-6) by (auto simp: h3_def nth_list_update)
  have ok: "items_ok (items ?x)" "items_ok (items ?y)" using ma(1) mb(1) by (auto simp: proper_def wf_big_def)
  have row: "items row = replicate (Suc (length (items ?y))) 0" "sign row = 1"
    by (simp_all add: row_def get sign_extend_alt big_negate_negative_def bigint_zero_def Let_def)
  have wf: "wf_big row" "wf_big bigint_zero" "bval bigint_zero = 0"
    using row by (simp_all add: wf_big_def bigint_zero_def bval_def items_ok_def)
  obtain h6 where h6: "mul_loop (Ref b) (Ref t) (Ref (length h)) (rev (items ?x)) (h3 @ [row]) = Some (0, h6)"
      "length h6 = Suc (length h)" "\<forall>i<length h. i \<noteq> t \<longrightarrow> h6 ! i = h3 ! i" "wf_big (h6 ! t)"
      "bval (h6 ! t) = int (items_val (items ?x) * items_val (items ?y))"
    using mul_loop_ok [of b t "length h" "h3 @ [row]" "rev (items ?x)"] assms(1-6) get ok row wf
    by (auto simp: nth_append items_ok_def less_Suc_eq)
  have prod: "int (items_val (items ?x) * items_val (items ?y)) = \<bar>bval (h ! a)\<bar> * \<bar>bval (h ! b)\<bar>"
    using ma(5) mb(5) assms(9,10) by simp
  have sg: "sign (h ! a) = sgn (bval (h ! a))" "sign (h ! b) = sgn (bval (h ! b))" using proper_sign assms(7,8) by auto
  have pos: "\<bar>bval (h ! a)\<bar> * \<bar>bval (h ! b)\<bar> > 0" using sg assms(9,10) by (simp add: sgn_if split: if_splits)
  then have "sign (h6 ! t) = 1" using wf_nonneg [OF h6(4)] h6(5) prod by (auto simp: bval_def)
  then have val: "int (items_val (items (h6 ! t))) = \<bar>bval (h ! a)\<bar> * \<bar>bval (h ! b)\<bar>" "items_ok (items (h6 ! t))" "items (h6 ! t) \<noteq> []"
    using h6(4,5) prod by (auto simp: bval_def wf_big_def)
  define A B where "A = bval (h ! a)" and "B = bval (h ! b)"
  define p where "p = sign (h ! a) * sign (h ! b)"
  have p: "p = sgn A * sgn B" "p = 1 \<or> p = - 1"
    using sg assms(9,10) wf_sign [OF proper_wf [OF assms(7)]] wf_sign [OF proper_wf [OF assms(8)]] by (auto simp: p_def A_def B_def)
  have "bval ((h6 ! t)\<lparr>sign := p, neged_with_sign := False\<rparr>) = p * (\<bar>A\<bar> * \<bar>B\<bar>)"
    using val(1) p(2) by (auto simp: bval_def A_def B_def)
  also have "\<dots> = (sgn A * \<bar>A\<bar>) * (sgn B * \<bar>B\<bar>)" by (simp add: p(1))
  finally have "bval ((h6 ! t)\<lparr>sign := p, neged_with_sign := False\<rparr>) = A * B" by (simp only: sgn_mult_abs)
  moreover have "proper ((h6 ! t)\<lparr>sign := p, neged_with_sign := False\<rparr>)"
    using val pos p(2) by (auto simp: proper_def wf_big_def)
  ultimately show ?thesis using h6(1-3) get(1) unfolding p_def A_def B_def by auto
qed

lemma mul_core_eval:
  assumes "t < length h" "a < length h" "b < length h" "t \<noteq> a" "t \<noteq> b" "h ! t = bigint_zero"
    and "proper (h ! a)" "proper (h ! b)"
  shows "\<exists>h7 n. (do {
        x \<leftarrow> big_get h (Ref a);
        y \<leftarrow> big_get h (Ref b);
        if sign x = 0 \<or> sign y = 0 then do {
          h2 \<leftarrow> big_modify h (Ref t) (sign_update (\<lambda>_. 0));
          f h2
        }
        else do {
          h2 \<leftarrow> big_modify h (Ref a) big_magnitude;
          h3 \<leftarrow> big_modify h2 (Ref b) big_magnitude;
          x3 \<leftarrow> big_get h3 (Ref a);
          y3 \<leftarrow> big_get h3 (Ref b);
          let (row_result, h4) = bigint_create h3;
          h5 \<leftarrow> big_modify h4 row_result (\<lambda>r. (bigint_sign_extend (bigint_item_count y3 + 1) r)\<lparr>sign := 1\<rparr>);
          on_success (mul_loop (Ref b) (Ref t) row_result (rev (items x3)) h5) (\<lambda>h6. do {
            h7 \<leftarrow> big_modify h6 (Ref t) (\<lambda>r. r\<lparr>sign := sign x3 * sign y3, neged_with_sign := False\<rparr>);
            f h7
          })
        }
      }) = f h7 \<and> length h7 = length h + n \<and> magnitudes t h (take (length h) h7) \<and>
    proper (h7 ! t) \<and> \<not> neged_with_sign (h7 ! t) \<and> bval (h7 ! t) = bval (h ! a) * bval (h ! b)"
proof (cases "sign (h ! a) = 0 \<or> sign (h ! b) = 0")
  case True
  have z: "bigint_zero\<lparr>sign := 0\<rparr> = bigint_zero" by (simp add: bigint_zero_def)
  then have upd: "h[t := bigint_zero] = h" using assms(1,6) by (metis list_update_id)
  have "bval (h ! a) * bval (h ! b) = 0" using True by (auto simp: bval_def)
  with True z upd assms(1-6) show ?thesis
    by (intro exI [of _ h] exI [of _ 0]) (simp add: magnitudes_def proper_def wf_big_def bigint_zero_def bval_def)
next
  case False
  define h3 where "h3 = h[a := big_magnitude (h ! a), b := big_magnitude (h ! b)]"
  define row where "row = (bigint_sign_extend (length (items (h3 ! b)) + 1) bigint_zero)\<lparr>sign := 1\<rparr>"
  obtain h6 where h6: "mul_loop (Ref b) (Ref t) (Ref (length h)) (rev (items (h3 ! a))) (h3 @ [row]) = Some (0, h6)"
      "length h6 = Suc (length h)" "\<forall>i<length h. i \<noteq> t \<longrightarrow> h6 ! i = h3 ! i"
      "proper ((h6 ! t)\<lparr>sign := sign (h ! a) * sign (h ! b), neged_with_sign := False\<rparr>)"
      "bval ((h6 ! t)\<lparr>sign := sign (h ! a) * sign (h ! b), neged_with_sign := False\<rparr>) = bval (h ! a) * bval (h ! b)"
    using mul_core [OF assms(1-8)] False unfolding h3_def row_def by blast
  define h7 where "h7 = h6[t := (h6 ! t)\<lparr>sign := sign (h ! a) * sign (h ! b), neged_with_sign := False\<rparr>]"
  have get: "h3 ! a = big_magnitude (h ! a)" "h3 ! b = big_magnitude (h ! b)" "length h3 = length h"
    using assms(2,3) by (auto simp: h3_def nth_list_update)
  have m: "big_modify h (Ref a) big_magnitude = Some (h[a := big_magnitude (h ! a)])"
      "big_modify (h[a := big_magnitude (h ! a)]) (Ref b) big_magnitude = Some h3"
    using assms(2,3,7) magnitude_idem by (auto simp: h3_def nth_list_update)
  have cr: "bigint_create h3 = (Ref (length h), h3 @ [bigint_zero])" using get(3) by (simp add: bigint_create_def)
  have r: "big_modify (h3 @ [bigint_zero]) (Ref (length h)) (\<lambda>r. (bigint_sign_extend (bigint_item_count (h3 ! b) + 1) r)\<lparr>sign := 1\<rparr>) = Some (h3 @ [row])"
    using get(3) by (simp add: row_def bigint_item_count_def nth_append list_update_append)
  have s: "sign (h3 ! a) = sign (h ! a)" "sign (h3 ! b) = sign (h ! b)" using get magnitude_ok(3) assms(7,8) by auto
  have e: "big_modify h6 (Ref t) (\<lambda>r. r\<lparr>sign := sign (h3 ! a) * sign (h3 ! b), neged_with_sign := False\<rparr>) = Some h7"
    using h6(2) assms(1) s by (simp add: h7_def)
  have "h3 ! i = h ! i \<or> h3 ! i = big_magnitude (h ! i)" if "i < length h" for i
    using that assms(2,3) by (cases "i = a"; cases "i = b") (simp_all add: h3_def)
  then have mg: "magnitudes t h (take (length h) h7)"
    using h6(2,3) by (simp add: magnitudes_def h7_def)
  have p: "proper (h7 ! t)" "\<not> neged_with_sign (h7 ! t)" "bval (h7 ! t) = bval (h ! a) * bval (h ! b)" using h6(2,4,5) assms(1) by (simp_all add: h7_def)
  have "length h7 = Suc (length h)" using h6(2) by (simp add: h7_def)
  then show ?thesis
    by (intro exI [of _ h7] exI [of _ 1])
      (use False h6(1,2) assms(2,3) m cr r e get(3) mg p in \<open>simp add: on_success_def del: big_modify_Ref\<close>)
qed

lemma bigint_mul_ok:
  assumes "r < length h" "a < length h" "b < length h" "proper (h ! a)" "proper (h ! b)" "r = a \<or> r \<noteq> b"
  shows "\<exists>h'. bigint_mul h (Ref r) (Ref a) (Ref b) = Some (0, h') \<and> magnitudes r h h' \<and> proper (h' ! r) \<and>
    \<not> neged_with_sign (h' ! r) \<and> bval (h' ! r) = bval (h ! a) * bval (h ! b)"
proof (cases "r = a")
  case True
  let ?t = "length h" and ?h = "h @ [bigint_zero]"
  obtain h7 n where h7: "length h7 = length ?h + n" "magnitudes ?t ?h (take (length ?h) h7)"
      "proper (h7 ! ?t)" "\<not> neged_with_sign (h7 ! ?t)" "bval (h7 ! ?t) = bval (?h ! a) * bval (?h ! b)"
      "bigint_mul h (Ref a) (Ref a) (Ref b) = map_option (drop_temps h) (big_finish (Ref a) (Ref a) (Ref ?t) h7)"
    using mul_core_eval [of ?t ?h a b "big_finish (Ref a) (Ref a) (Ref ?t)"] assms(2-5)
    by (auto simp: bigint_mul_def big_start_def bigint_create_def [of h] nth_append)
  then have "bigint_mul h (Ref a) (Ref a) (Ref b) = Some (0, take (length h) (h7[a := h7 ! ?t]))"
    using set_bigint_eval [of a h7 ?t] assms(2) by (simp add: big_finish_def drop_temps_def proper_def)
  then show ?thesis using h7 assms(2,3) True
    by (auto simp: magnitudes_def nth_append less_Suc_eq)
next
  case False
  let ?h = "h[r := bigint_zero]"
  obtain h7 n where h7: "length h7 = length ?h + n" "magnitudes r ?h (take (length ?h) h7)"
      "proper (h7 ! r)" "\<not> neged_with_sign (h7 ! r)" "bval (h7 ! r) = bval (?h ! a) * bval (?h ! b)"
      "bigint_mul h (Ref r) (Ref a) (Ref b) = map_option (drop_temps h) (big_finish (Ref r) (Ref a) (Ref r) h7)"
    using mul_core_eval [of r ?h a b "big_finish (Ref r) (Ref a) (Ref r)"] assms False
    by (auto simp: bigint_mul_def big_start_def bigint_destroy_items_def)
  then show ?thesis using assms False 
    by (auto simp: big_finish_def drop_temps_def magnitudes_def)
qed

end
