(* ===== verification/BigInt_Div.thy ===== *)
theory BigInt_Div
  imports BigInt_Mul
begin

text \<open>
  Bits of big integers and the binary long division of natural numbers.
\<close>

subsection \<open>Natural numbers\<close>

definition natural :: "bigint_t \<Rightarrow> nat \<Rightarrow> bool" where
  "natural b n \<longleftrightarrow> proper b \<and> \<not> neged_with_sign b \<and> bval b = int n"

lemma natural_sign: "natural b n \<Longrightarrow> sign b = (if n = 0 then 0 else 1)"
  using proper_sign [of b] by (simp add: natural_def sgn_if)

lemma natural_iff:
  "natural b n \<longleftrightarrow> items_ok (items b) \<and> \<not> neged_with_sign b \<and> sign b = (if n = 0 then 0 else 1) \<and> (n \<noteq> 0 \<longrightarrow> items_val (items b) = n)"
proof
  assume n: "natural b n"
  then show "items_ok (items b) \<and> \<not> neged_with_sign b \<and> sign b = (if n = 0 then 0 else 1) \<and> (n \<noteq> 0 \<longrightarrow> items_val (items b) = n)"
    using natural_sign [OF n] by (cases "n = 0") (simp_all add: natural_def proper_def wf_big_def bval_def)
qed (cases "n = 0"; auto simp: natural_def proper_def wf_big_def bval_def)

lemma natural_zero [simp]: "natural bigint_zero 0"
  by (simp add: natural_iff bigint_zero_def)

lemma natural_same:
  assumes "natural b n" "same_number b b'"
  shows "natural b' n"
proof -
  have b': "wf_big b'" "bval b' = int n" "sign b' = sign b" "\<not> neged_with_sign b'"
    using assms natural_sign [OF assms(1)] by (auto simp: same_number_def natural_def proper_def)
  then show ?thesis using natural_sign [OF assms(1)] by (cases "n = 0") (simp_all add: natural_iff wf_big_def bval_def)
qed

lemma natural_magnitude [simp]: "natural b n \<Longrightarrow> big_magnitude b = b"
  by (simp add: big_magnitude_def natural_def)

subsection \<open>Bits\<close>

lemma shl_one_items_ok:
  assumes "items_ok xs" "unat c < 2"
  shows "\<exists>ys c'. shl_one_items c xs = (ys, c') \<and> items_ok ys \<and> length ys = length xs \<and> unat c' < 2 \<and>
    items_val ys + radix (length xs) * unat c' = 2 * items_val xs + unat c"
  using assms
proof (induction xs arbitrary: c)
  case (Cons x xs)
  let ?d = "drop_bit 47 x" and ?z = "(push_bit 1 x OR c) AND BIGINT_ITEM_MAX"
  have x: "unat x < 2 ^ 48" "unat c < 2 ^ 1" using Cons.prems by auto
  note w = shl_word [OF x, simplified]
  obtain ys c' where ys: "shl_one_items ?d xs = (ys, c')" "items_ok ys" "length ys = length xs" "unat c' < 2"
      "items_val ys + radix (length xs) * unat c' = 2 * items_val xs + unat ?d"
    using Cons.IH [of ?d] Cons.prems w(2) by auto
  have z: "unat ?z < 2 ^ 48" by (simp only: unat_and_max) simp
  have z1: "unat ?z + 281474976710656 * unat ?d = 2 * unat x + unat c" using w(1) by simp
  have "unat ?z + 281474976710656 * items_val ys + 281474976710656 * (radix (length xs) * unat c') =
      2 * (unat x + 281474976710656 * items_val xs) + unat c"
    using z1 arg_cong [OF ys(5), of "\<lambda>n. 281474976710656 * n"] by (simp add: algebra_simps del: unat_and_max unat_drop_item)
  then show ?case using ys z by (simp add: algebra_simps BIGINT_ITEM_BITS_def del: unat_and_max unat_drop_item)
qed simp

lemma shl_one_ok: "natural b n \<Longrightarrow> natural (shl_one_number b) (2 * n)"
proof (cases "n = 0")
  case False
  assume b: "natural b n"
  then obtain ys c where ys: "shl_one_items 0 (items b) = (ys, c)" "items_ok ys" "length ys = length (items b)" "unat c < 2"
      "items_val ys + radix (length (items b)) * unat c = 2 * n"
    using shl_one_items_ok [of "items b" 0] False by (auto simp: natural_iff)
  have "unat c < 281474976710656" using ys(4) by simp
  then show ?thesis
    using b ys False unat_eq_zero [of c] by (auto simp: shl_one_number_def natural_iff)
qed (simp add: shl_one_number_def natural_iff)

lemma bit_items:
  "items_ok xs \<Longrightarrow> bit (items_val xs) i \<longleftrightarrow> i div 48 < length xs \<and> bit (xs ! (i div 48)) (i mod 48)"
proof (induction xs arbitrary: i)
  case (Cons x xs)
  have x: "unat x < 2 ^ 48" using Cons.prems by simp
  show ?case
  proof (cases "i < 48")
    case True
    have "items_val (x # xs) mod 2 ^ 48 = unat x" using x by simp
    then have "take_bit 48 (items_val (x # xs)) = unat x" by (simp add: take_bit_eq_mod)
    then have "bit (items_val (x # xs)) i = bit (unat x) i" using True by (metis bit_take_bit_iff)
    also have "\<dots> = bit x i" by (simp add: bit_unsigned_iff possible_bit_def)
    finally show ?thesis using True by simp
  next
    case False
    have "items_val (x # xs) div 2 ^ 48 = items_val xs" using x by simp
    then have "drop_bit 48 (items_val (x # xs)) = items_val xs" by (simp add: drop_bit_eq_div)
    moreover obtain j where j: "i = 48 + j" using False by (metis le_iff_add not_less)
    ultimately have "bit (items_val (x # xs)) i = bit (items_val xs) j" using bit_drop_bit_eq [of 48 "items_val (x # xs)"] by simp
    moreover have "(48 + j) div 48 = Suc (j div 48)" by simp
    ultimately show ?thesis using Cons j by (simp del: items_val.simps)
  qed
qed simp

lemma get_bit_ok:
  assumes "a < length h" "natural (h ! a) n"
  shows "bigint_get_bit h (Ref a) i = Some (0, bit n i)"
proof (cases "n = 0")
  case False
  have "(drop_bit (i mod 48) x AND 1 \<noteq> 0) = bit x (i mod 48)" for x :: u64
    by (simp add: and_one_eq bit_iff_odd_drop_bit mod_2_eq_odd)
  then show ?thesis using assms False bit_items [of "items (h ! a)" i] natural_sign [OF assms(2)]
    by (auto simp: bigint_get_bit_def natural_iff Let_def BIGINT_ITEM_BITS_def bigint_item_count_def)
qed (use assms natural_sign [OF assms(2)] in \<open>simp add: bigint_get_bit_def Let_def\<close>)

lemma or_new_bit:
  assumes "unat (x :: u64) < 2 ^ 48" "k < 48" "\<not> bit x k"
  shows "unat (x OR push_bit k 1) = unat x + 2 ^ k" "unat (x OR push_bit k 1) < 2 ^ 48"
proof -
  have p: "unat (push_bit k 1 :: u64) = 2 ^ k" "(2 :: nat) ^ k < 2 ^ 48"
    using assms(2) power_strict_increasing [of k 48 "2 :: nat"]
    by (simp_all only: unsigned_push_bit_eq unsigned_1) (simp_all add: push_bit_eq_mult take_bit_nat_eq_self)
  have "x AND push_bit k 1 = 0" using assms(3) by (auto intro!: bit_eqI simp: bit_simps)
  then have "x OR push_bit k 1 = x + push_bit k 1" by (simp add: disjunctive_add_eq_or)
  then show "unat (x OR push_bit k 1) = unat x + 2 ^ k" using assms(1) p by (simp add: unat_word_ariths)
  have small: "take_bit 48 w = w" if "unat w < 2 ^ 48" for w :: u64
    using that by (simp add: word_unat_eq_iff unsigned_take_bit_eq take_bit_nat_eq_self_iff)
  have "take_bit 48 (x OR push_bit k 1) = x OR push_bit k 1" unfolding take_bit_or using small assms(1) p by simp
  then have "unat (x OR push_bit k 1) = take_bit 48 (unat (x OR push_bit k 1))" by (metis unsigned_take_bit_eq)
  then show "unat (x OR push_bit k 1) < 2 ^ 48" using take_bit_nat_less_exp [of 48 "unat (x OR push_bit k 1)"] by simp
qed

lemma set_bit_items:
  assumes "items_ok xs" "j < length xs" "k < 48" "\<not> bit (xs ! j) k"
  shows "items_ok (xs[j := xs ! j OR push_bit k 1]) \<and> items_val (xs[j := xs ! j OR push_bit k 1]) = items_val xs + 2 ^ (48 * j + k)"
  using assms(1,2,4)
proof (induction xs arbitrary: j)
  case (Cons x xs)
  show ?case
  proof (cases j)
    case 0
    then show ?thesis using or_new_bit [of x k] Cons.prems assms(3) by simp
  next
    case (Suc j')
    then show ?thesis using Cons.IH [of j'] Cons.prems by (simp add: power_add algebra_simps)
  qed
qed simp

lemma set_bit_ok:
  assumes "r < length h" "natural (h ! r) n" "\<not> bit n i"
  shows "\<exists>b. bigint_set_bit h (Ref r) i True = Some (0, h[r := b]) \<and> natural b (n + 2 ^ i)"
proof -
  define b1 where "b1 = (if sign (h ! r) = 0 then (h ! r)\<lparr>sign := 1, items := [0]\<rparr> else h ! r)"
  have b1: "items_ok (items b1)" "items_val (items b1) = n" "items b1 \<noteq> []" "sign b1 = 1" "\<not> neged_with_sign b1"
    using assms(2) natural_sign [OF assms(2)] by (auto simp: b1_def natural_iff)
  define xs where "xs = items b1 @ replicate (i div 48 + 1 - length (items b1)) 0"
  have xs: "items_ok xs" "items_val xs = n" "i div 48 < length xs" using b1(1,2) by (auto simp: xs_def items_ok_def)
  then have "\<not> bit (xs ! (i div 48)) (i mod 48)" using bit_items [of xs i] assms(3) by simp
  then have up: "items_ok (xs[i div 48 := xs ! (i div 48) OR push_bit (i mod 48) 1])"
      "items_val (xs[i div 48 := xs ! (i div 48) OR push_bit (i mod 48) 1]) = n + 2 ^ i"
    using set_bit_items [of xs "i div 48" "i mod 48"] xs by auto
  have ext: "items b1 @ replicate (Suc (i div 48) - length (items b1)) 0 = xs" by (simp add: xs_def)
  show ?thesis
    using assms(1) b1 up
    by (intro exI [of _ "b1\<lparr>items := xs[i div 48 := xs ! (i div 48) OR push_bit (i mod 48) 1]\<rparr>"])
      (simp add: bigint_set_bit_def write_bit_def b1_def [symmetric] ext Let_def BIGINT_ITEM_BITS_def
        bigint_item_count_def natural_iff)
qed

subsection \<open>Long division\<close>

lemma div_step:
  fixes M B :: nat and d :: bool
  assumes "0 < B"
  defines "R \<equiv> 2 * (M mod B) + of_bool d" and "N \<equiv> 2 * M + of_bool d"
  shows "B \<le> R \<Longrightarrow> N div B = 2 * (M div B) + 1 \<and> N mod B = R - B" "R < B \<Longrightarrow> N div B = 2 * (M div B) \<and> N mod B = R"
proof -
  have m: "M mod B < B" using assms(1) by simp
  have N: "N = B * (2 * (M div B)) + R" 
    unfolding N_def R_def mult.left_commute [of B 2] using mult_div_mod_eq [of B M] by linarith
  show "N div B = 2 * (M div B) + 1 \<and> N mod B = R - B" if "B \<le> R"
  proof -
    have "R < 2 * B" using m by (simp add: R_def)
    then have "R div B = 1" "R mod B = R - B" using that by (simp_all add: div_nat_eqI mod_if)
    then show ?thesis using assms(1) by (simp add: N)
  qed
  show "N div B = 2 * (M div B) \<and> N mod B = R" if "R < B" using that assms(1) by (simp add: N)
qed

lemma drop_one_bit: "(A :: nat) div 2 ^ i = 2 * (A div 2 ^ Suc i) + of_bool (bit A i)"
proof -
  have "A div 2 ^ Suc i = A div 2 ^ i div 2" by (simp add: div_mult2_eq [symmetric] mult.commute)
  moreover have "of_bool (bit A i) = (A div 2 ^ i) mod 2" by (simp add: bit_iff_odd mod_2_eq_odd)
  ultimately show ?thesis by simp
qed

lemma cmp_natural:
  assumes "a < length h" "b < length h" "natural (h ! a) m" "natural (h ! b) n"
  shows "bigint_cmp h (Ref a) (Ref b) = Some (sgn (int m - int n), h)"
proof -
  obtain h' where h': "bigint_cmp h (Ref a) (Ref b) = Some (sgn (int m - int n), h')"
    using bigint_cmp_ok [OF assms(1,2)] assms(3,4) by (auto simp: natural_def)
  have "big_modify h (Ref a) big_magnitude = Some h" "big_modify h (Ref b) big_magnitude = Some h" using assms by simp_all
  then have "h' = h" using h' assms(1,2) by (simp add: bigint_cmp_def Let_def del: big_modify_Ref split: if_splits)
  with h' show ?thesis by simp
qed

lemma sub_natural:
  assumes "r < length h" "b < length h" "natural (h ! r) m" "natural (h ! b) n" "0 < n" "n \<le> m"
  shows "\<exists>h'. bigint_sub h (Ref r) (Ref r) (Ref b) = Some (0, h') \<and> only_changes r h h' \<and> natural (h' ! r) (m - n)"
proof -
  have s: "sign (h ! r) = 1" "sign (h ! b) = 1" using natural_sign assms by auto
  obtain h' where h': "bigint_sub h (Ref r) (Ref r) (Ref b) = Some (0, h')" "only_changes r h h'" "wf_big (h' ! r)"
      "bval (h' ! r) = int m - int n" "sign (h' ! r) = sgn (int m - int n)" "\<not> neged_with_sign (h' ! r)"
    using bigint_sub_ok [of r h r b] assms s by (auto simp: natural_def proper_def)
  have "natural (h' ! r) (m - n)"
    using h'(3-6) assms(6) by (cases "m = n") (auto simp: natural_iff wf_big_def bval_def sgn_if split: if_splits)
  with h' show ?thesis by blast
qed

lemma div_loop_ok:
  assumes "q < length h" "t < length h" "a < length h" "b < length h" "q \<noteq> t" "q \<noteq> a" "q \<noteq> b" "t \<noteq> a" "t \<noteq> b" "0 < B"
    and "natural (h ! a) A" "natural (h ! b) B"
    and "natural (h ! q) (2 ^ i * (A div 2 ^ i div B))" "natural (h ! t) (A div 2 ^ i mod B)"
  shows "\<exists>h'. div_loop (Ref q) (Ref t) (Ref a) (Ref b) i h = Some (0, h') \<and> length h' = length h \<and>
    (\<forall>k<length h. k \<noteq> q \<longrightarrow> k \<noteq> t \<longrightarrow> same_number (h ! k) (h' ! k)) \<and> natural (h' ! q) (A div B) \<and> natural (h' ! t) (A mod B)"
  using assms(1-4,11-)
proof (induction i arbitrary: h)
  case (Suc i)
  define M where "M = A div 2 ^ Suc i"
  define R where "R = 2 * (M mod B) + of_bool (bit A i)"
  have N: "A div 2 ^ i = 2 * M + of_bool (bit A i)" using drop_one_bit by (simp add: M_def)
  define h1 where "h1 = h[t := shl_one_number (h ! t)]"
  have h1: "bigint_shl_one h (Ref t) = Some (0, h1)" "natural (h1 ! t) (2 * (M mod B))" "length h1 = length h"
    using Suc.prems shl_one_ok by (simp_all add: h1_def bigint_shl_one_def M_def)
  have bit': "bigint_get_bit h1 (Ref a) i = Some (0, bit A i)"
    using get_bit_ok [of a h1 A i] Suc.prems assms(8) h1(3) by (simp add: h1_def)
  have "\<exists>r. (if bit A i then bigint_set_bit h1 (Ref t) 0 True else Some (0, h1)) = Some (0, h1[t := r]) \<and> natural r R"
  proof (cases "bit A i")
    case True
    then show ?thesis using set_bit_ok [of t h1 "2 * (M mod B)" 0] h1(2,3) Suc.prems(2) by (simp add: R_def bit_0)
  next
    case False
    then show ?thesis using h1(2) by (intro exI [of _ "h1 ! t"]) (simp add: R_def)
  qed
  then obtain r where r: "(if bit A i then bigint_set_bit h1 (Ref t) 0 True else Some (0, h1)) = Some (0, h1[t := r])" "natural r R" by blast
  define h2 where "h2 = h1[t := r]"
  have h2: "h2 ! t = r" "h2 ! b = h ! b" "h2 ! a = h ! a" "h2 ! q = h ! q" "length h2 = length h"
    using Suc.prems assms(5,8,9) by (simp_all add: h2_def h1_def)
  have h2k: "h2 ! k = h ! k" if "k \<noteq> t" for k using that by (simp add: h2_def h1_def)
  have cmp: "bigint_cmp h2 (Ref t) (Ref b) = Some (sgn (int R - int B), h2)"
    using cmp_natural [of t h2 b R B] r(2) Suc.prems h2 by simp
  show ?case
  proof (cases "B \<le> R")
    case True
    obtain h4 where h4: "bigint_sub h2 (Ref t) (Ref t) (Ref b) = Some (0, h4)" "only_changes t h2 h4" "natural (h4 ! t) (R - B)"
      using sub_natural [of t h2 b R B] r(2) Suc.prems h2 True assms(10) by auto
    have len: "length h4 = length h" using h4(2) h2(5) by (simp add: only_changes_def)
    have keep: "same_number (h ! k) (h4 ! k)" if "k < length h" "k \<noteq> t" for k
      using h4(2) h2(5) h2k that by (auto simp: only_changes_def)
    have nat4: "natural (h4 ! a) A" "natural (h4 ! b) B" "natural (h4 ! q) (2 ^ Suc i * (M div B))"
      using Suc.prems keep assms(5,8,9) natural_same by (auto simp: M_def)
    have "\<not> bit (2 ^ Suc i * (M div B)) i" by (simp add: bit_iff_odd)
    then obtain q' where q': "bigint_set_bit h4 (Ref q) i True = Some (0, h4[q := q'])" "natural q' (2 ^ Suc i * (M div B) + 2 ^ i)"
      using set_bit_ok [of q h4] nat4(3) len Suc.prems(1) by auto
    define h5 where "h5 = h4[q := q']"
    have "div_loop (Ref q) (Ref t) (Ref a) (Ref b) (Suc i) h = div_loop (Ref q) (Ref t) (Ref a) (Ref b) i h5"
      using h1(1) bit' r(1) cmp True h4(1) q'(1) by (simp add: on_success_def h2_def [symmetric] h5_def [symmetric] sgn_if)
    moreover have "natural (h5 ! t) (A div 2 ^ i mod B)" "natural (h5 ! q) (2 ^ i * (A div 2 ^ i div B))"
      using h4(3) q'(2) div_step(1) [of B M "bit A i"] assms(5,10) True len Suc.prems(1)
      by (simp_all add: N R_def h5_def algebra_simps)
    moreover have "h5 ! k = h4 ! k" if "k \<noteq> q" for k using that by (simp add: h5_def)
    ultimately show ?thesis
      using Suc.IH [of h5] nat4 keep len Suc.prems(1-4) assms(5-9) by (auto simp: h5_def intro: same_number_trans)
  next
    case False
    have "div_loop (Ref q) (Ref t) (Ref a) (Ref b) (Suc i) h = div_loop (Ref q) (Ref t) (Ref a) (Ref b) i h2"
      using h1(1) bit' r(1) cmp False by (simp add: on_success_def h2_def [symmetric])
    moreover have "natural (h2 ! t) (A div 2 ^ i mod B)" "natural (h2 ! q) (2 ^ i * (A div 2 ^ i div B))"
      using r(2) h2 Suc.prems(7) div_step(2) [of B M "bit A i"] assms(10) False by (simp_all add: N R_def M_def ac_simps)
    ultimately show ?thesis using Suc.IH [of h2] h2 Suc.prems h2k by auto
  qed
qed simp

lemma remove_zeros_natural: "natural b n \<Longrightarrow> natural (bigint_remove_leading_zeros b) n"
  using strip_zeros_val [of "items b"] by (cases "n = 0") (auto simp: natural_iff bigint_remove_leading_zeros_def bigint_zero_def Let_def)

lemma natural_wf: "natural b n \<Longrightarrow> wf_big b"
  by (simp add: natural_def proper_def)

lemma div_core:
  assumes "t < length h" "a < length h" "b < length h" "t \<noteq> a" "t \<noteq> b" "h ! t = bigint_zero" "natural (h ! a) A" "natural (h ! b) B" "0 < A" "0 < B"
    and "remainder = NULL \<or> (\<exists>m. remainder = Ref m \<and> m < length h \<and> m \<noteq> t)"
  shows "\<exists>h5. (let (tmp_remainder, h2) = bigint_create h in
      on_success (div_loop (Ref t) tmp_remainder (Ref a) (Ref b) (max (bigint_bit_length (h ! a)) (bigint_bit_length (h ! b)) + 1) h2) (\<lambda>h3. do {
        h4 \<leftarrow> (if remainder = NULL then Some h3
          else do {
            h4 \<leftarrow> big_modify h3 tmp_remainder bigint_remove_leading_zeros;
            map_option snd (bigint_set_bigint h4 remainder tmp_remainder)
          });
        h5 \<leftarrow> big_modify h4 (Ref t) bigint_remove_leading_zeros;
        f h5
      })) = f h5 \<and> length h5 = Suc (length h) \<and> natural (h5 ! t) (A div B) \<and>
    (\<forall>k<length h. k \<noteq> t \<longrightarrow> (if remainder = Ref k then natural (h5 ! k) (A mod B) else same_number (h ! k) (h5 ! k)))"
proof -
  let ?h = "h @ [bigint_zero]" and ?s = "length h" and ?i = "max (bigint_bit_length (h ! a)) (bigint_bit_length (h ! b)) + 1"
  have "bigint_bit_length (h ! a) = msb_index A" using bit_length_eq [of "h ! a"] assms(7,9) by (auto simp: natural_iff)
  then have "A < 2 ^ Suc (bigint_bit_length (h ! a))" using msb_index_bounds [OF assms(9)] by simp
  also have "\<dots> \<le> 2 ^ ?i" by (intro power_increasing) simp_all
  finally have "A div 2 ^ ?i = 0" by simp
  then obtain h3 where h3: "div_loop (Ref t) (Ref ?s) (Ref a) (Ref b) ?i ?h = Some (0, h3)" "length h3 = Suc ?s"
      "\<forall>k<Suc ?s. k \<noteq> t \<longrightarrow> k \<noteq> ?s \<longrightarrow> same_number (?h ! k) (h3 ! k)" "natural (h3 ! t) (A div B)" "natural (h3 ! ?s) (A mod B)"
    using div_loop_ok [of t ?h ?s a b B A ?i] assms(1-10) by (auto simp: nth_append)
  define h4 where "h4 = (case remainder of NULL \<Rightarrow> h3 | Ref m \<Rightarrow> h3[?s := bigint_remove_leading_zeros (h3 ! ?s), m := bigint_remove_leading_zeros (h3 ! ?s)])"
  have rem: "natural (bigint_remove_leading_zeros (h3 ! ?s)) (A mod B)" using remove_zeros_natural h3(5) by blast
  have "(if remainder = NULL then Some h3
          else do {
            h4 \<leftarrow> big_modify h3 (Ref ?s) bigint_remove_leading_zeros;
            map_option snd (bigint_set_bigint h4 remainder (Ref ?s))
          }) = Some h4"
  proof (cases remainder)
    case (Ref m)
    then have "m < length h" using assms(11) by auto
    then show ?thesis
      using Ref set_bigint_eval [of m "h3[?s := bigint_remove_leading_zeros (h3 ! ?s)]" ?s] natural_wf [OF rem] h3(2) by (simp add: h4_def)
  qed (simp add: h4_def)
  moreover define h5 where "h5 = h4[t := bigint_remove_leading_zeros (h4 ! t)]"
  moreover have t4: "h4 ! t = h3 ! t" "length h4 = Suc ?s" using assms(1,11) h3(2) by (auto simp: h4_def split: ref.splits)
  ultimately have "(let (tmp_remainder, h2) = bigint_create h in
      on_success (div_loop (Ref t) tmp_remainder (Ref a) (Ref b) ?i h2) (\<lambda>h3. do {
        h4 \<leftarrow> (if remainder = NULL then Some h3
          else do {
            h4 \<leftarrow> big_modify h3 tmp_remainder bigint_remove_leading_zeros;
            map_option snd (bigint_set_bigint h4 remainder tmp_remainder)
          });
        h5 \<leftarrow> big_modify h4 (Ref t) bigint_remove_leading_zeros;
        f h5
      })) = f h5"
    using h3(1) assms(1) by (simp add: bigint_create_def on_success_def del: div_loop.simps)
  moreover have "natural (h5 ! t) (A div B)" "length h5 = Suc ?s"
    using remove_zeros_natural [OF h3(4)] t4 assms(1) by (simp_all add: h5_def)
  moreover have "if remainder = Ref k then natural (h5 ! k) (A mod B) else same_number (h ! k) (h5 ! k)" if "k < length h" "k \<noteq> t" for k
  proof -
    have "h5 ! k = (if remainder = Ref k then bigint_remove_leading_zeros (h3 ! ?s) else h3 ! k)"
      using that h3(2) by (auto simp: h5_def h4_def split: ref.splits)
    moreover have "same_number (h ! k) (h3 ! k)" using h3(3) that by (simp add: nth_append)
    ultimately show ?thesis using rem by simp
  qed
  ultimately show ?thesis by blast
qed

lemma bigint_div_unsigned_ok:
  assumes "r < length h" "a < length h" "b < length h" "r = a \<or> r \<noteq> b" "natural (h ! a) A" "natural (h ! b) B" "0 < A" "0 < B"
    and "remainder = NULL \<or> (\<exists>m. remainder = Ref m \<and> m < length h \<and> m \<noteq> r)"
  shows "\<exists>h'. bigint_div_unsigned h (Ref r) remainder (Ref a) (Ref b) = Some (0, h') \<and> length h' = length h \<and> natural (h' ! r) (A div B) \<and>
    (\<forall>k<length h. k \<noteq> r \<longrightarrow> (if remainder = Ref k then natural (h' ! k) (A mod B) else same_number (h ! k) (h' ! k)))"
proof (cases "r = a")
  case True
  let ?t = "length h" and ?h = "h @ [bigint_zero]"
  obtain h5 where h5: "length h5 = Suc (Suc (length h))" "natural (h5 ! ?t) (A div B)"
      "\<forall>k<Suc (length h). k \<noteq> ?t \<longrightarrow> (if remainder = Ref k then natural (h5 ! k) (A mod B) else same_number (?h ! k) (h5 ! k))"
      "bigint_div_unsigned h (Ref a) remainder (Ref a) (Ref b) = map_option (drop_temps h) (big_finish (Ref a) (Ref a) (Ref ?t) h5)"
    using div_core [of ?t ?h a b A B remainder "big_finish (Ref a) (Ref a) (Ref ?t)"] assms(2,3,5-9)
      natural_sign [OF assms(5)] natural_sign [OF assms(6)]
    by (auto simp: bigint_div_unsigned_def big_start_def bigint_create_def [of h] nth_append simp del: div_loop.simps)
  have "bigint_div_unsigned h (Ref a) remainder (Ref a) (Ref b) = Some (0, take (length h) (h5[a := h5 ! ?t]))"
    using set_bigint_eval [of a h5 ?t] h5(1,4) natural_wf [OF h5(2)] assms(2) by (simp add: big_finish_def drop_temps_def)
  moreover have "if remainder = Ref k then natural (h5 ! k) (A mod B) else same_number (h ! k) (h5 ! k)" if "k < length h" for k
    using h5(3) [rule_format, of k] that by (simp add: nth_append split: if_splits)
  ultimately show ?thesis using h5(1,2) assms(2) True by simp
next
  case False
  let ?h = "h[r := bigint_zero]"
  obtain h5 where h5: "length h5 = Suc (length h)" "natural (h5 ! r) (A div B)"
      "\<forall>k<length h. k \<noteq> r \<longrightarrow> (if remainder = Ref k then natural (h5 ! k) (A mod B) else same_number (?h ! k) (h5 ! k))"
      "bigint_div_unsigned h (Ref r) remainder (Ref a) (Ref b) = map_option (drop_temps h) (big_finish (Ref r) (Ref a) (Ref r) h5)"
    using div_core [of r ?h a b A B remainder "big_finish (Ref r) (Ref a) (Ref r)"] assms False
      natural_sign [OF assms(5)] natural_sign [OF assms(6)]
    by (auto simp: bigint_div_unsigned_def big_start_def bigint_destroy_items_def simp del: div_loop.simps)
  then show ?thesis using assms(1) False by (auto simp: big_finish_def drop_temps_def)
qed

end
