(* ===== verification/BigInt_Nat.thy ===== *)
theory BigInt_Nat
  imports BigInt_Div
begin

text \<open>
  Quotients, remainders, powers, modular powers and greatest common divisors of natural numbers.
\<close>

subsection \<open>The operations on natural numbers\<close>

text \<open>Every other natural number in the store stays what it is.\<close>

definition keeps :: "nat \<Rightarrow> bigints \<Rightarrow> bigints \<Rightarrow> bool" where
  "keeps r h h' \<longleftrightarrow> length h' = length h \<and> (\<forall>k<length h. k \<noteq> r \<longrightarrow> (\<forall>n. natural (h ! k) n \<longrightarrow> natural (h' ! k) n))"

lemma keeps_refl [simp]: "keeps r h h"
  by (simp add: keeps_def)

lemma keeps_put: "keeps r h h' \<Longrightarrow> keeps r h (h'[r := b])"
  by (simp add: keeps_def)

lemma keeps_length: "keeps r h h' \<Longrightarrow> length h' = length h"
  by (simp add: keeps_def)

lemma keeps_natural: "keeps r h h' \<Longrightarrow> k < length h \<Longrightarrow> k \<noteq> r \<Longrightarrow> natural (h ! k) n \<Longrightarrow> natural (h' ! k) n"
  by (simp add: keeps_def)

lemma mul_natural:
  assumes "r < length h" "a < length h" "b < length h" "natural (h ! a) A" "natural (h ! b) B" "r = a \<or> r \<noteq> b"
  shows "\<exists>h'. bigint_mul h (Ref r) (Ref a) (Ref b) = Some (0, h') \<and> keeps r h h' \<and> natural (h' ! r) (A * B)"
proof -
  obtain h' where h': "bigint_mul h (Ref r) (Ref a) (Ref b) = Some (0, h')" "magnitudes r h h'" "proper (h' ! r)"
      "\<not> neged_with_sign (h' ! r)" "bval (h' ! r) = bval (h ! a) * bval (h ! b)"
    using bigint_mul_ok [of r h a b] assms by (auto simp: natural_def)
  have "keeps r h h'" unfolding keeps_def
  proof (intro conjI allI impI)
    fix k n assume "k < length h" "k \<noteq> r" "natural (h ! k) n"
    then show "natural (h' ! k) n" using h'(2) by (metis magnitudes_def natural_magnitude)
  qed (use h'(2) in \<open>simp add: magnitudes_def\<close>)
  then show ?thesis using h' assms(4,5) by (auto simp: natural_def)
qed

lemma divide_natural:
  assumes "r < length h" "a < length h" "b < length h" "r = a \<or> r \<noteq> b" "natural (h ! a) A" "natural (h ! b) B" "0 < A" "0 < B"
    and "remainder = NULL \<or> (\<exists>m. remainder = Ref m \<and> m < length h \<and> m \<noteq> r)"
  shows "\<exists>h'. bigint_div_with_remainder h (Ref r) remainder (Ref a) (Ref b) = Some (0, h') \<and> length h' = length h \<and>
    natural (h' ! r) (A div B) \<and>
    (\<forall>k<length h. k \<noteq> r \<longrightarrow> (if remainder = Ref k then natural (h' ! k) (A mod B) else same_number (h ! k) (h' ! k)))"
proof -
  define h1 where "h1 = (if r = a then h else h[r := bigint_zero])"
  have h1: "length h1 = length h" "h1 ! a = h ! a" "h1 ! b = h ! b" "\<And>k. k \<noteq> r \<Longrightarrow> h1 ! k = h ! k"
    using assms(4) by (auto simp: h1_def)
  obtain h' where h': "bigint_div_unsigned h1 (Ref r) remainder (Ref a) (Ref b) = Some (0, h')" "length h' = length h" "natural (h' ! r) (A div B)"
      "\<forall>k<length h. k \<noteq> r \<longrightarrow> (if remainder = Ref k then natural (h' ! k) (A mod B) else same_number (h1 ! k) (h' ! k))"
    using bigint_div_unsigned_ok [of r h1 a b A B remainder] assms h1 by auto
  have "bigint_div_with_remainder h (Ref r) remainder (Ref a) (Ref b) = Some (0, h')"
    using h' h1 assms natural_sign [OF assms(5)] natural_sign [OF assms(6)]
    by (simp add: bigint_div_with_remainder_def bigint_destroy_items_def Let_def drop_temps_def h1_def split: if_splits)
  then show ?thesis using h' h1(4) by auto
qed

lemma keeps_take:
  assumes "keeps r (h @ xs) h'"
  shows "keeps r h (take (length h) h')"
  unfolding keeps_def
proof (intro conjI allI impI)
  fix k n assume k: "k < length h" "k \<noteq> r" "natural (h ! k) n"
  then have "natural ((h @ xs) ! k) n" by (simp add: nth_append)
  then show "natural (take (length h) h' ! k) n" using keeps_natural [OF assms] k by simp
qed (use assms in \<open>simp add: keeps_def\<close>)

lemma mod_natural:
  assumes "r < length h" "a < length h" "b < length h" "natural (h ! a) A" "natural (h ! b) B" "0 < A" "0 < B"
  shows "\<exists>h'. bigint_mod h (Ref r) (Ref a) (Ref b) = Some (0, h') \<and> keeps r h h' \<and> natural (h' ! r) (A mod B)"
proof -
  let ?n = "length h" and ?h = "h @ [bigint_zero, bigint_zero]"
  obtain h3 where h3: "bigint_div_with_remainder ?h (Ref ?n) (Ref (Suc ?n)) (Ref a) (Ref b) = Some (0, h3)" "length h3 = Suc (Suc ?n)"
      "\<forall>k<Suc (Suc ?n). k \<noteq> ?n \<longrightarrow> (if Ref (Suc ?n) = Ref k then natural (h3 ! k) (A mod B) else same_number (?h ! k) (h3 ! k))"
    using divide_natural [of ?n ?h a b A B "Ref (Suc ?n)"] assms(2-) by (auto simp: nth_append)
  have rem: "natural (h3 ! Suc ?n) (A mod B)" using h3(3) by auto
  have keep: "natural (h3 ! k) n" if "k < ?n" "natural (h ! k) n" for k n
  proof -
    have "same_number (?h ! k) (h3 ! k)" using h3(3) that(1) by (metis less_Suc_eq less_irrefl not_less_eq ref.inject)
    then show ?thesis using that natural_same by (simp add: nth_append)
  qed
  define h6 where "h6 = h3[Suc ?n := bigint_remove_leading_zeros (h3 ! Suc ?n)]"
  have r6: "natural (h6 ! Suc ?n) (A mod B)" "length h6 = Suc (Suc ?n)" using remove_zeros_natural [OF rem] h3(2) by (simp_all add: h6_def)
  have "bigint_set_bigint h6 (Ref r) (Ref (Suc ?n)) = Some (0, h6[r := h6 ! Suc ?n])"
    using set_bigint_eval [of r h6 "Suc ?n"] natural_wf [OF r6(1)] r6(2) assms(1) by simp
  moreover have "sign (h3 ! a) > 0" "sign (h3 ! b) > 0"
    using natural_sign [OF keep [OF assms(2,4)]] natural_sign [OF keep [OF assms(3,5)]] assms(6,7) by auto
  ultimately have "bigint_mod h (Ref r) (Ref a) (Ref b) = Some (0, take ?n (h6[r := h6 ! Suc ?n]))"
    using h3(1,2) assms(1-3) by (simp add: bigint_mod_def bigint_create_def on_success_def drop_temps_def h6_def)
  moreover have "keeps r h (take ?n (h6[r := h6 ! Suc ?n]))"
    using keep h3(2) assms(1) by (auto simp: keeps_def h6_def nth_list_update)
  ultimately show ?thesis using r6 assms(1) by simp
qed

text \<open>A product modulo a number; a factor 0 leaves the result alone, which is right when it is the first one.\<close>

lemma mul_mod_natural:
  assumes "r < length h" "b < length h" "c < length h" "r \<noteq> c" "natural (h ! r) A" "natural (h ! b) B" "natural (h ! c) C"
    and "0 < C" "A = 0 \<or> B \<noteq> 0"
  shows "\<exists>h'. bigint_mul_mod h (Ref r) (Ref r) (Ref b) (Ref c) = Some (0, h') \<and> keeps r h h' \<and> natural (h' ! r) (A * B mod C)"
proof (cases "A = 0")
  case True
  then show ?thesis
    using assms natural_sign [OF assms(5)] natural_sign [OF assms(7)] by (intro exI [of _ h]) (simp add: bigint_mul_mod_def)
next
  case False
  obtain h1 where h1: "bigint_mul h (Ref r) (Ref r) (Ref b) = Some (0, h1)" "keeps r h h1" "natural (h1 ! r) (A * B)"
    using mul_natural [of r h r b A B] assms by auto
  have c1: "natural (h1 ! c) C" "length h1 = length h" using keeps_natural [OF h1(2) assms(3)] keeps_length [OF h1(2)] assms by auto
  obtain h2 where h2: "bigint_mod h1 (Ref r) (Ref r) (Ref c) = Some (0, h2)" "keeps r h1 h2" "natural (h2 ! r) (A * B mod C)"
    using mod_natural [of r h1 r c "A * B" C] assms c1 h1(3) False by auto
  have "bigint_mul_mod h (Ref r) (Ref r) (Ref b) (Ref c) = Some (0, h2)"
    using h1(1) h2(1) assms False natural_sign [OF assms(5)] natural_sign [OF assms(6)] natural_sign [OF assms(7)]
    by (simp add: bigint_mul_mod_def on_success_def)
  then show ?thesis using h1(2) h2(2,3) by (auto simp: keeps_def)
qed

lemma odd_unat: "even (unat (x :: u64)) = even x"
  using bit_unsigned_iff [where 'a = nat, of x 0] by (simp add: bit_0)

lemma shr_one_items_ok:
  "items_ok us \<Longrightarrow> items_ok (shr_one_items (push_bit 47 (of_bool p)) us) \<and> length (shr_one_items (push_bit 47 (of_bool p)) us) = length us \<and>
    items_val (rev (shr_one_items (push_bit 47 (of_bool p)) us)) = (of_bool p * radix (length us) + items_val (rev us)) div 2"
proof (induction us arbitrary: p)
  case Nil
  then show ?case by simp
next
  case (Cons x us)
  let ?v = "items_val (rev us)" and ?R = "radix (length us)" and ?q = "odd (unat x)"
  have "x AND 1 = of_bool ?q" by (simp add: and_one_eq mod_2_eq_odd odd_unat)
  then have e: "shr_one_items (push_bit 47 (of_bool p)) (x # us) =
      (push_bit 47 (of_bool p) OR drop_bit 1 x) # shr_one_items (push_bit 47 (of_bool ?q)) us" by (simp add: BIGINT_ITEM_BITS_def)
  have x: "unat (drop_bit 1 x) = unat x div 2" "unat x div 2 < 2 ^ 47" using Cons.prems by auto
  have "unat (push_bit 47 (of_bool p) OR drop_bit 1 x) = of_bool p * 2 ^ 47 + unat x div 2"
    using or_low_bits [of "drop_bit 1 x" 47 "of_bool p"] x by (cases p) (simp_all add: unat_word_ariths)
  moreover have "(of_bool p * radix (length (x # us)) + items_val (rev (x # us))) div 2 =
      (of_bool ?q * ?R + ?v) div 2 + ?R * (of_bool p * 2 ^ 47 + unat x div 2)"
  proof -
    define d where "d = unat x div 2"
    have "unat x = 2 * d + of_bool ?q" unfolding d_def of_bool_odd_eq_mod_2 by simp
    then have "?R * unat x = ?R * (2 * d + of_bool ?q)" by (rule arg_cong)
    then have Rx: "?R * unat x = 2 * (?R * d) + of_bool ?q * ?R" by (simp add: algebra_simps)
    have "of_bool p * radix (length (x # us)) + items_val (rev (x # us)) =
        (of_bool ?q * ?R + ?v) + 2 * (?R * (of_bool p * 2 ^ 47 + unat x div 2))"
      unfolding d_def [symmetric] using Rx by (cases p) (simp_all add: algebra_simps)
    then show ?thesis by simp
  qed
  ultimately show ?case using Cons.IH [of ?q] Cons.prems x(2) unfolding e by (cases p) simp_all
qed

lemma shr_one_ok: "natural b n \<Longrightarrow> natural (shr_one_number b) (n div 2)"
proof (cases "n = 0")
  case False
  assume b: "natural b n"
  let ?xs = "rev (shr_one_items 0 (rev (items b)))"
  have "items_ok ?xs" "items_val ?xs = n div 2"
    using shr_one_items_ok [of "rev (items b)" False] b False by (auto simp: natural_iff items_ok_def)
  then show ?thesis
    using b False remove_zeros_pos [of "b\<lparr>items := ?xs\<rparr>"]
    by (auto simp: shr_one_number_def natural_iff bigint_remove_leading_zeros_def bigint_zero_def Let_def)
qed (simp add: shr_one_number_def natural_iff)

lemma is_odd_natural: "a < length h \<Longrightarrow> natural (h ! a) n \<Longrightarrow> bigint_is_odd h (Ref a) = Some (odd n)"
  by (cases "items (h ! a)"; cases "n = 0")
    (auto simp: bigint_is_odd_def lsb_value_def natural_iff and_one_eq mod_2_eq_odd odd_unat)

subsection \<open>Powers\<close>

text \<open>The loops take the exponent's bits from the least significant one; they end because it gets smaller.\<close>

lemma power_step: "(x :: nat) * s ^ e = (if odd e then x * s else x) * (s * s) ^ (e div 2)"
proof -
  have "s ^ e = s ^ (2 * (e div 2) + e mod 2)" by simp
  also have "\<dots> = (s * s) ^ (e div 2) * s ^ (e mod 2)" by (simp only: power_add power_mult power2_eq_square)
  finally show ?thesis by (cases "odd e") (simp_all add: odd_iff_mod_2_eq_one even_iff_mod_2_eq_zero)
qed

lemma pow_loop_ok:
  assumes "r \<noteq> s" "r \<noteq> e" "s \<noteq> e" "r < length h" "s < length h" "e < length h"
    and "natural (h ! r) R" "natural (h ! s) S" "natural (h ! e) E"
  shows "\<exists>h'. pow_loop (Ref r) (Ref s) (Ref e) h = Some (0, h') \<and> length h' = length h \<and> natural (h' ! r) (R * S ^ E) \<and>
    (\<forall>k<length h. k \<noteq> r \<longrightarrow> k \<noteq> s \<longrightarrow> k \<noteq> e \<longrightarrow> (\<forall>n. natural (h ! k) n \<longrightarrow> natural (h' ! k) n))"
  using assms(4-)
proof (induction E arbitrary: h R S rule: less_induct)
  case (less E)
  note sg = natural_sign [OF less.prems(6)]
  show ?case
  proof (cases "E = 0")
    case True
    then show ?thesis using less.prems sg by (intro exI [of _ h]) (simp add: pow_loop.simps)
  next
    case False
    let ?R = "if odd E then R * S else R"
    have "\<exists>h1. (if odd E then bigint_mul h (Ref r) (Ref r) (Ref s) else Some (0, h)) = Some (0, h1) \<and> keeps r h h1 \<and> natural (h1 ! r) ?R"
      using mul_natural [of r h r s R S] less.prems assms(1) by (cases "odd E") auto
    then obtain h1 where h1: "(if odd E then bigint_mul h (Ref r) (Ref r) (Ref s) else Some (0, h)) = Some (0, h1)" "keeps r h h1" "natural (h1 ! r) ?R"
      by blast
    have n1: "length h1 = length h" "natural (h1 ! s) S" "natural (h1 ! e) E"
      using keeps_length [OF h1(2)] keeps_natural [OF h1(2)] less.prems assms(1,2) by auto
    obtain h2 where h2: "bigint_mul h1 (Ref s) (Ref s) (Ref s) = Some (0, h2)" "keeps s h1 h2" "natural (h2 ! s) (S * S)"
      using mul_natural [of s h1 s s S S] n1 less.prems by auto
    have n2: "length h2 = length h" "natural (h2 ! r) ?R" "natural (h2 ! e) E"
      using keeps_length [OF h2(2)] keeps_natural [OF h2(2)] n1 h1(3) less.prems assms(1,3) by auto
    define h3 where "h3 = h2[e := shr_one_number (h2 ! e)]"
    have n3: "natural (h3 ! e) (E div 2)" "natural (h3 ! r) ?R" "natural (h3 ! s) (S * S)" "length h3 = length h"
      using shr_one_ok [OF n2(3)] n2 h2(3) less.prems assms(2,3) by (simp_all add: h3_def)
    obtain h4 where h4: "pow_loop (Ref r) (Ref s) (Ref e) h3 = Some (0, h4)" "length h4 = length h" "natural (h4 ! r) (?R * (S * S) ^ (E div 2))"
        "\<forall>k<length h. k \<noteq> r \<longrightarrow> k \<noteq> s \<longrightarrow> k \<noteq> e \<longrightarrow> (\<forall>n. natural (h3 ! k) n \<longrightarrow> natural (h4 ! k) n)"
      using less.IH [of "E div 2" h3 ?R "S * S"] False n3 less.prems by auto
    have "pow_loop (Ref r) (Ref s) (Ref e) h = Some (0, h4)"
      using h1(1) h2(1) h4(1) sg False less.prems n2 is_odd_natural [OF less.prems(3,6)]
      by (simp add: pow_loop.simps [of "Ref r" "Ref s" "Ref e" h] on_success_def bigint_shr_one_def h3_def [symmetric])
    moreover have "natural (h4 ! k) n" if "k < length h" "k \<noteq> r" "k \<noteq> s" "k \<noteq> e" "natural (h ! k) n" for k n
      using that h4(4) keeps_natural [OF h2(2)] keeps_natural [OF h1(2)] n1(1) by (simp add: h3_def)
    ultimately show ?thesis using h4(2,3) power_step [of R S E] by auto
  qed
qed

lemma pow_mod_loop_ok:
  assumes "distinct [r, s, e, c]" "1 < C" "r < length h" "s < length h" "e < length h" "c < length h"
    and "natural (h ! r) R" "natural (h ! s) S" "natural (h ! e) E" "natural (h ! c) C" "R < C" "coprime S C"
  shows "\<exists>h'. pow_mod_loop (Ref r) (Ref s) (Ref e) (Ref c) h = Some (0, h') \<and> length h' = length h \<and> natural (h' ! r) (R * S ^ E mod C) \<and>
    (\<forall>k<length h. k \<noteq> r \<longrightarrow> k \<noteq> s \<longrightarrow> k \<noteq> e \<longrightarrow> (\<forall>n. natural (h ! k) n \<longrightarrow> natural (h' ! k) n))"
  using assms(3-)
proof (induction E arbitrary: h R S rule: less_induct)
  case (less E)
  note sg = natural_sign [OF less.prems(7)] and d = assms(1)
  show ?case
  proof (cases "E = 0")
    case True
    then show ?thesis using less.prems sg by (intro exI [of _ h]) (simp add: pow_mod_loop.simps)
  next
    case False
    let ?R = "if odd E then R * S mod C else R"
    have S: "S \<noteq> 0" using less.prems(10) assms(2) by (cases "S = 0") auto
    have "\<exists>h1. (if odd E then bigint_mul_mod h (Ref r) (Ref r) (Ref s) (Ref c) else Some (0, h)) = Some (0, h1) \<and> keeps r h h1 \<and> natural (h1 ! r) ?R"
      using mul_mod_natural [of r h s c R S C] less.prems d S assms(2) by (cases "odd E") auto
    then obtain h1 where h1: "(if odd E then bigint_mul_mod h (Ref r) (Ref r) (Ref s) (Ref c) else Some (0, h)) = Some (0, h1)" "keeps r h h1"
        "natural (h1 ! r) ?R" by blast
    have n1: "length h1 = length h" "natural (h1 ! s) S" "natural (h1 ! e) E" "natural (h1 ! c) C"
      using keeps_length [OF h1(2)] keeps_natural [OF h1(2)] less.prems d by auto
    obtain h2 where h2: "bigint_mul_mod h1 (Ref s) (Ref s) (Ref s) (Ref c) = Some (0, h2)" "keeps s h1 h2" "natural (h2 ! s) (S * S mod C)"
      using mul_mod_natural [of s h1 s c S S C] n1 less.prems d S assms(2) by auto
    have n2: "length h2 = length h" "natural (h2 ! r) ?R" "natural (h2 ! e) E" "natural (h2 ! c) C"
      using keeps_length [OF h2(2)] keeps_natural [OF h2(2)] n1 h1(3) less.prems d by auto
    define h3 where "h3 = h2[e := shr_one_number (h2 ! e)]"
    have n3: "natural (h3 ! e) (E div 2)" "natural (h3 ! r) ?R" "natural (h3 ! s) (S * S mod C)" "length h3 = length h" "natural (h3 ! c) C"
      using shr_one_ok [OF n2(3)] n2 h2(3) less.prems d by (simp_all add: h3_def)
    have "?R < C" using less.prems(9) assms(2) by simp
    moreover have "coprime (S * S mod C) C" using less.prems(10) assms(2) by (simp add: coprime_mod_left_iff)
    ultimately obtain h4 where h4: "pow_mod_loop (Ref r) (Ref s) (Ref e) (Ref c) h3 = Some (0, h4)" "length h4 = length h"
        "natural (h4 ! r) (?R * (S * S mod C) ^ (E div 2) mod C)"
        "\<forall>k<length h. k \<noteq> r \<longrightarrow> k \<noteq> s \<longrightarrow> k \<noteq> e \<longrightarrow> (\<forall>n. natural (h3 ! k) n \<longrightarrow> natural (h4 ! k) n)"
      using less.IH [of "E div 2" h3 ?R "S * S mod C"] False n3 less.prems assms(2) by auto
    have "pow_mod_loop (Ref r) (Ref s) (Ref e) (Ref c) h = Some (0, h4)"
      using h1(1) h2(1) h4(1) sg False less.prems n2 is_odd_natural [OF less.prems(3,7)]
      by (simp add: pow_mod_loop.simps [of "Ref r" "Ref s" "Ref e" "Ref c" h] on_success_def bigint_shr_one_def h3_def [symmetric])
    moreover have "natural (h4 ! k) n" if "k < length h" "k \<noteq> r" "k \<noteq> s" "k \<noteq> e" "natural (h ! k) n" for k n
      using that h4(4) keeps_natural [OF h2(2)] keeps_natural [OF h1(2)] n1(1) by (simp add: h3_def)
    moreover have "?R * (S * S mod C) ^ (E div 2) mod C = R * S ^ E mod C"
      unfolding power_step [of R S E] by (rule mod_mult_cong) (simp_all add: power_mod)
    ultimately show ?thesis using h4(2,3) by auto
  qed
qed

end
