(* ===== verification/BigInt_Powers.thy ===== *)
theory BigInt_Powers
  imports BigInt_Nat
begin

lemma clone_eval:
  assumes "a < length h" "wf_big (h ! a)"
  shows "bigint_clone h (Ref a) = Some (Ref (length h), h @ [h ! a])"
  using assms set_bigint_eval [of "length h" "h @ [bigint_zero]" a]
  by (simp add: bigint_clone_def bigint_create_def nth_append)

definition big_one :: bigint_t where
  "big_one = \<lparr>items = [1], sign = 1, neged_with_sign = False\<rparr>"

lemma natural_one [simp]: "natural big_one 1" "natural big_one (Suc 0)"
  by (simp_all add: natural_iff big_one_def)

lemma set_one_eval:
  assumes "t < length h"
  shows "bigint_set_uint64 h (Ref t) 1 = Some (0, h[t := big_one])" "bigint_set_int64 h (Ref t) 1 = Some (0, h[t := big_one])"
  using assms by (simp_all add: bigint_set_uint64_def bigint_set_int64_def split_items_def BIGINT_ITEM_MAX_def big_one_def)

text \<open>Operations that write to a new number when the result is the first operand.\<close>

lemma with_result:
  assumes "r < length h" "a < length h"
    and core: "\<And>t h1. t < length h1 \<Longrightarrow> h1 ! t = bigint_zero \<Longrightarrow> length h \<le> length h1 \<Longrightarrow> (\<And>k. k < length h \<Longrightarrow> k \<noteq> t \<Longrightarrow> h1 ! k = h ! k) \<Longrightarrow>
      t \<noteq> a \<Longrightarrow> t = r \<or> t = length h \<and> r = a \<Longrightarrow>
      \<exists>h2. body (Ref t) h1 = big_finish (Ref r) (Ref a) (Ref t) h2 \<and> length h1 \<le> length h2 \<and> natural (h2 ! t) n \<and>
        (\<forall>k<length h. k \<noteq> t \<longrightarrow> (\<forall>m. natural (h ! k) m \<longrightarrow> natural (h2 ! k) m))"
  shows "\<exists>h'. (case big_start h (Ref r) (Ref a) of (tmp, h1) \<Rightarrow> map_option (drop_temps h) (body tmp h1)) = Some (0, h') \<and>
    keeps r h h' \<and> natural (h' ! r) n"
proof (cases "r = a")
  case True
  let ?t = "length h" and ?h = "h @ [bigint_zero]"
  obtain h2 where h2: "body (Ref ?t) ?h = big_finish (Ref r) (Ref a) (Ref ?t) h2" "length ?h \<le> length h2" "natural (h2 ! ?t) n"
      "\<forall>k<length h. k \<noteq> ?t \<longrightarrow> (\<forall>m. natural (h ! k) m \<longrightarrow> natural (h2 ! k) m)"
    using core [of ?t ?h] True assms(2) by (auto simp: nth_append)
  have "big_finish (Ref r) (Ref a) (Ref ?t) h2 = Some (0, h2[a := h2 ! ?t])"
    using set_bigint_eval [of a h2 ?t] natural_wf [OF h2(3)] h2(2) assms(2) True by (simp add: big_finish_def)
  then show ?thesis
    using h2 True assms(2) by (auto simp: big_start_def bigint_create_def drop_temps_def keeps_def)
next
  case False
  let ?h = "h[r := bigint_zero]"
  obtain h2 where h2: "body (Ref r) ?h = big_finish (Ref r) (Ref a) (Ref r) h2" "length ?h \<le> length h2" "natural (h2 ! r) n"
      "\<forall>k<length h. k \<noteq> r \<longrightarrow> (\<forall>m. natural (h ! k) m \<longrightarrow> natural (h2 ! k) m)"
    using core [of r ?h] False assms(1) by auto
  then show ?thesis
    using False assms(1) by (auto simp: big_start_def bigint_destroy_items_def big_finish_def drop_temps_def keeps_def)
qed

lemma zero_sign_put: "h1 ! t = bigint_zero \<Longrightarrow> t < length h1 \<Longrightarrow> big_modify h1 (Ref t) (sign_update (\<lambda>_. 0)) = Some h1"
  using list_update_id [of h1 t] by (simp add: bigint_zero_def)

lemma pow_natural:
  assumes "r < length h" "a < length h" "b < length h" "r = a \<or> r \<noteq> b" "natural (h ! a) A" "natural (h ! b) E" "A \<noteq> 0 \<or> E \<noteq> 0"
  shows "\<exists>h'. bigint_pow h (Ref r) (Ref a) (Ref b) = Some (0, h') \<and> keeps r h h' \<and> natural (h' ! r) (A ^ E)"
  unfolding bigint_pow_def Let_def
proof (simp, rule with_result [OF assms(1,2)], goal_cases)
  case (1 t h1)
  note t = 1
  have bt: "b \<noteq> t" using t(5,6) assms(3,4) by auto
  have ab: "h1 ! a = h ! a" "h1 ! b = h ! b" "a < length h1" "b < length h1" using t(3-5) bt assms(2,3) by auto
  note sg = natural_sign [OF assms(5)] natural_sign [OF assms(6)]
  consider "A = 0" "E \<noteq> 0" | "A \<noteq> 0" "E = 0" | "A \<noteq> 0" "E \<noteq> 0" using assms(7) by auto
  then show ?case
  proof cases
    case 1
    then show ?thesis using t ab sg zero_sign_put [of h1 t] by (intro exI [of _ h1]) (simp add: power_0_left del: big_modify_Ref)
  next
    case 2
    then show ?thesis using t ab sg set_one_eval(2) [of t h1] by (intro exI [of _ "h1[t := big_one]"]) simp
  next
    case 3
    let ?n = "length h1" and ?h = "(h1 @ [h ! a] @ [h ! b])[t := big_one]"
    obtain h' where h': "pow_loop (Ref t) (Ref ?n) (Ref (Suc ?n)) ?h = Some (0, h')" "length h' = Suc (Suc ?n)" "natural (h' ! t) (A ^ E)"
        "\<forall>k<Suc (Suc ?n). k \<noteq> t \<longrightarrow> k \<noteq> ?n \<longrightarrow> k \<noteq> Suc ?n \<longrightarrow> (\<forall>m. natural (?h ! k) m \<longrightarrow> natural (h' ! k) m)"
      using pow_loop_ok [of t ?n "Suc ?n" ?h 1 A E] t(1) assms(5,6) by (auto simp: nth_append)
    have "natural (h' ! k) m" if "k < length h" "k \<noteq> t" "natural (h ! k) m" for k m
    proof -
      have "?h ! k = h ! k" using that t(3,4) by (simp add: nth_append)
      then show ?thesis using h'(4) that t(3) by auto
    qed
    then show ?thesis
      using 3 h' ab sg t(1) clone_eval [of a h1] clone_eval [of b "h1 @ [h ! a]"] natural_wf [OF assms(5)] natural_wf [OF assms(6)]
        set_one_eval(1) [of t "h1 @ [h ! a] @ [h ! b]"]
      by (intro exI [of _ h']) (simp add: nth_append on_success_def)
  qed
qed

lemma pow_mod_natural:
  assumes "r < length h" "a < length h" "b < length h" "c < length h" "r = a \<or> r \<noteq> b" "r \<noteq> c"
    and "natural (h ! a) A" "natural (h ! b) E" "natural (h ! c) C" "1 < C" "coprime A C"
  shows "\<exists>h'. bigint_pow_mod h (Ref r) (Ref a) (Ref b) (Ref c) = Some (0, h') \<and> keeps r h h' \<and> natural (h' ! r) (A ^ E mod C)"
  unfolding bigint_pow_mod_def Let_def
proof (simp, rule with_result [OF assms(1,2)], goal_cases)
  case (1 t h1)
  note t = 1
  have A: "0 < A" using assms(10,11) by (cases "A = 0") auto
  have ct: "b \<noteq> t" "c \<noteq> t" using t(5,6) assms(3-6) by auto
  have ab: "h1 ! a = h ! a" "h1 ! b = h ! b" "h1 ! c = h ! c" "a < length h1" "b < length h1" "c < length h1"
    using t(3-5) ct assms(2-4) by auto
  note sg = natural_sign [OF assms(7)] natural_sign [OF assms(8)]
  show ?case
  proof (cases "E = 0")
    case True
    then show ?thesis using A t ab sg set_one_eval(2) [of t h1] assms(10) by (intro exI [of _ "h1[t := big_one]"]) simp
  next
    case False
    let ?n = "length h1" and ?h = "h1 @ [h ! a]"
    obtain h3 where h3: "bigint_mod ?h (Ref ?n) (Ref ?n) (Ref c) = Some (0, h3)" "keeps ?n ?h h3" "natural (h3 ! ?n) (A mod C)"
      using mod_natural [of ?n ?h ?n c A C] assms(7,9,10) A ab by (auto simp: nth_append)
    have len: "length h3 = Suc ?n" using keeps_length [OF h3(2)] by simp
    have keep3: "natural (h3 ! k) m" if "k < length h" "k \<noteq> t" "natural (h ! k) m" for k m
      using keeps_natural [OF h3(2), of k m] that t(3,4) by (simp add: nth_append)
    let ?h5 = "(h3 @ [h3 ! b])[t := big_one]"
    have copr: "coprime (A mod C) C" using assms(10,11) by (simp add: coprime_mod_left_iff)
    have bc: "natural (h3 ! b) E" "natural (h3 ! c) C" using keep3 ct assms(3,4,8,9) by auto
    obtain h6 where h6: "pow_mod_loop (Ref t) (Ref ?n) (Ref (Suc ?n)) (Ref c) ?h5 = Some (0, h6)" "length h6 = Suc (Suc ?n)"
        "natural (h6 ! t) (1 * (A mod C) ^ E mod C)"
        "\<forall>k<Suc (Suc ?n). k \<noteq> t \<longrightarrow> k \<noteq> ?n \<longrightarrow> k \<noteq> Suc ?n \<longrightarrow> (\<forall>m. natural (?h5 ! k) m \<longrightarrow> natural (h6 ! k) m)"
      using pow_mod_loop_ok [of t ?n "Suc ?n" c C ?h5 1 "A mod C" E] t(1) assms(10) copr bc h3(3) ct ab len by (auto simp: nth_append)
    have keep6: "natural (h6 ! k) m" if "k < length h" "k \<noteq> t" "natural (h ! k) m" for k m
    proof -
      have "natural (?h5 ! k) m" using keep3 [OF that] that t(3) len by (simp add: nth_append)
      then show ?thesis using h6(4) that t(3) by auto
    qed
    let ?h7 = "h6[t := bigint_remove_leading_zeros (h6 ! t)]"
    have "natural (bigint_remove_leading_zeros (h6 ! t)) (A ^ E mod C)"
      using remove_zeros_natural [OF h6(3)] by (simp add: power_mod)
    then show ?thesis
      using False A h3(1) h6(1,2) keep6 ab sg t(1) len clone_eval [of a h1] clone_eval [of b h3] natural_wf [OF assms(7)] natural_wf [OF bc(1)]
        set_one_eval(1) [of t "h3 @ [h3 ! b]"]
      by (intro exI [of _ ?h7]) (simp add: nth_append on_success_def)
  qed
qed

subsection \<open>Euclid's algorithm\<close>

lemma gcd_loop_ok:
  assumes "distinct [p, q, t]" "p < length h" "q < length h" "t < length h" "natural (h ! p) P" "natural (h ! q) Q" "0 < Q"
  shows "\<exists>h'. gcd_loop (Ref p) (Ref q) (Ref t) h = Some (0, h') \<and> length h' = length h \<and> natural (h' ! q) (gcd P Q) \<and>
    (\<forall>k<length h. k \<noteq> p \<longrightarrow> k \<noteq> q \<longrightarrow> k \<noteq> t \<longrightarrow> (\<forall>n. natural (h ! k) n \<longrightarrow> natural (h' ! k) n))"
  using assms(2-)
proof (induction P arbitrary: h Q rule: less_induct)
  case (less P)
  note sg = natural_sign [OF less.prems(4)] and d = assms(1)
  show ?case
  proof (cases "P = 0")
    case True
    then show ?thesis using less.prems sg by (intro exI [of _ h]) (simp add: gcd_loop.simps)
  next
    case False
    obtain h1 where h1: "bigint_mod h (Ref t) (Ref q) (Ref p) = Some (0, h1)" "keeps t h h1" "natural (h1 ! t) (Q mod P)"
      using mod_natural [of t h q p Q P] less.prems False by auto
    have n1: "length h1 = length h" "natural (h1 ! p) P" using keeps_length [OF h1(2)] keeps_natural [OF h1(2)] less.prems d by auto
    let ?h2 = "h1[q := h1 ! p]" and ?h3 = "h1[q := h1 ! p, p := h1 ! t]"
    have s: "bigint_set_bigint h1 (Ref q) (Ref p) = Some (0, ?h2)" "bigint_set_bigint ?h2 (Ref p) (Ref t) = Some (0, ?h3)"
      using set_bigint_eval [of q h1 p] set_bigint_eval [of p ?h2 t] n1 natural_wf [OF n1(2)] natural_wf [OF h1(3)] less.prems d by auto
    obtain h4 where h4: "gcd_loop (Ref p) (Ref q) (Ref t) ?h3 = Some (0, h4)" "length h4 = length h" "natural (h4 ! q) (gcd (Q mod P) P)"
        "\<forall>k<length h. k \<noteq> p \<longrightarrow> k \<noteq> q \<longrightarrow> k \<noteq> t \<longrightarrow> (\<forall>n. natural (?h3 ! k) n \<longrightarrow> natural (h4 ! k) n)"
      using less.IH [of "Q mod P" ?h3 P] n1 h1(3) less.prems False d by auto
    have "gcd_loop (Ref p) (Ref q) (Ref t) h = Some (0, h4)"
      using h1(1) s h4(1) sg False less.prems by (simp add: gcd_loop.simps [of "Ref p" "Ref q" "Ref t" h] on_success_def)
    moreover have "gcd (Q mod P) P = gcd P Q" by (metis gcd.commute gcd_red_nat)
    moreover have "natural (h4 ! k) n" if "k < length h" "k \<noteq> p" "k \<noteq> q" "k \<noteq> t" "natural (h ! k) n" for k n
      using that h4(4) keeps_natural [OF h1(2)] by simp
    ultimately show ?thesis using h4(2,3) by auto
  qed
qed

lemma gcd_natural:
  assumes "r < length h" "a < length h" "b < length h" "r = a \<or> r \<noteq> b" "natural (h ! a) A" "natural (h ! b) B" "A \<noteq> B"
  shows "\<exists>h'. bigint_gcd h (Ref r) (Ref a) (Ref b) = Some (0, h') \<and> keeps r h h' \<and> natural (h' ! r) (gcd A B)"
  unfolding bigint_gcd_def Let_def
proof (simp, rule with_result [OF assms(1,2)], goal_cases)
  case (1 t h1)
  note t = 1
  have bt: "b \<noteq> t" using t(5,6) assms(3,4) by auto
  have ab: "h1 ! a = h ! a" "h1 ! b = h ! b" "a < length h1" "b < length h1" using t(3-5) bt assms(2,3) by auto
  have cmp: "bigint_cmp h1 (Ref a) (Ref b) = Some (sgn (int A - int B), h1)" using cmp_natural [of a h1 b A B] ab assms(5,6) by simp
  let ?n = "length h1" and ?h = "h1 @ [h ! a, h ! b, bigint_zero]"
  define p q where "p = (if A < B then ?n else Suc ?n)" and "q = (if A < B then Suc ?n else ?n)"
  define P Q where "P = (if A < B then A else B)" and "Q = (if A < B then B else A)"
  have pq: "natural (?h ! p) P" "natural (?h ! q) Q" "distinct [p, q, Suc (Suc ?n)]" "p < length ?h" "q < length ?h" "?n \<le> p" "?n \<le> q" "0 < Q"
    using assms(5-7) by (auto simp: p_def q_def P_def Q_def nth_append)
  have g: "gcd P Q = gcd A B" by (simp add: P_def Q_def gcd.commute)
  obtain h6 where h6: "gcd_loop (Ref p) (Ref q) (Ref (Suc (Suc ?n))) ?h = Some (0, h6)" "length h6 = length ?h" "natural (h6 ! q) (gcd A B)"
      "\<forall>k<length ?h. k \<noteq> p \<longrightarrow> k \<noteq> q \<longrightarrow> k \<noteq> Suc (Suc ?n) \<longrightarrow> (\<forall>n. natural (?h ! k) n \<longrightarrow> natural (h6 ! k) n)"
    using gcd_loop_ok [OF pq(3,4,5) _ pq(1,2,8)] g by auto
  let ?r = "h6 ! q"
  have set': "bigint_set_bigint h6 (Ref t) (Ref q) = Some (0, h6[t := ?r])"
    using set_bigint_eval [of t h6 q] natural_wf [OF h6(3)] h6(2) pq(5) t(1) by simp
  have keep6: "natural (h6 ! k) m" if "k < length h" "k \<noteq> t" "natural (h ! k) m" for k m
  proof -
    have "?h ! k = h ! k" using that t(3,4) by (simp add: nth_append)
    then show ?thesis using h6(4) that t(3) pq(6,7) by auto
  qed
  have sgr: "sign ?r \<noteq> - 1" using natural_sign [OF h6(3)] by simp
  have "natural (bigint_remove_leading_zeros ?r) (gcd A B)" by (rule remove_zeros_natural [OF h6(3)])
  moreover have "sgn (int A - int B) = (if A < B then - 1 else 1)" using assms(7) by (simp add: sgn_int_diff)
  ultimately show ?case
    using cmp h6(1,2) keep6 ab t(1) assms(7) clone_eval [of a h1] clone_eval [of b "h1 @ [h ! a]"] natural_wf [OF assms(5)] natural_wf [OF assms(6)] set' sgr
    by (intro exI [of _ "h6[t := bigint_remove_leading_zeros ?r]"]; cases "A < B")
      (simp_all add: nth_append on_success_def bigint_create_def p_def q_def)
qed

end
