(* ===== verification/BigInt_Text.thy ===== *)
theory BigInt_Text
  imports BigInt_Nat
begin

text \<open>
  Big integers as hexadecimal text: what \<open>bigint_to_str\<close> writes, \<open>bigint_set_str\<close> reads back.
\<close>

subsection \<open>Digits\<close>

lemma hex_value_digit: "hex_value (hex_digit (v AND 15)) = Some (v AND 15)"
proof -
  define d where "d = v AND 15"
  define digits where "digits = [0, 1, 2, 3, 4, 5, 6, 7, 8, 9, 10, 11, 12, 13, 14, 15 :: u64]"
  have "d = take_bit 4 v" by (simp add: d_def take_bit_eq_mask mask_eq_exp_minus_1)
  then have "unat d < 16" by (simp only: unsigned_take_bit_eq) (simp add: take_bit_eq_mod)
  moreover have "d = word_of_nat (unat d)" by simp
  ultimately have "d \<in> word_of_nat ` {..<16}" by blast
  moreover have "word_of_nat ` {..<16 :: nat} = set digits" unfolding digits_def
  proof -
    have "{..<16 :: nat} = {0, 1, 2, 3, 4, 5, 6, 7, 8, 9, 10, 11, 12, 13, 14, 15}" by auto presburger
    then show "word_of_nat ` {..<16 :: nat} = set [0, 1, 2, 3, 4, 5, 6, 7, 8, 9, 10, 11, 12, 13, 14, 15 :: u64]" by simp
  qed
  moreover have "list_all (\<lambda>d. hex_value (hex_digit d) = Some d) digits" unfolding digits_def by code_simp
  ultimately show ?thesis by (auto simp: d_def list_all_iff)
qed

lemma and_15: "v AND 15 = take_bit 4 (v :: u64)"
  by (simp add: take_bit_eq_mask mask_eq_exp_minus_1)

lemma parse_part_append: "parse_part (xs @ ys) v = parse_part xs v \<bind> parse_part ys"
  by (induction xs arbitrary: v) (auto split: Option.bind_splits)

lemma parse_padded: "n \<le> 16 \<Longrightarrow> parse_part (hex_padded n v) 0 = Some (take_bit (4 * n) v)"
proof (induction n arbitrary: v)
  case (Suc n)
  have "push_bit 4 (take_bit (4 * n) (drop_bit 4 v)) AND take_bit 4 v = 0"
    by (rule bit_eqI) (auto simp: bit_simps)
  then have "push_bit 4 (take_bit (4 * n) (drop_bit 4 v)) + take_bit 4 v = push_bit 4 (take_bit (4 * n) (drop_bit 4 v)) OR take_bit 4 v"
    by (rule disjunctive_add_eq_or)
  also have "\<dots> = take_bit (4 * Suc n) v"
    by (rule bit_eqI) (auto simp: bit_simps)
  finally show ?case using Suc by (simp add: parse_part_append hex_value_digit [unfolded and_15] and_15)
qed simp

lemma parse_zeros: "parse_part (dropWhile (\<lambda>c. c = 48) cs) 0 = parse_part cs 0"
  by (induction cs) (auto simp: hex_value_def)

lemma length_hex_padded [simp]: "length (hex_padded n v) = n"
  by (induction n arbitrary: v) auto

lemma hex_padded_add: "hex_padded (m + n) v = hex_padded m (drop_bit (4 * n) v) @ hex_padded n v"
  by (induction n arbitrary: v) (auto simp: drop_bit_drop_bit add.commute)

lemma hex_padded_zero: "hex_padded n 0 = replicate n 48"
  by (induction n) (auto simp: hex_digit_def replicate_append_same)

lemma take_bit_item: "unat (x :: u64) < 2 ^ n \<Longrightarrow> take_bit n x = x"
  by (simp add: word_unat_eq_iff unsigned_take_bit_eq take_bit_nat_eq_self_iff)

lemma hex_plain_ok:
  assumes "unat v < 2 ^ 48" "v \<noteq> 0"
  shows "parse_part (hex_plain v) 0 = Some v" "hex_plain v \<noteq> []" "hd (hex_plain v) \<noteq> 48" "length (hex_plain v) \<le> 12"
proof -
  have e: "hex_plain v = dropWhile (\<lambda>c. c = 48) (hex_padded 16 v)" using assms(2) by (simp add: hex_plain_def)
  show p: "parse_part (hex_plain v) 0 = Some v" unfolding e parse_zeros using parse_padded [of 16 v] take_bit_item [of v 64] assms(1) by simp
  then show "hex_plain v \<noteq> []" using assms(2) by auto
  then show "hd (hex_plain v) \<noteq> 48" unfolding e by (rule hd_dropWhile)
  have "unat (drop_bit 48 v) = 0" using assms(1) by simp
  then have "drop_bit 48 v = 0" by (simp only: unat_eq_zero)
  then have "hex_padded (4 + 12) v = replicate 4 48 @ hex_padded 12 v" using hex_padded_add [of 4 12 v] hex_padded_zero [of 4] by simp
  then have "hex_plain v = dropWhile (\<lambda>c. c = 48) (hex_padded 12 v)" unfolding e
    using dropWhile_append2 [of "replicate 4 48" "\<lambda>c. c = 48" "hex_padded 12 v"] by simp
  then show "length (hex_plain v) \<le> 12" using length_dropWhile_le [of _ "hex_padded 12 v"] by simp
qed

lemma parse_parts_ok:
  assumes "\<forall>x\<in>set xs. unat x < 2 ^ 48"
  shows "parse_parts (length xs) 12 (concat (map (hex_padded 12) xs)) ys = Some (rev xs @ ys)"
  using assms
proof (induction xs arbitrary: ys)
  case (Cons x xs)
  then show ?case using take_bit_item [of x 48] parse_padded [of 12 x] by (simp add: BIGINT_ITEM_HEX_DIGITS_def)
qed simp

subsection \<open>Numbers\<close>

lemma part_lengths:
  assumes "1 \<le> n" "n \<le> 12"
  shows "(if (n + 12 * m) mod 12 \<noteq> 0 then (n + 12 * m) div 12 + 1 else (n + 12 * m) div 12) = Suc m"
    "(if (n + 12 * m) mod 12 = 0 then 12 else (n + 12 * m) mod 12) = n"
  using assms by (cases "n = 12"; simp)+

lemma set_str_digits:
  assumes "r < length h" "D \<noteq> []" "hd D \<noteq> 48" "hd D \<noteq> 45" "s = - 1 \<or> s = 1"
    and "(if length D mod 12 \<noteq> 0 then length D div 12 + 1 else length D div 12) = n"
    and "(if length D mod 12 = 0 then 12 else length D mod 12) = m" "parse_parts n m D [] = Some xs"
  shows "bigint_set_str h (Ref r) (Ref ((if s < 0 then [45] else []) @ D)) = Some (0, h[r := \<lparr>items = xs, sign = s, neged_with_sign = False\<rparr>])"
proof -
  have drop: "dropWhile (\<lambda>c. c = 48) D = D" using assms(2,3) by (cases D) auto
  have other: "(\<forall>x\<in>set D. x = 48) = False" using assms(2,3) by (cases D) auto
  show ?thesis
    using assms(5-8)
    by (cases "length D mod 12 = 0"; elim disjE)
      (simp_all add: bigint_set_str_def Let_def BIGINT_ITEM_HEX_DIGITS_def assms(1-4) drop other del: parse_parts.simps)
qed

lemma bigint_str_roundtrip:
  assumes "a < length h" "r < length h" "proper (h ! a)"
  shows "\<exists>s h1 h2. bigint_to_str h (Ref a) = Some (Ref s, h1) \<and> bigint_set_str h1 (Ref r) (Ref s) = Some (0, h2) \<and>
    length h2 = length h \<and> bval (h2 ! r) = bval (h ! a) \<and> (\<forall>k<length h. k \<noteq> a \<longrightarrow> k \<noteq> r \<longrightarrow> h2 ! k = h ! k)"
proof (cases "sign (h ! a) = 0")
  case True
  then have "bigint_to_str h (Ref a) = Some (Ref [48], h)" using assms(1) by (simp add: bigint_to_str_def)
  moreover have "bigint_set_str h (Ref r) (Ref [48]) = Some (0, h[r := (h ! r)\<lparr>sign := 0\<rparr>])"
    using assms(2) by (simp add: bigint_set_str_def)
  ultimately show ?thesis using True assms(2) by (simp add: bval_def)
next
  case False
  let ?b = "big_magnitude (h ! a)"
  note mag = magnitude_ok [OF assms(3)]
  have b: "items_ok (items ?b)" "items_val (items ?b) \<noteq> 0" using mag(1,3) False by (auto simp: proper_def wf_big_def)
  obtain ys x where x: "strip_zeros (items ?b) = ys @ [x]" "x \<noteq> 0" "items_ok (ys @ [x])" "items_val (ys @ [x]) = items_val (items ?b)"
    using strip_zeros_snoc [OF b] by metis
  have neg: "sign (h ! a) = - 1 \<or> sign (h ! a) = 1" using wf_sign [OF proper_wf [OF assms(3)]] False by auto
  let ?d = "hex_plain x @ concat (map (hex_padded 12) (rev ys))"
  let ?s = "(if sign (h ! a) < 0 then [45] else []) @ ?d" and ?h1 = "h[a := ?b]"
  have nonempty: "items (h ! a) \<noteq> []" using assms(3) False by (auto simp: proper_def wf_big_def)
  have to: "bigint_to_str h (Ref a) = Some (Ref ?s, ?h1)"
    using assms(1) False nonempty x(1) mag(3) by (auto simp: bigint_to_str_def Let_def big_magnitude_def)
  have small: "unat x < 2 ^ 48" "\<forall>y\<in>set (rev ys). unat y < 2 ^ 48" using x(3) by (auto simp: items_ok_def)
  note p = hex_plain_ok [OF small(1) x(2)]
  have len: "length ?d = length (hex_plain x) + 12 * length ys" by (simp add: length_concat sum_list_triv comp_def)
  have d: "?d \<noteq> []" "hd ?d \<noteq> 48" using p(2,3) by (auto simp: hd_append)
  have hd45: "hd ?d \<noteq> 45" using p(1,2) by (cases "hex_plain x") (auto simp: hex_value_def)
  have parts: "(if length ?d mod 12 \<noteq> 0 then length ?d div 12 + 1 else length ?d div 12) = Suc (length ys)"
      "(if length ?d mod 12 = 0 then 12 else length ?d mod 12) = length (hex_plain x)"
    unfolding len using part_lengths [of "length (hex_plain x)" "length ys"] p(2,4) by (auto simp: Suc_le_eq)
  have "parse_parts (Suc (length ys)) (length (hex_plain x)) ?d [] = Some (ys @ [x])"
    using p(1) parse_parts_ok [OF small(2), of "[x]"] by (simp add: BIGINT_ITEM_HEX_DIGITS_def)
  then have "bigint_set_str ?h1 (Ref r) (Ref ?s) = Some (0, ?h1[r := \<lparr>items = ys @ [x], sign = sign (h ! a), neged_with_sign = False\<rparr>])"
    using set_str_digits [OF _ d(1,2) hd45 neg parts] assms(2) by (simp del: parse_parts.simps)
  moreover have "bval \<lparr>items = ys @ [x], sign = sign (h ! a), neged_with_sign = False\<rparr> = bval (h ! a)"
    using x(4) mag(2-4) neg False by (auto simp: bval_def [of ?b] bval_def [of "\<lparr>items = ys @ [x], sign = sign (h ! a), neged_with_sign = False\<rparr>"])
  ultimately show ?thesis using to assms(2) by (intro exI [of _ ?s]) simp
qed

end
