(* ===== verification/BigInt_Props.thy ===== *)
theory BigInt_Props
  imports BigInt_Powers BigInt_Text
begin

text \<open>
  The properties of big integers. Stores hold numbers of any representation the code produces;
  pointers are indices into them, so equal indices are aliases.
\<close>

subsection \<open>Setting\<close>

lemma split_items_ok: "items_ok (split_items v)" "items_val (split_items v) = unat v" "split_items v \<noteq> []"
proof -
  have "unat v = unat v mod 2 ^ 48 + 2 ^ 48 * (unat v div 2 ^ 48)" by simp
  moreover have "unat v < 2 ^ 48 * 2 ^ 48" by (rule order.strict_trans2 [OF unsigned_less]) simp
  then have "unat v div 2 ^ 48 < 2 ^ 48" by (rule less_mult_imp_div_less)
  moreover have "unat v < 2 ^ 48" if "\<not> BIGINT_ITEM_MAX < v" using that by (simp add: word_less_nat_alt unat_item_max)
  ultimately show "items_ok (split_items v)" "items_val (split_items v) = unat v" "split_items v \<noteq> []"
    by (auto simp: split_items_def BIGINT_ITEM_BITS_def)
qed

lemma set_uint64_ok:
  assumes "r < length h"
  shows "\<exists>b. bigint_set_uint64 h (Ref r) v = Some (0, h[r := b]) \<and> wf_big b \<and> bval b = int (unat v)"
  using assms split_items_ok [of v]
  by (cases "v = 0") (auto simp: bigint_set_uint64_def wf_big_def bval_def bigint_zero_def)

lemma unat_of_sint: "0 \<le> sint (v :: u64) \<Longrightarrow> int (unat v) = sint v" "sint (v :: u64) < 0 \<Longrightarrow> int (unat (- v)) = - sint v"
proof -
  have b: "- (2 ^ 63) \<le> sint v" "sint v < 2 ^ 63" using sint_greater_eq [of v] sint_less [of v] by simp_all
  have u: "int (unat (word_of_int k :: u64)) = k" if "0 \<le> k" "k < 2 ^ 64" for k
    using that by (simp add: uint_word_of_int take_bit_int_eq_self)
  show "int (unat v) = sint v" if "0 \<le> sint v" using u [of "sint v"] that b by simp
  have "- v = word_of_int (- sint v)" by simp
  then show "int (unat (- v)) = - sint v" if "sint v < 0" using u [of "- sint v"] that b by simp
qed

lemma set_int64_ok:
  assumes "r < length h"
  shows "\<exists>b. bigint_set_int64 h (Ref r) v = Some (0, h[r := b]) \<and> wf_big b \<and> bval b = sint v"
proof -
  consider "v = 0" | "v \<noteq> 0" "sint v < 0" | "v \<noteq> 0" "0 \<le> sint v" by linarith
  then show ?thesis
  proof cases
    case 1
    then show ?thesis using assms by (intro exI [of _ bigint_zero]) (simp add: bigint_set_int64_def wf_big_def bval_def bigint_zero_def)
  next
    case 2
    have neg: "int (unat (- v)) = - sint v" by (rule unat_of_sint(2) [OF 2(2)])
    have "unat (- v) \<noteq> 0"
    proof
      assume "unat (- v) = 0"
      then show False using neg 2(2) by linarith
    qed
    moreover have "bigint_set_int64 h (Ref r) v = Some (0, h[r := \<lparr>items = split_items (- v), sign = - 1, neged_with_sign = False\<rparr>])"
      using assms 2 by (simp only: bigint_set_int64_def) simp
    ultimately show ?thesis using neg split_items_ok [of "- v"] by (fastforce simp: wf_big_def bval_def)
  next
    case 3
    with 3 show ?thesis
      using assms split_items_ok [of v] unat_of_sint(1) [of v]
      by (intro exI [of _ "\<lparr>items = split_items v, sign = 1, neged_with_sign = False\<rparr>"]) (simp add: bigint_set_int64_def wf_big_def bval_def)
  qed
qed

subsection \<open>Properties\<close>

text \<open>
  The lengths of numbers in bits and of their texts are natural numbers in the model, and 64 and 32 bit
  integers in the code; numbers of less than \<open>2 ^ 28\<close> items keep them far from wrapping around.
\<close>

definition in_size :: "bigints \<Rightarrow> bool" where
  "in_size h \<longleftrightarrow> (\<forall>b\<in>set h. length (items b) < 2 ^ 28)"

text \<open>Minus five, \<open>2 ^ 48 + 3\<close> and \<open>-(2 ^ 48)\<close> in two's complement.\<close>

definition sample_numbers :: bigints where
  "sample_numbers = [\<lparr>items = [5], sign = - 1, neged_with_sign = False\<rparr>, \<lparr>items = [3, 1], sign = 1, neged_with_sign = False\<rparr>,
     \<lparr>items = [0, 0xFFFFFFFFFFFF], sign = - 1, neged_with_sign = True\<rparr>, bigint_zero]"

lemma sample_numbers_ok:
  "wf_big (sample_numbers ! 0)" "wf_big (sample_numbers ! 1)" "wf_big (sample_numbers ! 2)" "length sample_numbers = 4"
  "proper (sample_numbers ! 0)" "proper (sample_numbers ! 1)" "proper (sample_numbers ! 2)" "in_size sample_numbers"
  "bval (sample_numbers ! 0) = - 5" "bval (sample_numbers ! 1) = 281474976710659" "bval (sample_numbers ! 2) = - 281474976710656"
  by (simp_all add: sample_numbers_def wf_big_def proper_def bval_def neg_val_def in_size_def bigint_zero_def)

text \<open>
  C13. The sum of two big integers of any signs, stored as magnitudes or in two's complement, is the sum
  of their values, whichever of the three pointers are equal; no other number changes its value.
\<close>

theorem bigint_add_correct:
  assumes "r < length h" "a < length h" "b < length h" "wf_big (h ! a)" "wf_big (h ! b)"
  shows "\<exists>h'. bigint_add h (Ref r) (Ref a) (Ref b) = Some (0, h') \<and> length h' = length h \<and>
    wf_big (h' ! r) \<and> bval (h' ! r) = bval (h ! a) + bval (h ! b) \<and>
    (\<forall>k<length h. k \<noteq> r \<longrightarrow> wf_big (h ! k) \<longrightarrow> wf_big (h' ! k) \<and> bval (h' ! k) = bval (h ! k))"
  using bigint_add_ok [OF assms] by (auto simp: only_changes_def same_number_def)

theorem bigint_add_correct_witness:
  "\<exists>h'. bigint_add sample_numbers (Ref 2) (Ref 1) (Ref 2) = Some (0, h') \<and> bval (h' ! 2) = 3"
  using bigint_add_correct [of 2 sample_numbers 1 2] sample_numbers_ok by auto

text \<open>
  C14. The product of two big integers of any signs is the product of their values, unless the result is
  the second factor and not the first; no other number changes its value.
\<close>

theorem bigint_mul_correct:
  assumes "r < length h" "a < length h" "b < length h" "proper (h ! a)" "proper (h ! b)" "r = a \<or> r \<noteq> b" "in_size h"
  shows "\<exists>h'. bigint_mul h (Ref r) (Ref a) (Ref b) = Some (0, h') \<and> length h' = length h \<and>
    proper (h' ! r) \<and> bval (h' ! r) = bval (h ! a) * bval (h ! b) \<and>
    (\<forall>k<length h. k \<noteq> r \<longrightarrow> proper (h ! k) \<longrightarrow> proper (h' ! k) \<and> bval (h' ! k) = bval (h ! k))"
proof -
  obtain h' where "bigint_mul h (Ref r) (Ref a) (Ref b) = Some (0, h')" "magnitudes r h h'" "proper (h' ! r)"
      "bval (h' ! r) = bval (h ! a) * bval (h ! b)"
    using bigint_mul_ok [OF assms(1-6)] by blast
  then show ?thesis using magnitudes_proper [of r h h'] by (auto simp: magnitudes_def)
qed

theorem bigint_mul_correct_witness:
  "\<exists>h'. bigint_mul sample_numbers (Ref 3) (Ref 1) (Ref 2) = Some (0, h') \<and>
    bval (h' ! 3) = - 79228162514265182018474082304"
  using bigint_mul_correct [of 3 sample_numbers 1 2] sample_numbers_ok by auto

text \<open>
  C37. Comparing two big integers gives -1, 0 or 1 as the first is less than, equal to or greater than
  the second; it may change how a number is represented, but not its value.
\<close>

theorem bigint_cmp_correct:
  assumes "a < length h" "b < length h" "proper (h ! a)" "proper (h ! b)" "in_size h"
  shows "\<exists>h'. bigint_cmp h (Ref a) (Ref b) = Some (sgn (bval (h ! a) - bval (h ! b)), h') \<and> length h' = length h \<and>
    (\<forall>k<length h. proper (h ! k) \<longrightarrow> proper (h' ! k) \<and> bval (h' ! k) = bval (h ! k))"
proof -
  obtain h' where "bigint_cmp h (Ref a) (Ref b) = Some (sgn (bval (h ! a) - bval (h ! b)), h')" "length h' = length h"
      "\<forall>i<length h. h' ! i = h ! i \<or> h' ! i = big_magnitude (h ! i)"
    using bigint_cmp_ok [OF assms(1-4)] by blast
  then show ?thesis using magnitude_ok(1-3) by (intro exI [of _ h']) metis
qed

theorem bigint_cmp_correct_witness:
  "\<exists>h'. bigint_cmp sample_numbers (Ref 0) (Ref 2) = Some (1, h')"
  using bigint_cmp_correct [of 0 sample_numbers 2] sample_numbers_ok by auto

text \<open>
  C15. Dividing positive big integers ends and gives the quotient and, when asked for, the remainder,
  unless the quotient goes to the divisor and not the dividend; no other number changes its value.
\<close>

theorem bigint_div_correct:
  assumes "r < length h" "a < length h" "b < length h" "r = a \<or> r \<noteq> b" "natural (h ! a) A" "natural (h ! b) B" "0 < A" "0 < B"
    and "remainder = NULL \<or> (\<exists>m. remainder = Ref m \<and> m < length h \<and> m \<noteq> r)" "in_size h"
  shows "\<exists>h'. bigint_div_with_remainder h (Ref r) remainder (Ref a) (Ref b) = Some (0, h') \<and> length h' = length h \<and>
    natural (h' ! r) (A div B) \<and> (\<forall>m. remainder = Ref m \<longrightarrow> natural (h' ! m) (A mod B)) \<and>
    (\<forall>k<length h. k \<noteq> r \<longrightarrow> remainder \<noteq> Ref k \<longrightarrow> wf_big (h ! k) \<longrightarrow> wf_big (h' ! k) \<and> bval (h' ! k) = bval (h ! k))"
proof -
  obtain h' where "bigint_div_with_remainder h (Ref r) remainder (Ref a) (Ref b) = Some (0, h')" "length h' = length h"
      "natural (h' ! r) (A div B)"
      "\<forall>k<length h. k \<noteq> r \<longrightarrow> (if remainder = Ref k then natural (h' ! k) (A mod B) else same_number (h ! k) (h' ! k))"
    using divide_natural [OF assms(1-9)] by blast
  then show ?thesis using assms(9) by (intro exI [of _ h']) (auto simp: same_number_def split: if_splits)
qed

text \<open>\<open>2 ^ 48 + 3\<close>, 7 and 1000, and a place for a result.\<close>

definition sample_naturals :: bigints where
  "sample_naturals = [\<lparr>items = [3, 1], sign = 1, neged_with_sign = False\<rparr>, \<lparr>items = [7], sign = 1, neged_with_sign = False\<rparr>,
     \<lparr>items = [1000], sign = 1, neged_with_sign = False\<rparr>, bigint_zero]"

lemma sample_naturals_ok:
  "natural (sample_naturals ! 0) 281474976710659" "natural (sample_naturals ! 1) 7" "natural (sample_naturals ! 2) 1000"
  "length sample_naturals = 4" "in_size sample_naturals"
  by (simp_all add: sample_naturals_def natural_def wf_big_def proper_def bval_def in_size_def bigint_zero_def)

theorem bigint_div_correct_witness:
  "\<exists>h'. bigint_div_with_remainder sample_naturals (Ref 0) (Ref 3) (Ref 0) (Ref 1) = Some (0, h') \<and>
    natural (h' ! 0) 40210710958665 \<and> natural (h' ! 3) 4"
  using bigint_div_correct [of 0 sample_naturals 0 1 281474976710659 7 "Ref 3"] sample_naturals_ok by auto

text \<open>
  C35. Modular powers: for a modulus of at least two that has no factor in common with the base, the
  result is the power of the base reduced by the modulus, unless the result is the modulus, or the exponent
  and not the base; the other natural numbers of the store keep their values.
\<close>

theorem bigint_pow_mod_correct:
  assumes "r < length h" "a < length h" "b < length h" "c < length h" "r = a \<or> r \<noteq> b" "r \<noteq> c"
    and "natural (h ! a) A" "natural (h ! b) E" "natural (h ! c) C" "1 < C" "coprime A C" "in_size h"
  shows "\<exists>h'. bigint_pow_mod h (Ref r) (Ref a) (Ref b) (Ref c) = Some (0, h') \<and> length h' = length h \<and>
    natural (h' ! r) (A ^ E mod C) \<and> (\<forall>k<length h. k \<noteq> r \<longrightarrow> (\<forall>n. natural (h ! k) n \<longrightarrow> natural (h' ! k) n))"
  using pow_mod_natural [OF assms(1-11)] by (auto simp: keeps_def)

theorem bigint_pow_mod_correct_witness:
  "\<exists>h'. bigint_pow_mod sample_naturals (Ref 0) (Ref 0) (Ref 1) (Ref 2) = Some (0, h') \<and> natural (h' ! 0) 19"
  using bigint_pow_mod_correct [of 0 sample_naturals 0 1 2 281474976710659 7 1000] sample_naturals_ok
  by (auto simp: coprime_iff_gcd_eq_1 gcd_non_0_nat)

text \<open>
  C36. The greatest common divisor of two different natural numbers, one of which may be 0, is what
  \<open>bigint_gcd\<close> computes, unless the result is the second number and not the first; the other natural numbers of
  the store keep their values.
\<close>

theorem bigint_gcd_correct:
  assumes "r < length h" "a < length h" "b < length h" "r = a \<or> r \<noteq> b" "natural (h ! a) A" "natural (h ! b) B" "A \<noteq> B" "in_size h"
  shows "\<exists>h'. bigint_gcd h (Ref r) (Ref a) (Ref b) = Some (0, h') \<and> length h' = length h \<and>
    natural (h' ! r) (gcd A B) \<and> (\<forall>k<length h. k \<noteq> r \<longrightarrow> (\<forall>n. natural (h ! k) n \<longrightarrow> natural (h' ! k) n))"
  using gcd_natural [OF assms(1-7)] by (auto simp: keeps_def)

theorem bigint_gcd_correct_witness:
  "\<exists>h'. bigint_gcd sample_naturals (Ref 3) (Ref 0) (Ref 2) = Some (0, h') \<and> natural (h' ! 3) 1"
  using bigint_gcd_correct [of 3 sample_naturals 0 2 281474976710659 1000] sample_naturals_ok by (auto simp: gcd_non_0_nat)



end
