(* ===== verification/Spec2Isabelle.thy ===== *)
theory Spec2Isabelle
  imports List_Props Buffer_Props HashMap_Props Numbers_Props RBTree_Props Sorting_Props Sync_Props BigInt_Props
begin

text \<open>
  A verification of the freestanding libraries of the Turnstone operating system (C compiled for
  x86-64). The kernel, the boot loader, the compiler and the host tools of the repository all
  stand on the same few libraries under \<open>src/cc/lib\<close>, \<open>src/cc/memory\<close> and \<open>src/cc/cpu\<close>: containers,
  indexes, byte buffers, strings and number formatting, sorting, big integers, locks and semaphores. They
  have no operating system below them; memory comes from the heap \<open>memory_malloc_ext\<close>, mutual
  exclusion from \<open>lock_acquire\<close>. The lists use the locks and, when they are indexed, an index; the
  string functions use buffers; sorting and lists share the comparators. These libraries are what is
  modelled here.

  \<^bold>\<open>How C becomes HOL.\<close>
  \<^item> A pointer is a \<open>ref\<close>: \<open>NULL\<close> or \<open>Ref x\<close>. Where objects are shared and updated through several
    pointers (list items, tree nodes) \<open>x\<close> is an address in an explicit heap; where an object has a
    single owner (a list, a buffer, a hash map) \<open>x\<close> is the object. A pointer to bytes is the bytes
    from the pointer to the end of the object it points into.
  \<^item> An operation returns an \<open>option\<close>: \<open>None\<close> is an access outside an object or through a null or
    stale pointer, and a loop that does not end. The properties show \<open>Some\<close>, so they are about total
    correctness and memory safety as well as results.
  \<^item> \<open>int8_t\<close>, \<open>uint16_t\<close>, \<open>uint64_t\<close> and so on are words of that width, and arithmetic wraps.
  \<^item> Whether an allocation succeeds is an argument (a \<open>bool\<close>, or the address it returns) of the
    operation that allocates, except in the big integers, where every allocation succeeds. Fresh memory is
    zero, as \<open>memory_malloc_ext\<close> promises, and a request for no bytes gives \<open>NULL\<close>. A block has the size
    asked for; what the allocator adds to make it a multiple of eight bytes is not used.
  \<^item> Arguments that are values, such as the bytes appended to a buffer, are not parts of the object
    they are stored to. In the lists, the tree and the big integers, where pointers are addresses, they
    may be equal.
  \<^item> In the containers a lock is a flag of its object: acquiring a held lock and releasing a free one
    are visible. The locks themselves are modelled in \<open>Sync\<close>.
  \<^item> Comparators and key functions are arguments. Properties about order need a comparator that is a
    total preorder and returns only -1, 0 and 1 (locale \<open>comparator_order\<close>); the interface asks for the
    sign only, but the code compares with 1 and -1.
  \<^item> Loops are \<open>partial_function (option)\<close> or functions with a measure; no fuel is used.

  \<^bold>\<open>Theories.\<close>
  \<^item> \<open>Prelude\<close>: words, references, and the lemmas on them that all theories share.
  \<^item> \<open>LinkedList\<close>, \<open>ArrayList\<close>, \<open>List_Dispatch\<close>: \<open>lib/list_linked.64.c\<close>, \<open>lib/list_array.64.c\<close>
    and the interface \<open>lib/list.64.c\<close> with the queue and stack macros of \<open>includes/list.h\<close>.
    \<open>LinkedList_Inv\<close>, \<open>LinkedList_Ops\<close>, \<open>LinkedList_Lookup\<close>, \<open>LinkedList_Sorted\<close> and \<open>List_Props\<close>
    prove that every operation of the linked list keeps the doubly linked chain, the size and the
    cached middle item, and changes the sequence of payloads as the sequence operation of that name
    does; that a queue is a FIFO and a stack a LIFO for any run of operations (locale \<open>pushpop\<close>);
    and that a sorted list stays sorted and is searched correctly under any comparator that is a
    total preorder (locale \<open>comparator_order\<close>). Sizes are below \<open>2 ^ 63\<close>.
  \<^item> \<open>Memory_Bytes\<close>, \<open>Buffer\<close>, \<open>Buffer_Props\<close>: the block operations of \<open>memory/memory.xx.c\<close> and
    the growing buffer \<open>lib/buffer.64.c\<close>. Appending appends, whatever the capacity; integers written
    are read back; the word-wise comparison is the lexicographic order of the bytes. Positions are
    at most \<open>2 ^ 61\<close>, so that doubling a capacity does not wrap.
  \<^item> \<open>HashMap\<close>, \<open>HashMap_Props\<close>: \<open>lib/hashmap.64.c\<close> and its iterator. Insertion and lookup
    work for any hash and comparison of keys with the laws of locale \<open>hash_keys\<close>; with the default key
    functions they refine a finite map, in maps of any number of segments, while nothing was deleted, and
    iterating yields that map. The slots of a segment must fit into 64 bits of size.
  \<^item> \<open>Strings\<close>, \<open>Strings_Props\<close>: \<open>lib/strings.xx.c\<close>. Comparison, searching, splitting and
    trimming against the list functions they stand for, on terminated strings.
  \<^item> \<open>Numbers\<close>, \<open>Numbers_Props\<close>: \<open>lib/utils.xx.c\<close>, the number formatting of \<open>strings.xx.c\<close> and
    the conversions between UTF-16 and UTF-8. Formatting then parsing gives the number back in every
    base from 2 to 36, for texts that fit the 64 characters of the code's array.
  \<^item> \<open>RBTree\<close>: \<open>lib/rbtree.64.c\<close>, nodes in a heap with parent pointers. \<open>RBTree_Inv\<close> relates the heap to a
    tree, \<open>RBTree_Balance\<close>, \<open>RBTree_Repair\<close> and \<open>RBTree_Delete\<close> show that the repairs after insertion and
    deletion end and restore the colours, \<open>RBTree_Walk\<close> and \<open>RBTree_Search\<close> treat the traversals, and
    \<open>RBTree_Props\<close> shows that any run of operations refines a finite map (locale \<open>key_index\<close>), that a
    lookup compares logarithmically many keys, that a search yields the matching entries in order, and that
    destroying frees every node once.
  \<^item> \<open>Sorting\<close>, \<open>Sorting_Props\<close>: \<open>lib/quicksort.64.c\<close>, \<open>lib/binarysearch.64.c\<close> and
    \<open>lib/sunday_match.64.c\<close>: sorting sorts the slice and permutes only it, searching finds what is there. Arrays
    are shorter than \<open>2 ^ 63\<close>.
  \<^item> \<open>Sync\<close>, \<open>Sync_Inv\<close>, \<open>Sync_Props\<close>: \<open>cpu/sync.64.c\<close> as steps of one shared access each, interleaved
    between any number of tasks. A task does not acquire a lock it holds, the lock is no future and the
    task stays on its processor while it acquires. Mutual exclusion, the conservation of the units of a
    semaphore, and progress in fair executions.
  \<^item> \<open>BigInt\<close>, \<open>BigInt_Arith\<close>: \<open>lib/bigint.64.c\<close>. A number is the list of its 48 bit items, a sign and a
    flag for two's complement; numbers are in a store so that operands may be aliases. \<open>BigInt_Value\<close> and
    \<open>BigInt_Ops\<close> give the value of a number and of the loops over items, \<open>BigInt_Sum\<close>, \<open>BigInt_Cmp\<close>, \<open>BigInt_Mul\<close>,
    \<open>BigInt_Div\<close>, \<open>BigInt_Nat\<close>, \<open>BigInt_Powers\<close> and \<open>BigInt_Text\<close> the operations, and \<open>BigInt_Props\<close> states what
    sums, products, quotients, modular powers, divisors, comparisons and texts are.

  \<^bold>\<open>Flaws.\<close> Where an operation does not do what its name or comment says, a property or a lemma says what
  it does instead: deleting by value the wrong item, a lock that stays held after a miss in the index,
  hash map deletion hiding other keys, arrays too short for their text. Hypotheses of the
  properties exclude other flaws: an empty array to sort or search, an empty pattern, both strings empty,
  a big integer divided into its divisor.

  \<^bold>\<open>Not modelled.\<close> Device drivers, the scheduler, the network stack, the assembler, linker and
  compiler front ends, graphics and the host tools: they are input and output on hardware, or stand on
  the services of the running kernel. Formatted printing is not modelled (its arguments
  are a C variable argument list), nor are random and prime big integers, which draw from the random
  generator. Cryptographic and compression code is left out.
\<close>

end
